(* ===== verification/Prelude.thy ===== *)
theory Prelude
  imports Main "HOL-Library.Word" "HOL-Library.Multiset"
begin

text \<open>
  The shared base of the development: the outcomes of Go code that can fail
  (\<open>res\<close>, a sum of an \<open>error\<close> and a value) with sequencing and the two loop shapes with
  an early return, the bounds-checked access to slices, Go's signed 64-bit integers, and the
  collections of proof rules that the component theories extend.
\<close>

section \<open>Outcomes\<close>

text \<open>
  A Go function either returns, panics or does not return at all. \<open>IndexOutOfRange\<close> is the
  run-time panic of a slice or array access, \<open>SliceBounds\<close> that of a slice expression,
  \<open>NilDereference\<close> that of a method call on a nil interface or pointer, and \<open>Diverges\<close> stands
  for a loop or recursion that never ends.
\<close>

datatype error = IndexOutOfRange | SliceBounds | NilDereference | Diverges

type_synonym 'a res = "error + 'a"

definition rbind :: "'a res \<Rightarrow> ('a \<Rightarrow> 'b res) \<Rightarrow> 'b res" where
  "rbind m f = (case m of Inl e \<Rightarrow> Inl e | Inr x \<Rightarrow> f x)"

lemma rbind_simps [simp]:
  "rbind (Inl e) f = Inl e"
  "rbind (Inr x) f = f x"
  by (simp_all add: rbind_def)

lemma rbind_cong [fundef_cong]:
  "m = m' \<Longrightarrow> (\<And>x. m' = Inr x \<Longrightarrow> f x = f' x) \<Longrightarrow> rbind m f = rbind m' f'"
  by (auto simp: rbind_def split: sum.splits)

lemma rbind_eq_Inr [simp]: "rbind m f = Inr y \<longleftrightarrow> (\<exists>x. m = Inr x \<and> f x = Inr y)"
  by (cases m) auto

lemma rbind_eq_Inl: "rbind m f = Inl e \<longleftrightarrow> m = Inl e \<or> (\<exists>x. m = Inr x \<and> f x = Inl e)"
  by (cases m) auto

lemma rbind_assoc: "rbind (rbind m f) g = rbind m (\<lambda>x. rbind (f x) g)"
  by (cases m) auto

lemma rbind_if: "rbind (if b then m else m') f = (if b then rbind m f else rbind m' f)"
  by simp

definition of_option :: "'a res option \<Rightarrow> 'a res" where
  "of_option r = (case r of None \<Rightarrow> Inl Diverges | Some x \<Rightarrow> x)"

lemma of_option_simps [simp]:
  "of_option None = Inl Diverges"
  "of_option (Some x) = x"
  by (simp_all add: of_option_def)

section \<open>Loops with an early return\<close>

text \<open>
  \<open>exM p xs\<close> is the loop that returns true at the first element on which \<open>p\<close> holds and false
  after the last, \<open>allM p xs\<close> the loop that returns false at the first element on which \<open>p\<close>
  fails. A panic of \<open>p\<close> ends the loop.
\<close>

fun exM :: "('a \<Rightarrow> bool res) \<Rightarrow> 'a list \<Rightarrow> bool res" where
  "exM p [] = Inr False"
| "exM p (x # xs) = rbind (p x) (\<lambda>b. if b then Inr True else exM p xs)"

fun allM :: "('a \<Rightarrow> bool res) \<Rightarrow> 'a list \<Rightarrow> bool res" where
  "allM p [] = Inr True"
| "allM p (x # xs) = rbind (p x) (\<lambda>b. if b then allM p xs else Inr False)"

lemma exM_cong [fundef_cong]:
  "xs = ys \<Longrightarrow> (\<And>x. x \<in> set ys \<Longrightarrow> p x = q x) \<Longrightarrow> exM p xs = exM q ys"
proof (induction xs arbitrary: ys)
  case (Cons a xs)
  then have "exM p xs = exM q xs" and "p a = q a" by auto
  with Cons.prems(1) show ?case by (auto cong: if_cong)
qed auto

lemma allM_cong [fundef_cong]:
  "xs = ys \<Longrightarrow> (\<And>x. x \<in> set ys \<Longrightarrow> p x = q x) \<Longrightarrow> allM p xs = allM q ys"
proof (induction xs arbitrary: ys)
  case (Cons a xs)
  then have "allM p xs = allM q xs" and "p a = q a" by auto
  with Cons.prems(1) show ?case by (auto cong: if_cong)
qed auto

lemma exM_total:
  "(\<And>x. x \<in> set xs \<Longrightarrow> p x = Inr (P x)) \<Longrightarrow> exM p xs = Inr (\<exists>x\<in>set xs. P x)"
  by (induction xs) auto

lemma allM_total:
  "(\<And>x. x \<in> set xs \<Longrightarrow> p x = Inr (P x)) \<Longrightarrow> allM p xs = Inr (\<forall>x\<in>set xs. P x)"
  by (induction xs) auto

section \<open>Slices and integers\<close>

text \<open>
  Go's \<open>int\<close> has 64 bits here. Indices and lengths are \<open>int\<close> in the model; \<open>go_int\<close> writes the
  wrap-around out where a sum of arbitrary values is formed.
\<close>

definition go_int :: "int \<Rightarrow> int" where
  "go_int k = sint (word_of_int k :: 64 word)"

lemma go_int_id: "- (2 ^ 63) \<le> k \<Longrightarrow> k < 2 ^ 63 \<Longrightarrow> go_int k = k"
  by (simp add: go_int_def sint_sbintrunc' signed_take_bit_int_eq_self)

definition index_at :: "'a list \<Rightarrow> int \<Rightarrow> 'a res" where
  "index_at xs i = (if 0 \<le> i \<and> i < int (length xs) then Inr (xs ! nat i) else Inl IndexOutOfRange)"

lemma index_at_nat: "i < length xs \<Longrightarrow> index_at xs (int i) = Inr (xs ! i)"
  by (simp add: index_at_def)

lemma index_at_append [simp]:
  "i < int (length xs) \<Longrightarrow> index_at (xs @ ys) i = index_at xs i"
  by (auto simp: index_at_def nth_append nat_less_iff)

lemma index_at_Inr_iff:
  "(\<exists>x. index_at xs i = Inr x) \<longleftrightarrow> 0 \<le> i \<and> i < int (length xs)"
  by (simp add: index_at_def)

section \<open>Computations that return\<close>

definition returns :: "'a res \<Rightarrow> bool" where
  "returns x \<longleftrightarrow> (\<exists>v. x = Inr v)"

named_theorems returns_intro \<open>rules for computations that neither panic nor run for ever\<close>

lemma returns_Inr [simp, returns_intro]: "returns (Inr v)"
  by (simp add: returns_def)

lemma returns_bind [returns_intro]: "returns x \<Longrightarrow> (\<And>v. x = Inr v \<Longrightarrow> returns (f v)) \<Longrightarrow> returns (rbind x f)"
  by (auto simp: returns_def)

lemma returns_if [returns_intro]: "(b \<Longrightarrow> returns x) \<Longrightarrow> (\<not> b \<Longrightarrow> returns y) \<Longrightarrow> returns (if b then x else y)"
  by simp

lemma returns_exM [returns_intro]: "(\<And>x. x \<in> set xs \<Longrightarrow> returns (p x)) \<Longrightarrow> returns (exM p xs)"
  by (induction xs) (auto intro!: returns_bind)

lemma returns_allM [returns_intro]: "(\<And>x. x \<in> set xs \<Longrightarrow> returns (p x)) \<Longrightarrow> returns (allM p xs)"
  by (induction xs) (auto intro!: returns_bind)

lemma returns_prod [returns_intro]: "(\<And>a b. x = (a, b) \<Longrightarrow> returns (f a b)) \<Longrightarrow> returns (case x of (a, b) \<Rightarrow> f a b)"
  by (cases x) simp

end
