(* ===== verification/Float64.thy ===== *)
theory Float64
  imports Complex_Main Prelude
begin

text \<open>
  Go's \<open>float64\<close>: the IEEE 754 binary64 format as a 64-bit pattern, with the comparisons, the
  arithmetic in round-to-nearest-even, and the functions of package \<open>math\<close> that the geometry
  code calls. Finite values are integers in units of 2 to the power -1074, the least positive
  float, so every exact result is a fraction of integers and \<open>round_mag\<close> rounds such a fraction
  to the nearest magnitude. All of it computes.
\<close>

section \<open>Bit patterns\<close>

datatype f64 = F64 (f64_bits: "64 word")

definition inf_mag :: nat where
  "inf_mag = 2047 * 2 ^ 52"

definition f_neg :: "f64 \<Rightarrow> bool" where
  "f_neg x = (2 ^ 63 \<le> unat (f64_bits x))"

definition f_mag :: "f64 \<Rightarrow> nat" where
  "f_mag x = unat (f64_bits x) mod 2 ^ 63"

definition f_mk :: "bool \<Rightarrow> nat \<Rightarrow> f64" where
  "f_mk s m = F64 (word_of_nat ((if s then 2 ^ 63 else 0) + m))"

definition is_nan :: "f64 \<Rightarrow> bool" where
  "is_nan x = (inf_mag < f_mag x)"

definition is_inf :: "f64 \<Rightarrow> bool" where
  "is_inf x = (f_mag x = inf_mag)"

definition is_fin :: "f64 \<Rightarrow> bool" where
  "is_fin x = (f_mag x < inf_mag)"

text \<open>One, in units of the least positive float.\<close>

definition f_scale :: nat where
  "f_scale = 2 ^ 1074"

definition f_nan :: f64 where
  "f_nan = F64 0x7FF8000000000001"

definition f_inf :: "bool \<Rightarrow> f64" where
  "f_inf s = f_mk s inf_mag"

text \<open>
  The position of a float in the order of the non-NaN floats: both zeroes have key 0, the
  infinities have the largest and the least key.
\<close>

definition fkey :: "f64 \<Rightarrow> int" where
  "fkey x = (if f_neg x then - int (f_mag x) else int (f_mag x))"

definition feq :: "f64 \<Rightarrow> f64 \<Rightarrow> bool" where
  "feq x y = (\<not> is_nan x \<and> \<not> is_nan y \<and> fkey x = fkey y)"

section \<open>Values and rounding\<close>

text \<open>
  \<open>f_units m\<close> is the value of the finite magnitude \<open>m\<close> in units of the least positive float:
  below 2 to the power 52 the format is subnormal and the units are the magnitude itself, above
  it the eleven exponent bits \<open>m div 2 ^ 52\<close> scale the 53-bit significand.
\<close>

definition f_units :: "nat \<Rightarrow> nat" where
  "f_units m = (if m < 2 ^ 52 then m else (2 ^ 52 + m mod 2 ^ 52) * 2 ^ (m div 2 ^ 52 - 1))"

definition fval :: "f64 \<Rightarrow> int" where
  "fval x = (if f_neg x then - int (f_units (f_mag x)) else int (f_units (f_mag x)))"

fun bit_length :: "nat \<Rightarrow> nat" where
  "bit_length n = (if n = 0 then 0 else Suc (bit_length (n div 2)))"

declare bit_length.simps [simp del]

text \<open>Round-half-even of the fraction \<open>n / d\<close> to a natural number.\<close>

definition rne :: "nat \<Rightarrow> nat \<Rightarrow> nat" where
  "rne n d =
     (let q = n div d; r = n mod d
      in if 2 * r < d then q else if d < 2 * r then Suc q else if even q then q else Suc q)"

text \<open>
  The magnitude nearest to \<open>n / d\<close> units. The quotient is scaled down by a power of two so that
  53 bits are left; a carry out of the significand is a carry into the exponent, and a result
  beyond the largest finite magnitude is the infinity.
\<close>

definition round_shift :: "nat \<Rightarrow> nat \<Rightarrow> nat" where
  "round_shift n d = bit_length (n div d) - 53"

definition round_mag :: "nat \<Rightarrow> nat \<Rightarrow> nat" where
  "round_mag n d =
     min inf_mag (round_shift n d * 2 ^ 52 + rne n (d * 2 ^ round_shift n d))"

section \<open>Comparisons and arithmetic\<close>

text \<open>
  The order and the arithmetic are those of the hardware, so no order or ring laws hold for the
  class instances beyond what is proved below: a NaN is not below itself and sums round.
\<close>

instantiation f64 :: ord
begin

definition less_f64 :: "f64 \<Rightarrow> f64 \<Rightarrow> bool" where
  "less_f64 x y = (\<not> is_nan x \<and> \<not> is_nan y \<and> fkey x < fkey y)"

definition less_eq_f64 :: "f64 \<Rightarrow> f64 \<Rightarrow> bool" where
  "less_eq_f64 x y = (\<not> is_nan x \<and> \<not> is_nan y \<and> fkey x \<le> fkey y)"

instance
  by standard

end

definition fneg :: "f64 \<Rightarrow> f64" where
  "fneg x = f_mk (\<not> f_neg x) (f_mag x)"

definition fadd :: "f64 \<Rightarrow> f64 \<Rightarrow> f64" where
  "fadd x y =
     (if is_nan x \<or> is_nan y then f_nan
      else if is_inf x then (if is_inf y \<and> f_neg x \<noteq> f_neg y then f_nan else x)
      else if is_inf y then y
      else let v = fval x + fval y
           in if v = 0 then f_mk (f_neg x \<and> f_neg y) 0
              else f_mk (v < 0) (round_mag (nat \<bar>v\<bar>) 1))"

definition fmul :: "f64 \<Rightarrow> f64 \<Rightarrow> f64" where
  "fmul x y =
     (if is_nan x \<or> is_nan y then f_nan
      else if is_inf x \<or> is_inf y
           then (if f_mag x = 0 \<or> f_mag y = 0 then f_nan else f_inf (f_neg x \<noteq> f_neg y))
      else f_mk (f_neg x \<noteq> f_neg y)
             (round_mag (f_units (f_mag x) * f_units (f_mag y)) f_scale))"

definition fdiv :: "f64 \<Rightarrow> f64 \<Rightarrow> f64" where
  "fdiv x y =
     (if is_nan x \<or> is_nan y then f_nan
      else if is_inf x then (if is_inf y then f_nan else f_inf (f_neg x \<noteq> f_neg y))
      else if is_inf y then f_mk (f_neg x \<noteq> f_neg y) 0
      else if f_mag y = 0
           then (if f_mag x = 0 then f_nan else f_inf (f_neg x \<noteq> f_neg y))
      else f_mk (f_neg x \<noteq> f_neg y)
             (round_mag (f_units (f_mag x) * f_scale) (f_units (f_mag y))))"

instantiation f64 :: "{zero, one, plus, uminus, minus, times, inverse}"
begin

definition zero_f64 :: f64 where
  "zero_f64 = F64 0"

definition one_f64 :: f64 where
  "one_f64 = F64 0x3FF0000000000000"

definition plus_f64 :: "f64 \<Rightarrow> f64 \<Rightarrow> f64" where
  "plus_f64 = fadd"

definition uminus_f64 :: "f64 \<Rightarrow> f64" where
  "uminus_f64 = fneg"

definition minus_f64 :: "f64 \<Rightarrow> f64 \<Rightarrow> f64" where
  "minus_f64 x y = fadd x (fneg y)"

definition times_f64 :: "f64 \<Rightarrow> f64 \<Rightarrow> f64" where
  "times_f64 = fmul"

definition divide_f64 :: "f64 \<Rightarrow> f64 \<Rightarrow> f64" where
  "divide_f64 = fdiv"

definition inverse_f64 :: "f64 \<Rightarrow> f64" where
  "inverse_f64 x = fdiv 1 x"

instance
  by standard

end

definition f_two :: f64 where
  "f_two = F64 0x4000000000000000"

text \<open>\<open>math.Nextafter(x, y)\<close>: the float after \<open>x\<close> in the direction of \<open>y\<close>.\<close>

definition nextafter :: "f64 \<Rightarrow> f64 \<Rightarrow> f64" where
  "nextafter x y =
     (if is_nan x \<or> is_nan y then f_nan
      else if feq x y then x
      else if feq x 0 then f_mk (f_neg y) 1
      else if (x < y) = (0 < x) then F64 (f64_bits x + 1)
      else F64 (f64_bits x - 1))"

section \<open>Decoding and encoding\<close>

lemma f_mag_bound: "f_mag x < 2 ^ 63"
  by (simp add: f_mag_def)

lemma unat_f64_bits: "unat (f64_bits x) = (if f_neg x then 2 ^ 63 else 0) + f_mag x"
proof -
  have "unat (f64_bits x) < 2 * 2 ^ 63"
    using unsigned_less [of "f64_bits x"] by simp
  then show ?thesis by (simp add: f_neg_def f_mag_def le_mod_geq)
qed

lemma unat_word_of_nat_small: "n < 2 ^ LENGTH('a) \<Longrightarrow> unat (word_of_nat n :: 'a::len word) = n"
  by (simp add: unsigned_of_nat take_bit_nat_eq_self)

lemma unat_f_mk:
  assumes "m < 2 ^ 63"
  shows "unat (f64_bits (f_mk s m)) = (if s then 2 ^ 63 else 0) + m"
  using assms unfolding f_mk_def f64.sel by (intro unat_word_of_nat_small) auto

lemma f_neg_f_mk [simp]: "m < 2 ^ 63 \<Longrightarrow> f_neg (f_mk s m) = s"
  by (simp add: f_neg_def unat_f_mk)

lemma f_mag_f_mk [simp]: "m < 2 ^ 63 \<Longrightarrow> f_mag (f_mk s m) = m"
  by (simp add: f_mag_def unat_f_mk)

lemma f_mk_surj [simp]: "f_mk (f_neg x) (f_mag x) = x"
proof -
  have "F64 (word_of_nat (unat (f64_bits x))) = x" by simp
  then show ?thesis unfolding unat_f64_bits f_mk_def .
qed

lemma f64_eqI: "f_neg x = f_neg y \<Longrightarrow> f_mag x = f_mag y \<Longrightarrow> x = y"
  by (subst f_mk_surj [of x, symmetric], subst f_mk_surj [of y, symmetric]) (simp only:)

lemma inf_mag_bound: "inf_mag < 2 ^ 63"
  by (simp add: inf_mag_def)

lemma f_class: 
  "is_fin x \<Longrightarrow> \<not> is_nan x" "is_inf x \<Longrightarrow> \<not> is_nan x"
  "is_fin x \<Longrightarrow> \<not> is_inf x" "\<not> is_nan x \<Longrightarrow> \<not> is_inf x \<Longrightarrow> is_fin x"
  by (auto simp: is_nan_def is_inf_def is_fin_def)

section \<open>The values of magnitudes\<close>

lemma f_units_small: "m < 2 ^ 53 \<Longrightarrow> f_units m = m"
proof (cases "m < 2 ^ 52")
  case False
  moreover assume "m < 2 ^ 53"
  ultimately have "m div 2 ^ 52 = 1" by (simp add: div_nat_eqI)
  then show ?thesis
    using False div_mult_mod_eq [of m "2 ^ 52"] by (simp add: f_units_def)
qed (simp add: f_units_def)

lemma f_units_scaled:
  assumes "2 ^ 52 \<le> k" "k \<le> 2 ^ 53"
  shows "f_units (s * 2 ^ 52 + k) = k * 2 ^ s"
proof (cases "k = 2 ^ 53")
  case True
  have "s * 2 ^ 52 + k = (s + 2) * (2::nat) ^ 52" using True by simp
  then have "f_units (s * 2 ^ 52 + k) = 2 ^ 52 * 2 ^ (s + 1)"
    unfolding f_units_def by simp
  with True show ?thesis by simp
next
  case False
  then have k: "k = 2 ^ 52 + (k - 2 ^ 52)" "k - 2 ^ 52 < 2 ^ 52"
    using assms by auto
  define f where "f = k - 2 ^ 52"
  with k have "k = 2 ^ 52 + f" "f < 2 ^ 52" by auto
  then have "s * 2 ^ 52 + k = (s + 1) * 2 ^ 52 + f" by simp
  with \<open>f < 2 ^ 52\<close> have "f_units (s * 2 ^ 52 + k) = (2 ^ 52 + f) * 2 ^ s"
    unfolding f_units_def by (simp add: div_add1_eq)
  with \<open>k = 2 ^ 52 + f\<close> show ?thesis by simp
qed

lemma f_mag_split:
  fixes m :: nat
  obtains s k where "m = s * 2 ^ 52 + k" "k < 2 ^ 53" "s = 0 \<or> 2 ^ 52 \<le> k"
proof (cases "m < 2 ^ 52")
  case True
  then show ?thesis using that [of 0 m] by simp
next
  case False
  let ?s = "m div 2 ^ 52 - 1" and ?k = "2 ^ 52 + m mod 2 ^ 52"
  from False have "1 \<le> m div 2 ^ 52" by (simp add: Suc_leI div_greater_zero_iff)
  then have "m = ?s * 2 ^ 52 + ?k"
    using div_mult_mod_eq [of m "2 ^ 52"] by (simp add: algebra_simps)
  then show ?thesis using that [of ?s ?k] by simp
qed

lemma f_units_split: "k < 2 ^ 53 \<Longrightarrow> s = 0 \<or> 2 ^ 52 \<le> k \<Longrightarrow> f_units (s * 2 ^ 52 + k) = k * 2 ^ s"
  using f_units_small [of k] f_units_scaled [of k s] by auto

lemma f_units_Suc: "f_units m < f_units (Suc m)"
proof -
  obtain s k where m: "m = s * 2 ^ 52 + k" "k < 2 ^ 53" "s = 0 \<or> 2 ^ 52 \<le> k"
    by (rule f_mag_split)
  have u: "f_units m = k * 2 ^ s" using m f_units_split [of k s] by simp
  have "f_units (Suc m) = Suc k * 2 ^ s"
  proof (cases "2 ^ 52 \<le> k")
    case True
    with m show ?thesis using f_units_scaled [of "Suc k" s] by simp
  next
    case False
    with m show ?thesis by (simp add: f_units_small)
  qed
  with u show ?thesis by simp
qed

lemma f_units_less: "m < n \<Longrightarrow> f_units m < f_units n"
  by (rule lift_Suc_mono_less) (rule f_units_Suc)

lemma f_units_less_iff [simp]: "f_units m < f_units n \<longleftrightarrow> m < n"
  by (metis f_units_less linorder_neqE_nat order_less_asym)

lemma f_units_le_iff [simp]: "f_units m \<le> f_units n \<longleftrightarrow> m \<le> n"
  by (metis f_units_less_iff not_less)

lemma f_units_eq_iff [simp]: "f_units m = f_units n \<longleftrightarrow> m = n"
  by (metis f_units_less_iff linorder_neqE_nat less_irrefl)

lemma f_units_0 [simp]: "f_units 0 = 0"
  by (simp add: f_units_def)

lemma f_units_eq_0_iff [simp]: "f_units m = 0 \<longleftrightarrow> m = 0"
  using f_units_eq_iff [of m 0] by (simp del: f_units_eq_iff)

lemma minus_int_less: "- int a < int b \<longleftrightarrow> a \<noteq> 0 \<or> b \<noteq> 0"
  by auto

lemma fval_less_iff: "fval x < fval y \<longleftrightarrow> fkey x < fkey y"
  by (auto simp: fval_def fkey_def minus_int_less)

lemma fval_eq_iff: "fval x = fval y \<longleftrightarrow> fkey x = fkey y"
  by (metis fval_less_iff linorder_neqE order_less_irrefl)

lemma fval_le_iff: "fval x \<le> fval y \<longleftrightarrow> fkey x \<le> fkey y"
  by (metis fval_less_iff not_less)

lemma bit_length_0 [simp]: "bit_length 0 = 0"
  by (simp add: bit_length.simps)

lemma bit_length_le_iff: "bit_length n \<le> k \<longleftrightarrow> n < 2 ^ k"
proof (induction n arbitrary: k rule: bit_length.induct)
  case (1 n)
  show ?case
  proof (cases "n = 0")
    case False
    then have "bit_length n = Suc (bit_length (n div 2))" by (simp add: bit_length.simps [of n])
    with 1 [OF False, of "k - 1"] False show ?thesis
      by (cases k) (auto simp: div_less_iff_less_mult)
  qed simp
qed

lemma bit_length_upper: "n < 2 ^ bit_length n"
  using bit_length_le_iff [of n "bit_length n"] by simp

lemma bit_length_lower: "k < bit_length n \<Longrightarrow> 2 ^ k \<le> n"
  using bit_length_le_iff [of n k] by simp

lemma bit_length_mono: "m \<le> n \<Longrightarrow> bit_length m \<le> bit_length n"
  using bit_length_upper [of n] by (simp add: bit_length_le_iff)

section \<open>Rounding\<close>

lemma rne_bounds:
  assumes "0 < d"
  shows "2 * n \<le> 2 * (rne n d * d) + d" "2 * (rne n d * d) \<le> 2 * n + d"
    "2 * n = 2 * (rne n d * d) + d \<Longrightarrow> even (rne n d)"
    "2 * (rne n d * d) = 2 * n + d \<Longrightarrow> even (rne n d)"
proof -
  define q r where "q = n div d" and "r = n mod d"
  have n: "n = q * d + r" and r: "r < d" using assms by (auto simp: q_def r_def)
  have e: "rne n d = (if 2 * r < d then q else if d < 2 * r then Suc q else if even q then q else Suc q)"
    by (simp add: rne_def q_def r_def Let_def)
  show "2 * n \<le> 2 * (rne n d * d) + d" "2 * (rne n d * d) \<le> 2 * n + d"
    unfolding e using r by (auto simp: n)
  show "2 * n = 2 * (rne n d * d) + d \<Longrightarrow> even (rne n d)"
    unfolding e using r by (auto simp: n split: if_splits)
  show "2 * (rne n d * d) = 2 * n + d \<Longrightarrow> even (rne n d)"
    unfolding e using r by (auto simp: n split: if_splits)
qed

lemma rne_mono:
  assumes "0 < d" "0 < d'" "n * d' \<le> n' * d"
  shows "rne n d \<le> rne n' d'"
proof (rule ccontr)
  let ?k = "rne n d" and ?k' = "rne n' d'"
  assume "\<not> ?k \<le> ?k'"
  then have k: "Suc ?k' \<le> ?k" by simp
  \<comment> \<open>both quotients are the midpoint between the two results\<close>
  have 1: "2 * (?k * d) \<le> 2 * n + d" and 2: "2 * n' \<le> 2 * (?k' * d') + d'"
    using rne_bounds assms(1,2) by auto
  have a: "2 * (?k * d) * d' \<le> (2 * n + d) * d'" using 1 by (rule mult_le_mono1)
  have b: "2 * n' * d \<le> (2 * (?k' * d') + d') * d" using 2 by (rule mult_le_mono1)
  have c: "Suc ?k' * (d * d') \<le> ?k * (d * d')" using k by (rule mult_le_mono1)
  have "2 * (?k * (d * d')) \<le> 2 * (n * d') + d * d'" using a by (simp add: algebra_simps)
  moreover have "2 * (n' * d) \<le> 2 * (?k' * (d * d')) + d * d'" using b by (simp add: algebra_simps)
  moreover have "?k' * (d * d') + d * d' \<le> ?k * (d * d')" using c by (simp add: algebra_simps)
  ultimately have eq: "2 * (?k * (d * d')) = 2 * (n * d') + d * d'"
      "2 * (n' * d) = 2 * (?k' * (d * d')) + d * d'"
      "?k' * (d * d') + d * d' = ?k * (d * d')"
    using assms(3) by linarith+
  have "(2 * (?k * d)) * d' = (2 * n + d) * d'" using eq(1) by (simp add: algebra_simps)
  then have "even ?k" using assms rne_bounds(4) by simp
  have "(2 * n') * d = (2 * (?k' * d') + d') * d" using eq(2) by (simp add: algebra_simps)
  then have "even ?k'" using assms rne_bounds(3) by simp
  have "Suc ?k' * (d * d') = ?k * (d * d')" using eq(3) by simp
  then have "Suc ?k' = ?k \<or> d * d' = 0" by (simp only: mult_cancel2)
  then have "Suc ?k' = ?k" using assms(1,2) by simp
  with \<open>even ?k\<close> \<open>even ?k'\<close> show False by (metis even_Suc)
qed

lemma rne_exact: "0 < d \<Longrightarrow> rne (k * d) d = k"
  by (simp add: rne_def Let_def)

lemma rne_scale: "0 < c \<Longrightarrow> rne (n * c) (d * c) = rne n d"
proof -
  assume c: "0 < c"
  have "2 * (n mod d * c) < d * c \<longleftrightarrow> 2 * (n mod d) < d"
       "d * c < 2 * (n mod d * c) \<longleftrightarrow> d < 2 * (n mod d)"
    using c by (metis mult.assoc mult_less_cancel2)+
  then show ?thesis using c by (simp add: rne_def Let_def mult_mod_left)
qed

lemma rne_le: "0 < d \<Longrightarrow> n \<le> k * d \<Longrightarrow> rne n d \<le> k"
  using rne_mono [of d 1 n k] rne_exact [of 1 k] by simp

lemma rne_ge: "0 < d \<Longrightarrow> k * d \<le> n \<Longrightarrow> k \<le> rne n d"
  using rne_mono [of 1 d k n] rne_exact [of 1 k] by simp

lemma round_shift_upper: "0 < d \<Longrightarrow> n < 2 ^ 53 * (d * 2 ^ round_shift n d)"
proof -
  assume d: "0 < d"
  have "n div d < 2 ^ (53 + round_shift n d)"
    by (simp only: bit_length_le_iff [symmetric] round_shift_def)
  then have "n < 2 ^ (53 + round_shift n d) * d"
    using d by (simp add: div_less_iff_less_mult)
  then show ?thesis by (simp add: power_add algebra_simps)
qed

lemma round_shift_lower:
  assumes "0 < d" "0 < round_shift n d"
  shows "2 ^ 52 * (d * 2 ^ round_shift n d) \<le> n"
proof -
  have "52 + round_shift n d < bit_length (n div d)"
    using assms by (simp add: round_shift_def)
  then have "2 ^ (52 + round_shift n d) \<le> n div d" by (rule bit_length_lower)
  then have "2 ^ (52 + round_shift n d) * d \<le> n"
    using assms by (simp add: less_eq_div_iff_mult_less_eq)
  then show ?thesis by (simp add: power_add algebra_simps)
qed

lemma round_shift_mono:
  assumes "0 < d" "0 < d'" "n * d' \<le> n' * d"
  shows "round_shift n d \<le> round_shift n' d'"
proof -
  have "n div d * d * d' \<le> n' * d"
    using assms(3) mult_le_mono1 [OF div_times_less_eq_dividend [of n d], of d'] by linarith
  then have "(n div d * d') * d \<le> n' * d" by (simp add: algebra_simps)
  then have "n div d * d' \<le> n'" using assms(1) by simp
  then have "n div d \<le> n' div d'" using assms by (simp add: less_eq_div_iff_mult_less_eq)
  then show ?thesis unfolding round_shift_def by (intro diff_le_mono bit_length_mono)
qed

definition round_raw :: "nat \<Rightarrow> nat \<Rightarrow> nat" where
  "round_raw n d = round_shift n d * 2 ^ 52 + rne n (d * 2 ^ round_shift n d)"

lemma round_mag_raw: "round_mag n d = min inf_mag (round_raw n d)"
  by (simp add: round_mag_def round_raw_def)

lemma round_raw_rne:
  assumes "0 < d"
  shows "rne n (d * 2 ^ round_shift n d) \<le> 2 ^ 53"
    "0 < round_shift n d \<Longrightarrow> 2 ^ 52 \<le> rne n (d * 2 ^ round_shift n d)"
  using round_shift_upper [OF assms, of n] round_shift_lower [OF assms, of n] assms
  by (auto intro!: rne_le rne_ge)

lemma round_raw_mono:
  assumes "0 < d" "0 < d'" "n * d' \<le> n' * d"
  shows "round_raw n d \<le> round_raw n' d'"
proof (cases "round_shift n d = round_shift n' d'")
  case True
  have "n * (d' * 2 ^ round_shift n d) \<le> n' * (d * 2 ^ round_shift n d)"
    using assms(3) by (simp flip: mult.assoc)
  then have "rne n (d * 2 ^ round_shift n d) \<le> rne n' (d' * 2 ^ round_shift n d)"
    using assms by (intro rne_mono) auto
  with True show ?thesis by (simp add: round_raw_def)
next
  case False
  with round_shift_mono [OF assms] have s: "Suc (round_shift n d) \<le> round_shift n' d'" by simp
  have "round_raw n d \<le> round_shift n d * 2 ^ 52 + 2 ^ 53"
    using round_raw_rne [OF assms(1), of n] by (simp add: round_raw_def)
  also have "\<dots> = Suc (round_shift n d) * 2 ^ 52 + 2 ^ 52" by simp
  also have "\<dots> \<le> round_shift n' d' * 2 ^ 52 + 2 ^ 52" using s by (intro add_mono mult_le_mono1) auto
  also have "\<dots> \<le> round_raw n' d'"
    using round_raw_rne(2) [OF assms(2), of n'] s by (simp add: round_raw_def)
  finally show ?thesis .
qed

lemma round_raw_exact:
  assumes "0 < d"
  shows "round_raw (f_units m * d) d = m"
proof -
  obtain s k where m: "m = s * 2 ^ 52 + k" "k < 2 ^ 53" "s = 0 \<or> 2 ^ 52 \<le> k"
    by (rule f_mag_split)
  then have u: "f_units m = k * 2 ^ s" by (simp only: f_units_split)
  have "round_shift (f_units m * d) d = s"
  proof -
    have "bit_length (f_units m) \<le> 53 + s"
      using m(2) by (simp add: bit_length_le_iff u power_add)
    moreover have "0 < s \<Longrightarrow> 53 + s \<le> bit_length (f_units m)"
    proof (rule ccontr)
      assume "0 < s" "\<not> 53 + s \<le> bit_length (f_units m)"
      then have "bit_length (f_units m) \<le> 52 + s" by simp
      then have "k * 2 ^ s < 2 ^ 52 * 2 ^ s" unfolding bit_length_le_iff u power_add .
      with m(3) \<open>0 < s\<close> show False by simp
    qed
    ultimately show ?thesis using assms by (cases "s = 0") (auto simp: round_shift_def)
  qed
  moreover have "rne (f_units m * d) (d * 2 ^ s) = k"
    using rne_exact [of "d * 2 ^ s" k] assms by (simp add: u algebra_simps)
  ultimately show ?thesis by (simp add: round_raw_def m(1))
qed

section \<open>Arithmetic is rounded exact arithmetic\<close>

text \<open>
  \<open>rval x\<close> is the exact value of a finite float. \<open>rnd r\<close> is the key of the float nearest to the
  rational \<open>r\<close>: monotone, odd, and exact on the values of floats. Each operation on finite
  floats has the key \<open>rnd\<close> of the exact result.
\<close>

definition rval :: "f64 \<Rightarrow> rat" where
  "rval x = of_int (fval x) / of_nat f_scale"

definition rnd :: "rat \<Rightarrow> int" where
  "rnd r = (let (a, b) = quotient_of (r * of_nat f_scale)
            in sgn a * int (round_mag (nat \<bar>a\<bar>) (nat b)))"

lemma f_scale_pos [simp]: "0 < f_scale" "f_scale \<noteq> 0"
  by (simp_all add: f_scale_def)

lemma f_units_pos_iff [simp]: "0 < f_units m \<longleftrightarrow> 0 < m"
  using f_units_less_iff [of 0 m] by (simp del: f_units_less_iff)

lemma round_mag_mono:
  "0 < d \<Longrightarrow> 0 < d' \<Longrightarrow> n * d' \<le> n' * d \<Longrightarrow> round_mag n d \<le> round_mag n' d'"
  using round_raw_mono [of d d' n n'] by (simp add: round_mag_raw min_le_iff_disj)

lemma round_mag_cong:
  "0 < d \<Longrightarrow> 0 < d' \<Longrightarrow> n * d' = n' * d \<Longrightarrow> round_mag n d = round_mag n' d'"
  by (intro antisym round_mag_mono) auto

lemma round_mag_units: "0 < d \<Longrightarrow> m \<le> inf_mag \<Longrightarrow> round_mag (f_units m * d) d = m"
  by (simp add: round_mag_raw round_raw_exact)

lemma round_mag_le: "round_mag n d \<le> inf_mag"
  by (simp add: round_mag_def)

lemma round_mag_bound: "round_mag n d < 2 ^ 63"
  using round_mag_le inf_mag_bound by (rule le_less_trans)

lemma round_mag_0 [simp]: "0 < d \<Longrightarrow> round_mag 0 d = 0"
  using round_mag_units [of d 0] by simp

lemma rnd_of_int_div:
  assumes "0 < d" "r * of_nat f_scale = of_int v / of_int d"
  shows "rnd r = sgn v * int (round_mag (nat \<bar>v\<bar>) (nat d))"
proof -
  obtain a b where q: "quotient_of (r * of_nat f_scale) = (a, b)" by fastforce
  have b: "0 < b" and e: "r * of_nat f_scale = of_int a / of_int b"
    using q by (auto intro: quotient_of_denom_pos quotient_of_div)
  then have "of_int a * of_int d = (of_int v * of_int b :: rat)"
    using assms b by (simp add: field_simps)
  then have eq: "a * d = v * b" by (metis of_int_eq_iff of_int_mult)
  then have "sgn a * sgn d = sgn v * sgn b" by (metis sgn_mult)
  then have s: "sgn a = sgn v" using b assms by simp
  have "\<bar>a\<bar> * d = \<bar>v\<bar> * b" using eq b assms by (metis abs_mult abs_of_pos)
  then have "nat \<bar>a\<bar> * nat d = nat \<bar>v\<bar> * nat b" by (metis abs_ge_zero nat_mult_distrib)
  then have "round_mag (nat \<bar>a\<bar>) (nat b) = round_mag (nat \<bar>v\<bar>) (nat d)"
    using b assms by (intro round_mag_cong) auto
  with s q show ?thesis by (simp add: rnd_def)
qed

lemma rnd_0 [simp]: "rnd 0 = 0"
  using rnd_of_int_div [of 1 0 0] by simp

lemma rnd_uminus: "rnd (- r) = - rnd r"
proof -
  obtain a b where q: "quotient_of (r * of_nat f_scale) = (a, b)" by fastforce
  have b: "0 < b" and e: "r * of_nat f_scale = of_int a / of_int b"
    using q by (auto intro: quotient_of_denom_pos quotient_of_div)
  have e': "- r * of_nat f_scale = of_int (- a) / of_int b"
    by (simp add: e)
  show ?thesis using rnd_of_int_div [OF b e] rnd_of_int_div [OF b e'] by simp
qed

lemma rnd_nonneg: "0 \<le> r \<Longrightarrow> 0 \<le> rnd r"
proof -
  assume r: "0 \<le> r"
  obtain a b where q: "quotient_of (r * of_nat f_scale) = (a, b)" by fastforce
  have b: "0 < b" and e: "r * of_nat f_scale = of_int a / of_int b"
    using q by (auto intro: quotient_of_denom_pos quotient_of_div)
  have "0 \<le> r * of_nat f_scale" using r by simp
  then have "0 \<le> a" using b e by (simp add: zero_le_divide_iff)
  then show ?thesis using q by (simp add: rnd_def sgn_if)
qed

lemma rnd_mono_nonneg:
  assumes "0 \<le> r" "r \<le> r'"
  shows "rnd r \<le> rnd r'"
proof -
  obtain a b where q: "quotient_of (r * of_nat f_scale) = (a, b)" by fastforce
  obtain a' b' where q': "quotient_of (r' * of_nat f_scale) = (a', b')" by fastforce
  have b: "0 < b" "0 < b'"
    and e: "r * of_nat f_scale = of_int a / of_int b" "r' * of_nat f_scale = of_int a' / of_int b'"
    using q q' by (auto intro: quotient_of_denom_pos quotient_of_div)
  have "0 \<le> r * of_nat f_scale" "r * of_nat f_scale \<le> r' * of_nat f_scale" using assms by auto
  then have "0 \<le> a" and le: "(of_int a :: rat) * of_int b' \<le> of_int a' * of_int b"
    using b by (auto simp: e zero_le_divide_iff divide_simps split: if_splits)
  have le': "a * b' \<le> a' * b" using le by (metis of_int_le_iff of_int_mult)
  moreover have "0 \<le> a * b'" using \<open>0 \<le> a\<close> b by simp
  ultimately have "0 \<le> a' * b" by linarith
  then have "0 \<le> a'" using b by (simp add: zero_le_mult_iff)
  have "nat a * nat b' \<le> nat a' * nat b"
    using le' \<open>0 \<le> a\<close> \<open>0 \<le> a'\<close> b by (metis nat_mono nat_mult_distrib)
  then have "round_mag (nat a) (nat b) \<le> round_mag (nat a') (nat b')"
    using b by (intro round_mag_mono) auto
  moreover have "rnd r = int (round_mag (nat a) (nat b))"
    using q \<open>0 \<le> a\<close> b by (cases "a = 0") (auto simp: rnd_def)
  moreover have "rnd r' = int (round_mag (nat a') (nat b'))"
    using q' \<open>0 \<le> a'\<close> b by (cases "a' = 0") (auto simp: rnd_def)
  ultimately show ?thesis by simp
qed

lemma rnd_mono: "r \<le> r' \<Longrightarrow> rnd r \<le> rnd r'"
proof -
  assume le: "r \<le> r'"
  consider "0 \<le> r" | "r < 0" "0 \<le> r'" | "r' < 0" by linarith
  then show ?thesis
  proof cases
    case 1
    then show ?thesis using le by (rule rnd_mono_nonneg)
  next
    case 2
    have "rnd r \<le> 0" using rnd_nonneg [of "- r"] 2 by (simp add: rnd_uminus)
    also have "0 \<le> rnd r'" using 2(2) by (rule rnd_nonneg)
    finally show ?thesis .
  next
    case 3
    then show ?thesis using rnd_mono_nonneg [of "- r'" "- r"] le by (simp add: rnd_uminus)
  qed
qed

lemma rnd_less: "rnd r < rnd r' \<Longrightarrow> r < r'"
  using rnd_mono [of r' r] by linarith

lemma rnd_bound: "\<bar>rnd r\<bar> \<le> int inf_mag"
proof -
  obtain a b where q: "quotient_of (r * of_nat f_scale) = (a, b)" by fastforce
  show ?thesis using round_mag_le [of "nat \<bar>a\<bar>" "nat b"] q
    by (auto simp: rnd_def abs_mult sgn_if)
qed

lemma rnd_rval: "is_fin x \<Longrightarrow> rnd (rval x) = fkey x"
proof -
  assume fin: "is_fin x"
  have "rnd (rval x) = sgn (fval x) * int (round_mag (nat \<bar>fval x\<bar>) (nat 1))"
    by (intro rnd_of_int_div) (auto simp: rval_def)
  moreover have "nat \<bar>fval x\<bar> = f_units (f_mag x)" by (simp add: fval_def)
  moreover have "round_mag (f_units (f_mag x)) 1 = f_mag x"
    using round_mag_units [of 1 "f_mag x"] fin by (simp add: is_fin_def)
  ultimately show ?thesis by (auto simp: fval_def fkey_def sgn_if)
qed

text \<open>Every key within the bounds belongs to a float.\<close>

lemma is_nan_f_mk [simp]: "m \<le> inf_mag \<Longrightarrow> \<not> is_nan (f_mk s m)"
  using inf_mag_bound by (simp add: is_nan_def)

lemma fkey_f_mk: "m \<le> inf_mag \<Longrightarrow> fkey (f_mk s m) = (if s then - int m else int m)"
  using inf_mag_bound by (simp add: fkey_def)

lemma fkey_abs: "\<bar>fkey x\<bar> = int (f_mag x)"
  by (simp add: fkey_def)

lemma is_fin_key: "is_fin x \<longleftrightarrow> \<bar>fkey x\<bar> < int inf_mag"
  by (simp add: is_fin_def fkey_abs)

lemma is_inf_key: "is_inf x \<longleftrightarrow> \<bar>fkey x\<bar> = int inf_mag"
  by (simp add: is_inf_def fkey_abs)

lemma is_nan_key: "is_nan x \<longleftrightarrow> int inf_mag < \<bar>fkey x\<bar>"
  by (simp add: is_nan_def fkey_abs)

lemma fkey_rnd_f_mk:
  assumes "0 < d" "r * of_nat f_scale = of_int v / of_int d" "v \<noteq> 0 \<Longrightarrow> s = (v < 0)"
  shows "fkey (f_mk s (round_mag (nat \<bar>v\<bar>) (nat d))) = rnd r"
  using assms rnd_of_int_div [OF assms(1,2)]
  by (cases "v = 0") (auto simp: fkey_f_mk round_mag_le sgn_if fkey_f_mk [of 0, simplified])

text \<open>The operations.\<close>

lemma fneg_simps [simp]:
  "f_neg (- x) = (\<not> f_neg x)" "f_mag (- x) = f_mag x"
  using f_mag_bound [of x] by (simp_all add: uminus_f64_def fneg_def)

lemma fneg_class [simp]:
  "is_nan (- x) = is_nan x" "is_inf (- x) = is_inf x" "is_fin (- x) = is_fin x"
  by (simp_all add: is_nan_def is_inf_def is_fin_def)

lemma fneg_key [simp]: "fkey (- x) = - fkey x" "fval (- x) = - fval x" "rval (- x) = - rval x"
  by (simp_all add: fkey_def fval_def rval_def)

lemma fsub_eq: "x - y = x + (- y :: f64)"
  by (simp add: minus_f64_def plus_f64_def uminus_f64_def)

lemma fadd_fin:
  assumes "is_fin x" "is_fin y"
  shows "\<not> is_nan (x + y)" "fkey (x + y) = rnd (rval x + rval y)"
proof -
  have e: "x + y = (if fval x + fval y = 0 then f_mk (f_neg x \<and> f_neg y) 0
              else f_mk (fval x + fval y < 0) (round_mag (nat \<bar>fval x + fval y\<bar>) (nat 1)))"
    using assms by (simp add: plus_f64_def fadd_def f_class(1,3) Let_def)
  show "\<not> is_nan (x + y)" by (simp add: e round_mag_le del: nat_1)
  have r: "(rval x + rval y) * of_nat f_scale = of_int (fval x + fval y) / of_int 1"
    by (simp add: rval_def field_simps)
  show "fkey (x + y) = rnd (rval x + rval y)"
  proof (cases "fval x + fval y = 0")
    case True
    then have "rval x + rval y = 0" using r by simp
    with True show ?thesis by (simp add: e fkey_f_mk)
  next
    case False
    then show ?thesis using fkey_rnd_f_mk [OF _ r, of "fval x + fval y < 0"] by (simp add: e)
  qed
qed

lemma fsub_fin:
  assumes "is_fin x" "is_fin y"
  shows "\<not> is_nan (x - y)" "fkey (x - y) = rnd (rval x - rval y)"
  using fadd_fin [of x "- y"] assms by (simp_all add: fsub_eq)

lemma fmul_fin:
  assumes "is_fin x" "is_fin y"
  shows "\<not> is_nan (x * y)" "fkey (x * y) = rnd (rval x * rval y)"
proof -
  have e: "x * y = f_mk (f_neg x \<noteq> f_neg y)
             (round_mag (nat \<bar>fval x * fval y\<bar>) (f_scale))"
    using assms
    by (simp add: times_f64_def fmul_def f_class(1,3) fval_def abs_mult nat_mult_distrib
       )
  show "\<not> is_nan (x * y)" by (simp add: e round_mag_le)
  have r: "(rval x * rval y) * of_nat f_scale = of_int (fval x * fval y) / of_int (int f_scale)"
    by (simp add: rval_def)
  have "fkey (f_mk (f_neg x \<noteq> f_neg y) (round_mag (nat \<bar>fval x * fval y\<bar>) (nat (int f_scale))))
      = rnd (rval x * rval y)"
    by (rule fkey_rnd_f_mk [OF _ r]) (auto simp: fval_def mult_less_0_iff)
  then show "fkey (x * y) = rnd (rval x * rval y)" by (simp add: e)
qed

lemma fval_0_iff: "fval x = 0 \<longleftrightarrow> f_mag x = 0"
  by (simp add: fval_def)

lemma fdiv_fin:
  assumes "is_fin x" "is_fin y" "fval y \<noteq> 0"
  shows "\<not> is_nan (x / y)" "fkey (x / y) = rnd (rval x / rval y)"
proof -
  let ?v = "fval x * sgn (fval y) * int f_scale"
  have "nat \<bar>?v\<bar> = f_units (f_mag x) * f_scale"
    using assms(3) by (auto simp: fval_def abs_mult sgn_if nat_mult_distrib)
  moreover have "nat \<bar>fval y\<bar> = f_units (f_mag y)" by (simp add: fval_def)
  ultimately have e: "x / y = f_mk (f_neg x \<noteq> f_neg y) (round_mag (nat \<bar>?v\<bar>) (nat \<bar>fval y\<bar>))"
    using assms by (simp add: divide_f64_def fdiv_def f_class(1,3) fval_0_iff)
  show "\<not> is_nan (x / y)" by (simp add: e round_mag_le)
  have "(of_int \<bar>fval y\<bar> :: rat) = of_int (fval y) * of_int (sgn (fval y))"
    by (simp add: abs_sgn [of "fval y"])
  then have r: "(rval x / rval y) * of_nat f_scale = of_int ?v / of_int \<bar>fval y\<bar>"
    using assms(3) by (auto simp: rval_def field_simps sgn_if)
  show "fkey (x / y) = rnd (rval x / rval y)"
    unfolding e using assms(3)
    by (intro fkey_rnd_f_mk [OF _ r]) (auto simp: fval_def mult_less_0_iff sgn_if split: if_splits)
qed

text \<open>Results that are representable are exact.\<close>

lemma rval_eq_iff: "rval x = rval y \<longleftrightarrow> fkey x = fkey y"
  by (simp add: rval_def fval_eq_iff)

lemma rval_less_iff: "rval x < rval y \<longleftrightarrow> fkey x < fkey y"
  by (simp add: rval_def divide_strict_right_mono fval_less_iff divide_less_cancel)

lemma rval_le_iff: "rval x \<le> rval y \<longleftrightarrow> fkey x \<le> fkey y"
  by (metis rval_less_iff not_less)

lemma f64_less_rval: "is_fin x \<Longrightarrow> is_fin y \<Longrightarrow> x < y \<longleftrightarrow> rval x < rval y"
  by (simp add: less_f64_def f_class(1) rval_less_iff)

lemma f64_le_rval: "is_fin x \<Longrightarrow> is_fin y \<Longrightarrow> x \<le> y \<longleftrightarrow> rval x \<le> rval y"
  by (simp add: less_eq_f64_def f_class(1) rval_le_iff)

lemma feq_rval: "is_fin x \<Longrightarrow> is_fin y \<Longrightarrow> feq x y \<longleftrightarrow> rval x = rval y"
  by (simp add: feq_def f_class(1) rval_eq_iff)

definition representable :: "rat \<Rightarrow> bool" where
  "representable r \<longleftrightarrow> (\<exists>x. is_fin x \<and> rval x = r)"

lemma rnd_representable:
  assumes "representable r" "\<not> is_nan z" "fkey z = rnd r"
  shows "is_fin z" "rval z = r"
proof -
  obtain x where x: "is_fin x" "rval x = r" using assms(1) by (auto simp: representable_def)
  then have "fkey z = fkey x" using assms(3) rnd_rval [of x] by simp
  then show "is_fin z" "rval z = r"
    using x rval_eq_iff [of z x] by (simp_all add: is_fin_key)
qed

lemma representable_units:
  assumes "k < 2 ^ 53" "s < 2045"
  shows "representable (of_nat (k * 2 ^ s) / of_nat f_scale)"
proof -
  define n where "n = k * 2 ^ s"
  \<comment> \<open>normalise the significand\<close>
  have "\<exists>m. m < inf_mag \<and> f_units m = n"
    using assms unfolding n_def
  proof (induction s arbitrary: k)
    case 0
    then have "k < inf_mag" by (simp add: inf_mag_def)
    with 0 show ?case using f_units_small [of k] by auto
  next
    case (Suc s)
    show ?case
    proof (cases "k < 2 ^ 52")
      case True
      then have "2 * k < 2 ^ 53" by simp
      then have "\<exists>m<inf_mag. f_units m = (2 * k) * 2 ^ s" using Suc by auto
      then show ?thesis by (simp add: algebra_simps)
    next
      case False
      then have "f_units (Suc s * 2 ^ 52 + k) = k * 2 ^ Suc s"
        using Suc.prems by (intro f_units_scaled) auto
      moreover have "Suc s * 2 ^ 52 + k < inf_mag"
      proof -
        have "Suc s * 2 ^ 52 \<le> 2044 * (2::nat) ^ 52" using Suc.prems by (intro mult_le_mono1) auto
        then show ?thesis using Suc.prems by (simp add: inf_mag_def)
      qed
      ultimately show ?thesis by blast
    qed
  qed
  then obtain m where m: "m < inf_mag" "f_units m = n" by blast
  then have "rval (f_mk False m) = of_nat n / of_nat f_scale" "is_fin (f_mk False m)"
    using inf_mag_bound by (simp_all add: rval_def fval_def is_fin_def)
  then show ?thesis unfolding representable_def n_def by blast
qed

lemma representable_uminus: "representable r \<Longrightarrow> representable (- r)"
  unfolding representable_def by (metis fneg_class(3) fneg_key(3))

lemma representable_of_int:
  assumes "\<bar>k\<bar> < 2 ^ 53"
  shows "representable (of_int k)"
proof -
  have "nat \<bar>k\<bar> < 2 ^ 53" using assms by simp
  then have "representable (of_nat (nat \<bar>k\<bar> * 2 ^ 1074) / of_nat f_scale)"
    by (intro representable_units) auto
  moreover have "(of_nat (nat \<bar>k\<bar> * 2 ^ 1074) / of_nat f_scale :: rat) = of_int \<bar>k\<bar>"
    using f_scale_pos(2) unfolding f_scale_def [symmetric] by simp
  ultimately have "representable (of_int \<bar>k\<bar>)" by simp
  then show ?thesis
    using representable_uminus [of "of_int \<bar>k\<bar>"] by (cases "0 \<le> k") auto
qed

section \<open>Integers as floats\<close>

text \<open>
  \<open>fint x k\<close>: the float \<open>x\<close> is the integer \<open>k\<close>. On integers of less than 53 bits sums,
  differences and products are exact.
\<close>

definition fint :: "f64 \<Rightarrow> int \<Rightarrow> bool" where
  "fint x k \<longleftrightarrow> is_fin x \<and> rval x = of_int k"

definition f_of_int :: "int \<Rightarrow> f64" where
  "f_of_int k = f_mk (k < 0) (round_mag (nat \<bar>k\<bar> * f_scale) 1)"

lemma fint_f_of_int: "\<bar>k\<bar> < 2 ^ 53 \<Longrightarrow> fint (f_of_int k) k"
proof -
  assume k: "\<bar>k\<bar> < 2 ^ 53"
  have r: "of_int k * of_nat f_scale = (of_int (k * int f_scale) / of_int 1 :: rat)" by simp
  have "fkey (f_mk (k < 0) (round_mag (nat \<bar>k * int f_scale\<bar>) (nat 1))) = rnd (of_int k)"
    by (rule fkey_rnd_f_mk [OF _ r]) (auto simp: mult_less_0_iff)
  moreover have "nat \<bar>k * int f_scale\<bar> = nat \<bar>k\<bar> * f_scale"
    by (simp add: abs_mult nat_mult_distrib)
  ultimately have "fkey (f_of_int k) = rnd (of_int k)" by (simp add: f_of_int_def)
  moreover have "\<not> is_nan (f_of_int k)" by (simp add: f_of_int_def round_mag_le)
  ultimately show ?thesis
    using rnd_representable [OF representable_of_int [OF k]] by (simp add: fint_def)
qed

lemma fint_fin: "fint x k \<Longrightarrow> is_fin x"
  by (simp add: fint_def)

lemma fint_not_nan: "fint x k \<Longrightarrow> \<not> is_nan x"
  by (simp add: fint_def f_class(1))

lemma fint_add: "fint x i \<Longrightarrow> fint y j \<Longrightarrow> \<bar>i + j\<bar> < 2 ^ 53 \<Longrightarrow> fint (x + y) (i + j)"
  using rnd_representable [OF representable_of_int [of "i + j"], of "x + y"] fadd_fin [of x y]
  by (simp add: fint_def)

lemma fint_sub: "fint x i \<Longrightarrow> fint y j \<Longrightarrow> \<bar>i - j\<bar> < 2 ^ 53 \<Longrightarrow> fint (x - y) (i - j)"
  using rnd_representable [OF representable_of_int [of "i - j"], of "x - y"] fsub_fin [of x y]
  by (simp add: fint_def)

lemma fint_mul: "fint x i \<Longrightarrow> fint y j \<Longrightarrow> \<bar>i * j\<bar> < 2 ^ 53 \<Longrightarrow> fint (x * y) (i * j)"
  using rnd_representable [OF representable_of_int [of "i * j"], of "x * y"] fmul_fin [of x y]
  by (simp add: fint_def)

lemma fint_uminus: "fint x i \<Longrightarrow> fint (- x) (- i)"
  by (simp add: fint_def)

lemma fint_less: "fint x i \<Longrightarrow> fint y j \<Longrightarrow> x < y \<longleftrightarrow> i < j"
  by (simp add: fint_def f64_less_rval)

lemma fint_le: "fint x i \<Longrightarrow> fint y j \<Longrightarrow> x \<le> y \<longleftrightarrow> i \<le> j"
  by (simp add: fint_def f64_le_rval)

lemma fint_feq: "fint x i \<Longrightarrow> fint y j \<Longrightarrow> feq x y \<longleftrightarrow> i = j"
  by (simp add: fint_def feq_rval)

lemmas fint_cmp = fint_less fint_le fint_feq

lemma f_zero_simps [simp]: "\<not> is_nan 0" "fkey 0 = 0" "is_fin 0"
  by (simp_all add: zero_f64_def is_nan_def is_fin_def f_mag_def fkey_def f_neg_def inf_mag_def)

lemma fint_0: "fint 0 0"
  by (simp add: fint_def rval_def fval_def zero_f64_def f_mag_def f_neg_def is_fin_def inf_mag_def)

lemma fint_1: "fint 1 1"
proof -
  have "f_mag 1 = 1023 * 2 ^ 52" "\<not> f_neg 1"
    by (simp_all add: one_f64_def f_mag_def f_neg_def)
  moreover have "f_units (1022 * 2 ^ 52 + 2 ^ 52) = 2 ^ 52 * 2 ^ 1022"
    by (rule f_units_scaled) auto
  moreover have "(2::nat) ^ 52 * 2 ^ 1022 = f_scale"
    unfolding f_scale_def power_add [symmetric] by (rule arg_cong) simp
  ultimately show ?thesis
    by (simp add: fint_def rval_def fval_def is_fin_def inf_mag_def)
qed

lemma fint_2: "fint f_two 2"
proof -
  have m: "f_mag f_two = 1023 * 2 ^ 52 + 2 ^ 52" and "\<not> f_neg f_two"
    by (simp_all add: f_two_def f_mag_def f_neg_def)
  have "f_units (1023 * 2 ^ 52 + 2 ^ 52) = 2 ^ 52 * 2 ^ 1023"
    by (rule f_units_scaled) auto
  also have "\<dots> = 2 * f_scale"
    unfolding f_scale_def power_add [symmetric] power_Suc [symmetric] by (rule arg_cong) simp
  finally have "fval f_two = int (2 * f_scale)"
    using \<open>\<not> f_neg f_two\<close> by (simp only: fval_def m if_False)
  moreover have "is_fin f_two" unfolding is_fin_def m by (simp add: inf_mag_def)
  ultimately show ?thesis by (simp add: fint_def rval_def)
qed

section \<open>Infinities and the next float\<close>

lemma f_inf_simps [simp]:
  "\<not> is_nan (f_inf s)" "is_inf (f_inf s)" "\<not> is_fin (f_inf s)" "f_neg (f_inf s) = s"
  "f_mag (f_inf s) = inf_mag"
  "fkey (f_inf s) = (if s then - int inf_mag else int inf_mag)"
  using inf_mag_bound by (simp_all add: f_inf_def is_inf_def is_fin_def fkey_f_mk)

lemma is_nan_f_nan [simp]: "is_nan f_nan"
  by (simp add: f_nan_def is_nan_def f_mag_def inf_mag_def)

lemma not_nan_key: "\<not> is_nan x \<longleftrightarrow> \<bar>fkey x\<bar> \<le> int inf_mag"
  by (simp add: is_nan_key not_less)

lemma below_inf: "\<not> is_nan x \<Longrightarrow> x \<le> f_inf False" "\<not> is_nan x \<Longrightarrow> f_inf True \<le> x"
  by (auto simp: less_eq_f64_def not_nan_key abs_le_iff)

lemma f_word_step:
  "f_mag x < 2 ^ 63 - 1 \<Longrightarrow> F64 (f64_bits x + 1) = f_mk (f_neg x) (Suc (f_mag x))"
  "0 < f_mag x \<Longrightarrow> F64 (f64_bits x - 1) = f_mk (f_neg x) (f_mag x - 1)"
proof -
  have b: "f64_bits x = word_of_nat ((if f_neg x then 2 ^ 63 else 0) + f_mag x)"
    unfolding unat_f64_bits [symmetric] by simp
  have "f64_bits x + 1 = word_of_nat (Suc ((if f_neg x then 2 ^ 63 else 0) + f_mag x))"
    unfolding b by (simp only: of_nat_Suc add.commute)
  then show "F64 (f64_bits x + 1) = f_mk (f_neg x) (Suc (f_mag x))"
    by (simp add: f_mk_def)
  show "0 < f_mag x \<Longrightarrow> F64 (f64_bits x - 1) = f_mk (f_neg x) (f_mag x - 1)"
    unfolding b f_mk_def by (cases "f_mag x") auto
qed

lemma nextafter_inf:
  assumes "\<not> is_nan x" "\<not> feq x (f_inf False)"
  shows "\<not> is_nan (nextafter x (f_inf False))" "fkey (nextafter x (f_inf False)) = fkey x + 1"
proof -
  have x: "fkey x < int inf_mag" "\<bar>fkey x\<bar> \<le> int inf_mag"
    using assms by (auto simp: feq_def not_nan_key)
  have m: "f_mag x \<le> inf_mag" using x(2) by (simp add: fkey_abs)
  have lt: "x < f_inf False" using assms(1) x by (simp add: less_f64_def)
  have "\<not> is_nan (nextafter x (f_inf False)) \<and> fkey (nextafter x (f_inf False)) = fkey x + 1"
  proof (cases "fkey x = 0")
    case True
    then show ?thesis using assms
      by (simp add: nextafter_def feq_def fkey_f_mk inf_mag_def)
  next
    case nz: False
    then have "0 < f_mag x" by (simp add: fkey_def split: if_splits)
    show ?thesis
    proof (cases "f_neg x")
      case True
      then have "fkey x < 0" using nz by (simp add: fkey_def)
      then have "nextafter x (f_inf False) = F64 (f64_bits x - 1)"
        using assms nz lt by (simp add: nextafter_def feq_def less_f64_def)
      then show ?thesis using True m \<open>0 < f_mag x\<close> f_word_step(2) [of x]
        by (simp add: fkey_f_mk) (simp add: fkey_def)
    next
      case False
      then have k: "fkey x = int (f_mag x)" by (simp add: fkey_def)
      then have "nextafter x (f_inf False) = F64 (f64_bits x + 1)"
        using assms nz lt \<open>0 < f_mag x\<close> by (simp add: nextafter_def feq_def less_f64_def)
      moreover have "Suc (f_mag x) \<le> inf_mag" using x k by simp
      ultimately show ?thesis
        using False k f_word_step(1) [of x] inf_mag_bound by (simp add: fkey_f_mk)
    qed
  qed
  then show "\<not> is_nan (nextafter x (f_inf False))" "fkey (nextafter x (f_inf False)) = fkey x + 1"
    by auto
qed

lemmas f64_order = less_f64_def less_eq_f64_def feq_def

lemma f_of_int_fin [simp]: "\<bar>k\<bar> < 2 ^ 53 \<Longrightarrow> is_fin (f_of_int k)"
  by (rule fint_fin [OF fint_f_of_int])

lemma f_of_int_not_nan [simp]: "\<bar>k\<bar> < 2 ^ 53 \<Longrightarrow> \<not> is_nan (f_of_int k)"
  by (rule fint_not_nan [OF fint_f_of_int])

lemma f_of_int_cmp [simp]:
  assumes "\<bar>i\<bar> < 2 ^ 53" "\<bar>j\<bar> < 2 ^ 53"
  shows "f_of_int i < f_of_int j \<longleftrightarrow> i < j" "f_of_int i \<le> f_of_int j \<longleftrightarrow> i \<le> j"
    "feq (f_of_int i) (f_of_int j) \<longleftrightarrow> i = j"
  using fint_f_of_int [OF assms(1)] fint_f_of_int [OF assms(2)]
  by (simp_all add: fint_cmp)

end
