(* ===== verification/Shapes.thy ===== *)
theory Shapes
  imports Float64
begin

text \<open>
  The plain shapes: \<open>Point\<close> (point.go), \<open>Rect\<close> (rect.go) and \<open>Segment\<close> (segment.go, its data,
  \<open>Move\<close> and \<open>Rect\<close>), with the operations that look at coordinates only. A method is named
  after its receiver: \<open>rect_ContainsPoint\<close> is \<open>Rect.ContainsPoint\<close>. Go's \<open>==\<close> on these structs
  compares the coordinates as floats, so it is \<open>point_eq\<close> and \<open>rect_eq\<close>, never HOL equality.
\<close>

section \<open>Data\<close>

record Point =
  X :: f64
  Y :: f64

record Rect =
  RMin :: Point
  RMax :: Point

record Segment =
  SegA :: Point
  SegB :: Point

definition mk_point :: "f64 \<Rightarrow> f64 \<Rightarrow> Point" where
  "mk_point x y = \<lparr>X = x, Y = y\<rparr>"

definition mk_rect :: "Point \<Rightarrow> Point \<Rightarrow> Rect" where
  "mk_rect p q = \<lparr>RMin = p, RMax = q\<rparr>"

definition mk_segment :: "Point \<Rightarrow> Point \<Rightarrow> Segment" where
  "mk_segment p q = \<lparr>SegA = p, SegB = q\<rparr>"

text \<open>The zero values of the struct types.\<close>

definition zero_point :: Point where
  "zero_point = mk_point 0 0"

definition zero_rect :: Rect where
  "zero_rect = mk_rect zero_point zero_point"

definition zero_segment :: Segment where
  "zero_segment = mk_segment zero_point zero_point"

definition point_eq :: "Point \<Rightarrow> Point \<Rightarrow> bool" where
  "point_eq p q = (feq (X p) (X q) \<and> feq (Y p) (Y q))"

definition rect_eq :: "Rect \<Rightarrow> Rect \<Rightarrow> bool" where
  "rect_eq r s = (point_eq (RMin r) (RMin s) \<and> point_eq (RMax r) (RMax s))"

section \<open>Point\<close>

definition point_Move :: "Point \<Rightarrow> f64 \<Rightarrow> f64 \<Rightarrow> Point" where
  "point_Move point deltaX deltaY = mk_point (X point + deltaX) (Y point + deltaY)"

definition point_Empty :: "Point \<Rightarrow> bool" where
  "point_Empty point = False"

definition point_Rect :: "Point \<Rightarrow> Rect" where
  "point_Rect point = mk_rect point point"

definition point_ContainsPoint :: "Point \<Rightarrow> Point \<Rightarrow> bool" where
  "point_ContainsPoint point other = point_eq point other"

definition point_IntersectsPoint :: "Point \<Rightarrow> Point \<Rightarrow> bool" where
  "point_IntersectsPoint point other = point_eq point other"

definition point_ContainsRect :: "Point \<Rightarrow> Rect \<Rightarrow> bool" where
  "point_ContainsRect point rect = rect_eq (point_Rect point) rect"

section \<open>Rect\<close>

definition rect_Move :: "Rect \<Rightarrow> f64 \<Rightarrow> f64 \<Rightarrow> Rect" where
  "rect_Move rect deltaX deltaY =
     mk_rect (mk_point (X (RMin rect) + deltaX) (Y (RMin rect) + deltaY))
             (mk_point (X (RMax rect) + deltaX) (Y (RMax rect) + deltaY))"

definition rect_Index :: "Rect \<Rightarrow> 8 word list" where
  "rect_Index rect = []"

definition rect_Clockwise :: "Rect \<Rightarrow> bool" where
  "rect_Clockwise rect = False"

definition rect_Center :: "Rect \<Rightarrow> Point" where
  "rect_Center rect =
     mk_point ((X (RMax rect) + X (RMin rect)) / f_two) ((Y (RMax rect) + Y (RMin rect)) / f_two)"

definition rect_Area :: "Rect \<Rightarrow> f64" where
  "rect_Area rect = (X (RMax rect) - X (RMin rect)) * (Y (RMax rect) - Y (RMin rect))"

definition rect_NumPoints :: "Rect \<Rightarrow> int" where
  "rect_NumPoints rect = 5"

definition rect_NumSegments :: "Rect \<Rightarrow> int" where
  "rect_NumSegments rect = 4"

definition rect_PointAt :: "Rect \<Rightarrow> int \<Rightarrow> Point res" where
  "rect_PointAt rect index =
     (if index = 0 then Inr (mk_point (X (RMin rect)) (Y (RMin rect)))
      else if index = 1 then Inr (mk_point (X (RMax rect)) (Y (RMin rect)))
      else if index = 2 then Inr (mk_point (X (RMax rect)) (Y (RMax rect)))
      else if index = 3 then Inr (mk_point (X (RMin rect)) (Y (RMax rect)))
      else if index = 4 then Inr (mk_point (X (RMin rect)) (Y (RMin rect)))
      else Inl IndexOutOfRange)"

definition rect_RawPoints :: "Rect \<Rightarrow> Point list" where
  "rect_RawPoints rect =
     [mk_point (X (RMin rect)) (Y (RMin rect)),
      mk_point (X (RMax rect)) (Y (RMin rect)),
      mk_point (X (RMax rect)) (Y (RMax rect)),
      mk_point (X (RMin rect)) (Y (RMax rect)),
      mk_point (X (RMin rect)) (Y (RMin rect))]"

definition rect_NW :: "Rect \<Rightarrow> Point" where
  "rect_NW rect = mk_point (X (RMin rect)) (Y (RMax rect))"

definition rect_SW :: "Rect \<Rightarrow> Point" where
  "rect_SW rect = RMin rect"

definition rect_SE :: "Rect \<Rightarrow> Point" where
  "rect_SE rect = mk_point (X (RMax rect)) (Y (RMin rect))"

definition rect_NE :: "Rect \<Rightarrow> Point" where
  "rect_NE rect = RMax rect"

definition rect_South :: "Rect \<Rightarrow> Segment" where
  "rect_South rect = mk_segment (rect_SW rect) (rect_SE rect)"

definition rect_East :: "Rect \<Rightarrow> Segment" where
  "rect_East rect = mk_segment (rect_SE rect) (rect_NE rect)"

definition rect_North :: "Rect \<Rightarrow> Segment" where
  "rect_North rect = mk_segment (rect_NE rect) (rect_NW rect)"

definition rect_West :: "Rect \<Rightarrow> Segment" where
  "rect_West rect = mk_segment (rect_NW rect) (rect_SW rect)"

definition rect_Closed :: "Rect \<Rightarrow> bool" where
  "rect_Closed rect = True"

definition rect_SegmentAt :: "Rect \<Rightarrow> int \<Rightarrow> Segment res" where
  "rect_SegmentAt rect index =
     (if index = 0 then Inr (rect_South rect)
      else if index = 1 then Inr (rect_East rect)
      else if index = 2 then Inr (rect_North rect)
      else if index = 3 then Inr (rect_West rect)
      else Inl IndexOutOfRange)"

definition rect_Empty :: "Rect \<Rightarrow> bool" where
  "rect_Empty rect = False"

definition rect_Rect :: "Rect \<Rightarrow> Rect" where
  "rect_Rect rect = rect"

definition rect_Convex :: "Rect \<Rightarrow> bool" where
  "rect_Convex rect = True"

definition rect_ContainsPoint :: "Rect \<Rightarrow> Point \<Rightarrow> bool" where
  "rect_ContainsPoint rect point =
     (X point \<ge> X (RMin rect) \<and> X point \<le> X (RMax rect) \<and>
      Y point \<ge> Y (RMin rect) \<and> Y point \<le> Y (RMax rect))"

definition rect_IntersectsPoint :: "Rect \<Rightarrow> Point \<Rightarrow> bool" where
  "rect_IntersectsPoint rect point = rect_ContainsPoint rect point"

definition rect_ContainsRect :: "Rect \<Rightarrow> Rect \<Rightarrow> bool" where
  "rect_ContainsRect rect other =
     (if X (RMin other) < X (RMin rect) \<or> X (RMax other) > X (RMax rect) then False
      else if Y (RMin other) < Y (RMin rect) \<or> Y (RMax other) > Y (RMax rect) then False
      else True)"

definition rect_IntersectsRect :: "Rect \<Rightarrow> Rect \<Rightarrow> bool" where
  "rect_IntersectsRect rect other =
     (if Y (RMin rect) > Y (RMax other) \<or> Y (RMax rect) < Y (RMin other) then False
      else if X (RMin rect) > X (RMax other) \<or> X (RMax rect) < X (RMin other) then False
      else True)"

definition point_IntersectsRect :: "Point \<Rightarrow> Rect \<Rightarrow> bool" where
  "point_IntersectsRect point rect = rect_ContainsPoint rect point"

definition rect_Union :: "Rect \<Rightarrow> Rect \<Rightarrow> Rect" where
  "rect_Union rect other =
     (let rect = (if X (RMin other) < X (RMin rect)
                  then rect\<lparr>RMin := (RMin rect)\<lparr>X := X (RMin other)\<rparr>\<rparr> else rect);
          rect = (if Y (RMin other) < Y (RMin rect)
                  then rect\<lparr>RMin := (RMin rect)\<lparr>Y := Y (RMin other)\<rparr>\<rparr> else rect);
          rect = (if X (RMax other) > X (RMax rect)
                  then rect\<lparr>RMax := (RMax rect)\<lparr>X := X (RMax other)\<rparr>\<rparr> else rect);
          rect = (if Y (RMax other) > Y (RMax rect)
                  then rect\<lparr>RMax := (RMax rect)\<lparr>Y := Y (RMax other)\<rparr>\<rparr> else rect)
      in rect)"

section \<open>Segment\<close>

definition seg_Move :: "Segment \<Rightarrow> f64 \<Rightarrow> f64 \<Rightarrow> Segment" where
  "seg_Move seg deltaX deltaY =
     mk_segment (mk_point (X (SegA seg) + deltaX) (Y (SegA seg) + deltaY))
                (mk_point (X (SegB seg) + deltaX) (Y (SegB seg) + deltaY))"

definition seg_Rect :: "Segment \<Rightarrow> Rect" where
  "seg_Rect seg =
     (let rect = mk_rect (SegA seg) (SegB seg);
          rect = (if X (RMin rect) > X (RMax rect)
                  then rect\<lparr>RMin := (RMin rect)\<lparr>X := X (RMax rect)\<rparr>,
                            RMax := (RMax rect)\<lparr>X := X (RMin rect)\<rparr>\<rparr> else rect);
          rect = (if Y (RMin rect) > Y (RMax rect)
                  then rect\<lparr>RMin := (RMin rect)\<lparr>Y := Y (RMax rect)\<rparr>,
                            RMax := (RMax rect)\<lparr>Y := Y (RMin rect)\<rparr>\<rparr> else rect)
      in rect)"

section \<open>Searching with a callback\<close>

text \<open>
  The callback of \<open>Search\<close> reads and writes variables of its caller: it takes their state and
  returns whether to go on together with the new state. \<open>linear_search\<close> is the loop over the
  segment indices \<open>is\<close> that hands the segments whose rectangle meets the target to the callback,
  as \<open>Rect.Search\<close> and the branch of \<open>baseSeries.Search\<close> without an index do.
\<close>

type_synonym 's iter = "Segment \<Rightarrow> int \<Rightarrow> 's \<Rightarrow> (bool \<times> 's) res"

fun linear_search ::
  "(int \<Rightarrow> Segment res) \<Rightarrow> Rect \<Rightarrow> 's iter \<Rightarrow> int list \<Rightarrow> 's \<Rightarrow> 's res" where
  "linear_search segAt target iter [] s = Inr s"
| "linear_search segAt target iter (i # is) s =
     rbind (segAt i) (\<lambda>seg.
       if rect_IntersectsRect (seg_Rect seg) target
       then rbind (iter seg i s) (\<lambda>(continue, s').
              if continue then linear_search segAt target iter is s' else Inr s')
       else linear_search segAt target iter is s)"

definition rect_Search :: "Rect \<Rightarrow> Rect \<Rightarrow> 's iter \<Rightarrow> 's \<Rightarrow> 's res" where
  "rect_Search rect target iter s =
     linear_search (rect_SegmentAt rect) target iter [0..rect_NumSegments rect - 1] s"

section \<open>Well-formed shapes\<close>

text \<open>
  No coordinate is a NaN, and the corners of a rectangle are ordered. \<open>ipoint\<close>, \<open>irect\<close> and
  \<open>iseg\<close> are the shapes with integer coordinates.
\<close>

definition point_ok :: "Point \<Rightarrow> bool" where
  "point_ok p \<longleftrightarrow> \<not> is_nan (X p) \<and> \<not> is_nan (Y p)"

definition rect_ok :: "Rect \<Rightarrow> bool" where
  "rect_ok r \<longleftrightarrow> X (RMin r) \<le> X (RMax r) \<and> Y (RMin r) \<le> Y (RMax r)"

definition seg_ok :: "Segment \<Rightarrow> bool" where
  "seg_ok s \<longleftrightarrow> point_ok (SegA s) \<and> point_ok (SegB s)"

definition ipoint :: "int \<Rightarrow> int \<Rightarrow> Point" where
  "ipoint x y = mk_point (f_of_int x) (f_of_int y)"

definition irect :: "int \<Rightarrow> int \<Rightarrow> int \<Rightarrow> int \<Rightarrow> Rect" where
  "irect x0 y0 x1 y1 = mk_rect (ipoint x0 y0) (ipoint x1 y1)"

definition iseg :: "int \<Rightarrow> int \<Rightarrow> int \<Rightarrow> int \<Rightarrow> Segment" where
  "iseg x0 y0 x1 y1 = mk_segment (ipoint x0 y0) (ipoint x1 y1)"

lemma mk_sel [simp]:
  "X (mk_point x y) = x" "Y (mk_point x y) = y"
  "RMin (mk_rect p q) = p" "RMax (mk_rect p q) = q"
  "SegA (mk_segment p q) = p" "SegB (mk_segment p q) = q"
  by (simp_all add: mk_point_def mk_rect_def mk_segment_def)

lemma ipoint_sel [simp]:
  "X (ipoint x y) = f_of_int x" "Y (ipoint x y) = f_of_int y"
  "RMin (irect x0 y0 x1 y1) = ipoint x0 y0" "RMax (irect x0 y0 x1 y1) = ipoint x1 y1"
  "SegA (iseg x0 y0 x1 y1) = ipoint x0 y0" "SegB (iseg x0 y0 x1 y1) = ipoint x1 y1"
  by (simp_all add: ipoint_def irect_def iseg_def)

section \<open>Rectangles as sets of points\<close>

lemma rect_IntersectsRect_alt:
  "rect_IntersectsRect r s \<longleftrightarrow>
     \<not> X (RMin r) > X (RMax s) \<and> \<not> X (RMax r) < X (RMin s) \<and>
     \<not> Y (RMin r) > Y (RMax s) \<and> \<not> Y (RMax r) < Y (RMin s)"
  by (auto simp: rect_IntersectsRect_def)

lemma rect_IntersectsRect_sym: "rect_IntersectsRect r s = rect_IntersectsRect s r"
  by (auto simp: rect_IntersectsRect_alt)

text \<open>
  Two rectangles with ordered corners intersect, by \<open>IntersectsRect\<close>, exactly if some point is
  in both, by \<open>ContainsPoint\<close>.
\<close>

lemma rect_IntersectsRect_common_point:
  assumes "rect_ok r" "rect_ok s"
  shows "rect_IntersectsRect r s \<longleftrightarrow> (\<exists>p. rect_ContainsPoint r p \<and> rect_ContainsPoint s p)"
proof
  assume i: "rect_IntersectsRect r s"
  let ?p = "mk_point (if X (RMin r) < X (RMin s) then X (RMin s) else X (RMin r))
                     (if Y (RMin r) < Y (RMin s) then Y (RMin s) else Y (RMin r))"
  have "rect_ContainsPoint r ?p \<and> rect_ContainsPoint s ?p"
    using i assms by (auto simp: rect_IntersectsRect_alt rect_ContainsPoint_def rect_ok_def f64_order)
  then show "\<exists>p. rect_ContainsPoint r p \<and> rect_ContainsPoint s p" by blast
next
  assume "\<exists>p. rect_ContainsPoint r p \<and> rect_ContainsPoint s p"
  then show "rect_IntersectsRect r s"
    by (auto simp: rect_IntersectsRect_alt rect_ContainsPoint_def f64_order)
qed

text \<open>
  For rectangles with ordered corners \<open>ContainsRect\<close> says that every point of the inner
  rectangle is a point of the outer one.
\<close>

lemma rect_ContainsRect_points:
  assumes "rect_ok r" "rect_ok s"
  shows "rect_ContainsRect r s \<longleftrightarrow> (\<forall>p. rect_ContainsPoint s p \<longrightarrow> rect_ContainsPoint r p)"
proof
  assume "rect_ContainsRect r s"
  then show "\<forall>p. rect_ContainsPoint s p \<longrightarrow> rect_ContainsPoint r p"
    using assms
    by (auto simp: rect_ContainsRect_def rect_ContainsPoint_def rect_ok_def f64_order split: if_splits)
next
  assume a: "\<forall>p. rect_ContainsPoint s p \<longrightarrow> rect_ContainsPoint r p"
  have "rect_ContainsPoint s (RMin s)" "rect_ContainsPoint s (RMax s)"
    using assms(2) by (auto simp: rect_ContainsPoint_def rect_ok_def f64_order)
  with a have "rect_ContainsPoint r (RMin s)" "rect_ContainsPoint r (RMax s)" by blast+
  then show "rect_ContainsRect r s"
    by (auto simp: rect_ContainsRect_def rect_ContainsPoint_def f64_order)
qed

lemma rect_Union_sel:
  "X (RMin (rect_Union r s)) = (if X (RMin s) < X (RMin r) then X (RMin s) else X (RMin r))"
  "Y (RMin (rect_Union r s)) = (if Y (RMin s) < Y (RMin r) then Y (RMin s) else Y (RMin r))"
  "X (RMax (rect_Union r s)) = (if X (RMax s) > X (RMax r) then X (RMax s) else X (RMax r))"
  "Y (RMax (rect_Union r s)) = (if Y (RMax s) > Y (RMax r) then Y (RMax s) else Y (RMax r))"
  by (simp_all add: rect_Union_def Let_def)

lemma rect_Union_ok: "rect_ok r \<Longrightarrow> rect_ok s \<Longrightarrow> rect_ok (rect_Union r s)"
  by (auto simp: rect_Union_sel rect_ok_def f64_order)

text \<open>
  \<open>Union\<close> is the least rectangle around its two arguments: a rectangle contains the union
  exactly if it contains both, and the union has ordered corners again.
\<close>

lemma rect_Union_least:
  assumes "rect_ok r" "rect_ok s"
  shows "rect_ok (rect_Union r s) \<and>
    (\<forall>t. rect_ok t \<longrightarrow> (rect_ContainsRect t (rect_Union r s) \<longleftrightarrow>
                        rect_ContainsRect t r \<and> rect_ContainsRect t s))"
  using assms rect_Union_ok [OF assms]
  by (auto simp: rect_ContainsRect_def rect_ok_def rect_Union_sel f64_order)

section \<open>The rectangle of a segment\<close>

lemma seg_Rect_sel:
  "X (RMin (seg_Rect s)) = (if X (SegA s) > X (SegB s) then X (SegB s) else X (SegA s))"
  "Y (RMin (seg_Rect s)) = (if Y (SegA s) > Y (SegB s) then Y (SegB s) else Y (SegA s))"
  "X (RMax (seg_Rect s)) = (if X (SegA s) > X (SegB s) then X (SegA s) else X (SegB s))"
  "Y (RMax (seg_Rect s)) = (if Y (SegA s) > Y (SegB s) then Y (SegA s) else Y (SegB s))"
  by (simp_all add: seg_Rect_def Let_def)

lemma seg_Rect_ok: "seg_ok s \<Longrightarrow> rect_ok (seg_Rect s)"
  by (auto simp: seg_ok_def point_ok_def rect_ok_def seg_Rect_sel f64_order)

text \<open>
  \<open>Segment.Rect\<close> is the least rectangle around the end points of a segment without NaN
  coordinates: it has ordered corners, and a rectangle contains it exactly if it contains both
  end points.
\<close>

lemma seg_Rect_least:
  assumes "seg_ok s"
  shows "rect_ok (seg_Rect s) \<and>
    (\<forall>r. rect_ok r \<longrightarrow> (rect_ContainsRect r (seg_Rect s) \<longleftrightarrow>
                        rect_ContainsPoint r (SegA s) \<and> rect_ContainsPoint r (SegB s)))"
  using assms seg_Rect_ok [OF assms]
  by (auto simp: rect_ContainsRect_def rect_ContainsPoint_def rect_ok_def seg_Rect_sel
      seg_ok_def point_ok_def f64_order)

section \<open>A rectangle as a ring\<close>

text \<open>
  A rectangle is a closed ring of four segments: segment \<open>i\<close> runs from point \<open>i\<close> to point
  \<open>i + 1\<close>, the fifth point is the first one, and any other index panics.
\<close>

lemma rect_ring_closed:
  "(0 \<le> i \<and> i < rect_NumSegments r \<longrightarrow>
      (\<exists>a b. rect_PointAt r i = Inr a \<and> rect_PointAt r (i + 1) = Inr b \<and>
             rect_SegmentAt r i = Inr (mk_segment a b))) \<and>
   rect_PointAt r (rect_NumPoints r - 1) = rect_PointAt r 0 \<and>
   (\<not> (0 \<le> i \<and> i < rect_NumSegments r) \<longrightarrow> rect_SegmentAt r i = Inl IndexOutOfRange)"
proof -
  have "0 \<le> i \<and> i < rect_NumSegments r \<longleftrightarrow> i = 0 \<or> i = 1 \<or> i = 2 \<or> i = 3"
    by (auto simp: rect_NumSegments_def)
  then show ?thesis
    by (auto simp: rect_PointAt_def rect_NumPoints_def rect_SegmentAt_def rect_South_def
        rect_East_def rect_North_def rect_West_def rect_SW_def rect_SE_def rect_NE_def
        rect_NW_def mk_point_def)
qed

section \<open>Runs of a callback\<close>

text \<open>
  \<open>run_iter iter xs s\<close> calls the callback on the pairs \<open>xs\<close> of a segment and its index until it
  asks to stop: the meaning of a search, whatever the order and the data structure.
\<close>

fun run_iter :: "'s iter \<Rightarrow> (Segment \<times> int) list \<Rightarrow> 's \<Rightarrow> (bool \<times> 's) res" where
  "run_iter iter [] s = Inr (True, s)"
| "run_iter iter ((seg, i) # xs) s =
     rbind (iter seg i s) (\<lambda>(continue, s').
       if continue then run_iter iter xs s' else Inr (False, s'))"

lemma run_iter_append:
  "run_iter iter (xs @ ys) s =
     rbind (run_iter iter xs s) (\<lambda>(continue, s').
       if continue then run_iter iter ys s' else Inr (False, s'))"
  by (induction xs arbitrary: s) (auto simp: rbind_def split: sum.splits)

lemma linear_search_run:
  assumes "\<And>i. i \<in> set is \<Longrightarrow> segAt i = Inr (g i)"
  shows "linear_search segAt target iter is s =
    rbind (run_iter iter
      (map (\<lambda>i. (g i, i)) (filter (\<lambda>i. rect_IntersectsRect (seg_Rect (g i)) target) is)) s)
      (\<lambda>(_, s). Inr s)"
  using assms by (induction "is" arbitrary: s) (auto simp: rbind_def split: sum.splits)

section \<open>The contract of a search\<close>

text \<open>
  What the callers of \<open>Search\<close> rely on: for a well-formed \<open>r\<close> with \<open>num r\<close> segments \<open>seg r i\<close>, a
  search hands the segments whose rectangle meets the target to the callback, each of them once
  and in some order, until the callback asks to stop.
\<close>

locale segment_search =
  fixes wf :: "'r \<Rightarrow> bool"
    and num :: "'r \<Rightarrow> int"
    and seg :: "'r \<Rightarrow> int \<Rightarrow> Segment"
    and search :: "'r \<Rightarrow> Rect \<Rightarrow> 's iter \<Rightarrow> 's \<Rightarrow> 's res"
  assumes search_hits: "wf r \<Longrightarrow>
    \<exists>is. mset is = mset (filter (\<lambda>i. rect_IntersectsRect (seg_Rect (seg r i)) t) [0..num r - 1]) \<and>
      (\<forall>iter s. search r t iter s =
         rbind (run_iter iter (map (\<lambda>i. (seg r i, i)) is) s) (\<lambda>(_, s). Inr s))"
begin

definition hit_indices :: "'r \<Rightarrow> Rect \<Rightarrow> int list" where
  "hit_indices r t = filter (\<lambda>i. rect_IntersectsRect (seg_Rect (seg r i)) t) [0..num r - 1]"

text \<open>
  A callback that stops at some segments and otherwise updates its state in a way that does not
  depend on the order: the search ends at one of the stopping segments if there is one, and
  otherwise has made all of the updates.
\<close>

lemma search_until:
  assumes "wf r"
    and iter: "\<And>i s. i \<in> set (hit_indices r t) \<Longrightarrow>
      iter (seg r i) i s = Inr (if stop i then (False, g i) else (True, f i s))"
    and comm: "\<And>i j. f i \<circ> f j = f j \<circ> f i"
  shows "if \<exists>i \<in> set (hit_indices r t). stop i
    then \<exists>i \<in> set (hit_indices r t). stop i \<and> search r t iter s = Inr (g i)
    else search r t iter s = Inr (fold f (hit_indices r t) s)"
proof -
  obtain "is" where m: "mset is = mset (hit_indices r t)"
    and s: "search r t iter s = rbind (run_iter iter (map (\<lambda>i. (seg r i, i)) is) s) (\<lambda>(_, s). Inr s)"
    using search_hits [OF assms(1)] unfolding hit_indices_def by blast
  have set: "set is = set (hit_indices r t)" using m by (metis set_mset_mset)
  have run: "if \<exists>i \<in> set js. stop i
      then \<exists>i \<in> set js. stop i \<and> run_iter iter (map (\<lambda>i. (seg r i, i)) js) s = Inr (False, g i)
      else run_iter iter (map (\<lambda>i. (seg r i, i)) js) s = Inr (True, fold f js s)"
    if "set js \<subseteq> set (hit_indices r t)" for js
    using that by (induction js arbitrary: s) (auto simp: iter split: if_splits)
  show ?thesis
    using run [of "is"] fold_multiset_equiv [OF comm m] set s by (auto split: if_splits)
qed

text \<open>A callback that looks for one segment and records that it found it.\<close>

lemma search_exists:
  assumes "wf r"
    and "\<And>i s. i \<in> set (hit_indices r t) \<Longrightarrow>
      iter (seg r i) i s = Inr (if P i then (False, found) else (True, s))"
  shows "search r t iter s = Inr (if \<exists>i \<in> set (hit_indices r t). P i then found else s)"
proof -
  have "fold (\<lambda>i s. s) js s = s" for js :: "int list" and s :: 's by (induction js) auto
  then show ?thesis
    using search_until [of r t iter P "\<lambda>_. found" "\<lambda>_ s. s" s] assms by (auto split: if_splits)
qed

end

section \<open>Searching a rectangle\<close>

definition rect_seg :: "Rect \<Rightarrow> int \<Rightarrow> Segment" where
  "rect_seg r i = projr (rect_SegmentAt r i)"

lemma rect_SegmentAt_seg:
  "0 \<le> i \<Longrightarrow> i < rect_NumSegments r \<Longrightarrow> rect_SegmentAt r i = Inr (rect_seg r i)"
  by (auto simp: rect_seg_def rect_SegmentAt_def rect_NumSegments_def)

lemma rect_Search_hits:
  "\<exists>is. mset is = mset (filter (\<lambda>i. rect_IntersectsRect (seg_Rect (rect_seg r i)) t)
        [0..rect_NumSegments r - 1]) \<and>
     (\<forall>iter s. rect_Search r t iter s =
        rbind (run_iter iter (map (\<lambda>i. (rect_seg r i, i)) is) s) (\<lambda>(_, s). Inr s))"
  by (intro exI conjI allI refl)
    (auto simp: rect_Search_def rect_SegmentAt_seg intro!: linear_search_run)

interpretation rect_search: segment_search "\<lambda>_. True" rect_NumSegments rect_seg rect_Search
  by unfold_locales (rule rect_Search_hits)

end
