(* ===== verification/Raycasting.thy ===== *)
theory Raycasting
  imports Shapes
begin

text \<open>
  raycast.go and the rest of segment.go: the ray cast that decides on which side of a segment a
  point lies, and the segment predicates built on it. The loop that moves the ray off the end
  points of the segment need not end (it does not for an infinite ordinate), so it is a partial
  function and \<open>seg_Raycast\<close> has an outcome.
\<close>

section \<open>The ray cast\<close>

record RaycastResult =
  In :: bool
  On :: bool

definition mk_raycast :: "bool \<Rightarrow> bool \<Rightarrow> RaycastResult" where
  "mk_raycast i o' = \<lparr>In = i, On = o'\<rparr>"

text \<open>The loop \<open>for p.Y == a.Y || p.Y == b.Y\<close>.\<close>

partial_function (option) nudge :: "f64 \<Rightarrow> f64 \<Rightarrow> f64 \<Rightarrow> f64 option" where
  "nudge aY bY pY =
     (if feq pY aY \<or> feq pY bY then nudge aY bY (nextafter pY (f_inf False)) else Some pY)"

text \<open>The part of \<open>Raycast\<close> after the loop, with the moved ordinate \<open>pY\<close>.\<close>

definition raycast_cross :: "Point \<Rightarrow> Point \<Rightarrow> f64 \<Rightarrow> f64 \<Rightarrow> RaycastResult" where
  "raycast_cross a b pX pY =
     (let slope =
        (if Y a < Y b
         then (if (pY - Y a) / (pX - X a) \<ge> (Y b - Y a) / (X b - X a)
               then mk_raycast True False else mk_raycast False False)
         else (if (pY - Y b) / (pX - X b) \<ge> (Y a - Y b) / (X a - X b)
               then mk_raycast True False else mk_raycast False False))
      in if Y a < Y b \<and> (pY < Y a \<or> pY > Y b) then mk_raycast False False
         else if \<not> Y a < Y b \<and> (pY < Y b \<or> pY > Y a) then mk_raycast False False
         else if X a > X b
              then (if pX \<ge> X a then mk_raycast False False
                    else if pX \<le> X b then mk_raycast True False else slope)
              else (if pX \<ge> X b then mk_raycast False False
                    else if pX \<le> X a then mk_raycast True False else slope))"

definition seg_Raycast :: "Segment \<Rightarrow> Point \<Rightarrow> RaycastResult res" where
  "seg_Raycast seg point =
     (let p = point; a = SegA seg; b = SegB seg
      in if Y a < Y b \<and> (Y p < Y a \<or> Y p > Y b) then Inr (mk_raycast False False)
         else if Y a > Y b \<and> (Y p < Y b \<or> Y p > Y a) then Inr (mk_raycast False False)
         else if feq (Y a) (Y b) \<and> feq (X a) (X b)
              then Inr (if point_eq p a then mk_raycast False True else mk_raycast False False)
         else if feq (Y a) (Y b) \<and> feq (Y p) (Y b) \<and>
                 (if X a < X b then X p \<ge> X a \<and> X p \<le> X b else X p \<ge> X b \<and> X p \<le> X a)
              then Inr (mk_raycast False True)
         else if feq (X a) (X b) \<and> feq (X p) (X b) \<and>
                 (if Y a < Y b then Y p \<ge> Y a \<and> Y p \<le> Y b else Y p \<ge> Y b \<and> Y p \<le> Y a)
              then Inr (mk_raycast False True)
         else if feq ((X p - X a) / (X b - X a)) ((Y p - Y a) / (Y b - Y a))
              then Inr (mk_raycast False True)
         else (case nudge (Y a) (Y b) (Y p) of
                 None \<Rightarrow> Inl Diverges
               | Some pY \<Rightarrow> Inr (raycast_cross a b (X p) pY)))"

section \<open>Segment predicates\<close>

definition seg_CollinearPoint :: "Segment \<Rightarrow> Point \<Rightarrow> bool" where
  "seg_CollinearPoint seg point =
     (let cmpx = X point - X (SegA seg); cmpy = Y point - Y (SegA seg);
          rx = X (SegB seg) - X (SegA seg); ry = Y (SegB seg) - Y (SegA seg);
          cmpxr = cmpx * ry - cmpy * rx
      in feq cmpxr 0)"

definition seg_ContainsPoint :: "Segment \<Rightarrow> Point \<Rightarrow> bool res" where
  "seg_ContainsPoint seg point = rbind (seg_Raycast seg point) (\<lambda>r. Inr (On r))"

definition seg_ContainsSegment :: "Segment \<Rightarrow> Segment \<Rightarrow> bool res" where
  "seg_ContainsSegment seg other =
     rbind (seg_Raycast seg (SegA other)) (\<lambda>rA.
       if On rA then rbind (seg_Raycast seg (SegB other)) (\<lambda>rB. Inr (On rB)) else Inr False)"

text \<open>
  The bounding box test that opens \<open>IntersectsSegment\<close>, for one axis: true where the code
  returns false because the ranges from \<open>a\<close> to \<open>b\<close> and from \<open>c\<close> to \<open>d\<close> are apart.
\<close>

definition ranges_apart :: "f64 \<Rightarrow> f64 \<Rightarrow> f64 \<Rightarrow> f64 \<Rightarrow> bool" where
  "ranges_apart a b c d =
     (if a > b
      then (if c > d then b > c \<or> a < d else b > d \<or> a < c)
      else (if c > d then a > c \<or> b < d else a > d \<or> b < c))"

definition seg_IntersectsSegment :: "Segment \<Rightarrow> Segment \<Rightarrow> bool res" where
  "seg_IntersectsSegment seg other =
     (let a = SegA seg; b = SegB seg; c = SegA other; d = SegB other
      in if ranges_apart (Y a) (Y b) (Y c) (Y d) then Inr False
         else if ranges_apart (X a) (X b) (X c) (X d) then Inr False
         else if point_eq (SegA seg) (SegA other) \<or> point_eq (SegA seg) (SegB other) \<or>
                 point_eq (SegB seg) (SegA other) \<or> point_eq (SegB seg) (SegB other)
              then Inr True
         else
           let cmpx = X c - X a; cmpy = Y c - Y a;
               rx = X b - X a; ry = Y b - Y a;
               cmpxr = cmpx * ry - cmpy * rx
           in if feq cmpxr 0
              then (if \<not> (((X c - X a \<le> 0) \<noteq> (X c - X b \<le> 0)) \<or>
                          ((Y c - Y a \<le> 0) \<noteq> (Y c - Y b \<le> 0)))
                    then rbind (seg_Raycast seg (SegA other)) (\<lambda>rA.
                           if On rA then Inr True
                           else rbind (seg_Raycast seg (SegB other)) (\<lambda>rB. Inr (On rB)))
                    else Inr True)
              else
                let sx = X d - X c; sy = Y d - Y c;
                    cmpxs = cmpx * sy - cmpy * sx;
                    rxs = rx * sy - ry * sx
                in if feq rxs 0 then Inr False
                   else
                     let rxsr = 1 / rxs;
                         t = cmpxs * rxsr;
                         u = cmpxr * rxsr
                     in Inr (t \<ge> 0 \<and> t \<le> 1 \<and> u \<ge> 0 \<and> u \<le> 1))"

end
