(* ===== verification/Varint.thy ===== *)
theory Varint
  imports Prelude
begin

text \<open>
  The byte encoding of the index: \<open>appendUvarint\<close> and \<open>readUvarint\<close> of qtree.go over the base-128
  encoding of \<open>encoding/binary\<close>, and the four-byte little-endian length that \<open>setCompressed\<close>
  writes and \<open>Search\<close> reads.
\<close>

unbundle bit_operations_syntax

type_synonym u8 = "8 word"
type_synonym u32 = "32 word"
type_synonym u64 = "64 word"

section \<open>Unsigned varints\<close>

text \<open>\<open>binary.PutUvarint\<close>: seven bits a byte, low bits first, the top bit set on all but the last.\<close>

function put_uvarint :: "u64 \<Rightarrow> u8 list" where
  "put_uvarint x =
     (if x < 0x80 then [ucast x] else (ucast x OR 0x80) # put_uvarint (drop_bit 7 x))"
  by pat_completeness auto
termination
proof (relation "measure unat")
  fix x :: u64
  assume "\<not> x < 0x80"
  then have "128 \<le> unat x" by (simp add: word_less_nat_alt)
  moreover have "unat (drop_bit 7 x) = unat x div 2 ^ 7"
    by (subst unat_drop_bit_eq) (rule drop_bit_eq_div)
  ultimately show "(drop_bit 7 x, x) \<in> measure unat"
    by (simp only: in_measure) simp
qed simp

declare put_uvarint.simps [simp del]

definition appendUvarint :: "u8 list \<Rightarrow> u64 \<Rightarrow> u8 list" where
  "appendUvarint dst x = (if x < 0x80 then dst @ [ucast x] else dst @ put_uvarint x)"

text \<open>The part of \<open>readUvarint\<close> from the label \<open>loop\<close> on.\<close>

function read_loop :: "u8 list \<Rightarrow> int \<Rightarrow> u64 \<Rightarrow> nat \<Rightarrow> (u64 \<times> int) res" where
  "read_loop data addr item s =
     rbind (index_at data addr) (\<lambda>byte.
       let b = (ucast byte :: u64); addr = addr + 1
       in if b < 0x80 then Inr (item OR push_bit s b, addr)
          else let item = item OR push_bit s (b AND 0x7f); s = s + 7
               in if s = 70 then Inr (0, - 1) else read_loop data addr item s)"
  by pat_completeness auto
termination
  by (relation "measure (\<lambda>(data, addr, item, s). nat (int (length data) - addr))")
    (auto simp: index_at_def split: if_splits)

declare read_loop.simps [simp del]

definition readUvarint :: "u8 list \<Rightarrow> int \<Rightarrow> (u64 \<times> int) res" where
  "readUvarint data addr =
     rbind (index_at data addr) (\<lambda>byte.
       let item = (ucast byte :: u64); addr = addr + 1
       in if item < 0x80 then Inr (item, addr)
          else read_loop data addr (item AND 0x7f) 7)"

section \<open>The length field\<close>

text \<open>\<open>binary.LittleEndian.PutUint32(data[1:], v)\<close> and \<open>binary.LittleEndian.Uint32(data[1:])\<close>.\<close>

definition put_uint32_at1 :: "u8 list \<Rightarrow> u32 \<Rightarrow> u8 list res" where
  "put_uint32_at1 data v =
     (if length data < 1 then Inl SliceBounds
      else if length data < 5 then Inl IndexOutOfRange
      else Inr (data[1 := ucast v, 2 := ucast (drop_bit 8 v),
                     3 := ucast (drop_bit 16 v), 4 := ucast (drop_bit 24 v)]))"

definition uint32_at1 :: "u8 list \<Rightarrow> u32 res" where
  "uint32_at1 data =
     (if length data < 1 then Inl SliceBounds
      else if length data < 5 then Inl IndexOutOfRange
      else Inr (ucast (data ! 1) OR push_bit 8 (ucast (data ! 2)) OR
                push_bit 16 (ucast (data ! 3)) OR push_bit 24 (ucast (data ! 4))))"

text \<open>The slice expression \<open>data[:n:n]\<close> of a slice without spare capacity.\<close>

definition slice_to :: "u8 list \<Rightarrow> nat \<Rightarrow> u8 list res" where
  "slice_to data n = (if n \<le> length data then Inr (take n data) else Inl SliceBounds)"

section \<open>Round trips\<close>

lemma appendUvarint_eq: "appendUvarint dst x = dst @ put_uvarint x"
  by (simp add: appendUvarint_def put_uvarint.simps [of x])

lemma low7: "(w AND 0x7f :: 'a::len word) = take_bit 7 w"
  by (simp add: take_bit_eq_mask mask_numeral)

lemma bit_0x80: "bit (0x80 :: 'a::semiring_bit_operations) n \<longleftrightarrow> possible_bit TYPE('a) n \<and> n = 7"
proof -
  have "(0x80 :: 'a) = push_bit 7 1" by (simp add: push_bit_eq_mult)
  then show ?thesis by (auto simp only: bit_push_bit_iff bit_1_iff)
qed

lemma take_bit_small: "unat w < 2 ^ n \<Longrightarrow> take_bit n w = w"
  by (rule unsigned_word_eqI [where 'a = nat]) (simp add: unsigned_take_bit_eq take_bit_nat_eq_self)

lemma cont_byte_low:
  "(ucast (ucast y OR 0x80 :: u8) AND 0x7f :: u64) = y AND 0x7f"
  unfolding low7 by (rule bit_word_eqI) (auto simp: bit_simps bit_0x80)

lemma cont_byte_high: "\<not> (ucast (ucast y OR 0x80 :: u8) :: u64) < 0x80" for y :: u64
proof
  let ?b = "ucast (ucast y OR 0x80 :: u8) :: u64"
  assume "?b < 0x80"
  then have "take_bit 7 ?b = ?b" by (intro take_bit_small) (simp add: word_less_nat_alt)
  then have "bit ?b 7 \<longleftrightarrow> False" by (metis bit_take_bit_iff less_irrefl)
  then show False by (simp add: bit_simps bit_0x80)
qed

lemma last_byte: "x < 0x80 \<Longrightarrow> (ucast (ucast x :: u8) :: u64) = x" for x :: u64
proof -
  assume "x < 0x80"
  then have "take_bit 8 x = x" by (intro take_bit_small) (simp add: word_less_nat_alt)
  moreover have "(ucast (ucast x :: u8) :: u64) = take_bit 8 x"
    by (rule bit_word_eqI) (auto simp: bit_simps)
  ultimately show ?thesis by simp
qed

lemma split7: "push_bit s (take_bit 7 y) OR push_bit (s + 7) (drop_bit 7 y) = push_bit s y" for y :: u64
proof (rule bit_word_eqI)
  fix n
  assume "n < LENGTH(64)"
  then show "bit (push_bit s (take_bit 7 y) OR push_bit (s + 7) (drop_bit 7 y)) n = bit (push_bit s y) n"
    by (cases "n < s + 7") (auto simp: bit_simps)
qed

lemma read_loop_put:
  "s \<le> 63 \<Longrightarrow> 7 dvd s \<Longrightarrow> unat y < 2 ^ (64 - s) \<Longrightarrow>
   read_loop (pre @ put_uvarint y @ post) (int (length pre)) item s
     = Inr (item OR push_bit s y, int (length pre) + int (length (put_uvarint y)))"
proof (induction y arbitrary: pre item s rule: put_uvarint.induct)
  case (1 y)
  show ?case
  proof (cases "y < 0x80")
    case True
    then show ?thesis
      by (simp add: put_uvarint.simps [of y] read_loop.simps [of _ _ _ s] index_at_def last_byte)
  next
    case False
    let ?c = "ucast y OR 0x80 :: u8" and ?y = "drop_bit 7 y :: u64"
    have y: "128 \<le> unat y" using False by (simp add: word_less_nat_alt)
    have "64 - s > 7"
    proof (rule ccontr)
      assume "\<not> 64 - s > 7"
      then have "(2::nat) ^ (64 - s) \<le> 2 ^ 7" by (intro power_increasing) auto
      with y "1.prems"(3) show False by simp
    qed
    then have s: "s < 57" by simp
    have dy: "unat ?y = unat y div 2 ^ 7" by (subst unat_drop_bit_eq) (rule drop_bit_eq_div)
    have "(2::nat) ^ (64 - s) = 2 ^ (64 - (s + 7)) * 2 ^ 7"
      using s by (simp only: power_add [symmetric]) simp
    then have "unat ?y < 2 ^ (64 - (s + 7))"
      using "1.prems"(3) unfolding dy by (intro less_mult_imp_div_less) (simp only:)
    moreover have "s + 7 \<le> 63" "7 dvd s + 7" using s "1.prems"(2) by auto
    ultimately have IH: "read_loop ((pre @ [?c]) @ put_uvarint ?y @ post) (int (length (pre @ [?c])))
        (item OR push_bit s (y AND 0x7f)) (s + 7)
        = Inr ((item OR push_bit s (y AND 0x7f)) OR push_bit (s + 7) ?y,
            int (length (pre @ [?c])) + int (length (put_uvarint ?y)))"
      by (intro "1.IH" False) auto
    have put: "put_uvarint y = ?c # put_uvarint ?y" using False by (simp add: put_uvarint.simps [of y])
    have "read_loop (pre @ put_uvarint y @ post) (int (length pre)) item s
      = read_loop ((pre @ [?c]) @ put_uvarint ?y @ post) (int (length (pre @ [?c])))
        (item OR push_bit s (y AND 0x7f)) (s + 7)"
      using s unfolding put
      by (subst read_loop.simps)
        (simp add: index_at_def cont_byte_high cont_byte_low Let_def add.commute)
    also note IH
    also have "(item OR push_bit s (y AND 0x7f)) OR push_bit (s + 7) ?y = item OR push_bit s y"
      unfolding low7 by (simp only: or.assoc split7)
    finally show ?thesis by (simp add: put)
  qed
qed

lemma readUvarint_put:
  "readUvarint (pre @ put_uvarint x @ post) (int (length pre))
     = Inr (x, int (length pre) + int (length (put_uvarint x)))"
proof (cases "x < 0x80")
  case True
  then show ?thesis by (simp add: readUvarint_def put_uvarint.simps [of x] index_at_def last_byte)
next
  case False
  let ?c = "ucast x OR 0x80 :: u8" and ?y = "drop_bit 7 x :: u64"
  have put: "put_uvarint x = ?c # put_uvarint ?y" using False by (simp add: put_uvarint.simps [of x])
  have dy: "unat ?y = unat x div 2 ^ 7" by (subst unat_drop_bit_eq) (rule drop_bit_eq_div)
  have "unat x < 2 ^ 57 * 2 ^ 7" using unsigned_less [of x] by simp
  then have "unat ?y < 2 ^ (64 - 7)"
    unfolding dy by (intro less_mult_imp_div_less) simp
  then have "read_loop ((pre @ [?c]) @ put_uvarint ?y @ post) (int (length (pre @ [?c]))) (x AND 0x7f) 7
      = Inr ((x AND 0x7f) OR push_bit 7 ?y, int (length (pre @ [?c])) + int (length (put_uvarint ?y)))"
    by (intro read_loop_put) auto
  moreover have "(x AND 0x7f) OR push_bit 7 ?y = x"
    using split7 [of 0 x] unfolding low7 by simp
  ultimately show ?thesis
    unfolding put by (simp add: readUvarint_def index_at_def cont_byte_high cont_byte_low Let_def add.commute)
qed

lemma put_uvarint_nonempty [simp]: "put_uvarint x \<noteq> []"
  by (simp add: put_uvarint.simps [of x])

lemma put_uvarint_length: "7 * n < 64 \<Longrightarrow> unat x < 2 ^ (64 - 7 * n) \<Longrightarrow> length (put_uvarint x) \<le> 10 - n"
proof (induction x arbitrary: n rule: put_uvarint.induct)
  case (1 x)
  show ?case
  proof (cases "x < 0x80")
    case True
    then show ?thesis using "1.prems"(1) by (simp add: put_uvarint.simps [of x])
  next
    case False
    have "7 * n + 7 < 64"
    proof (rule ccontr)
      assume "\<not> 7 * n + 7 < 64"
      then have "(2::nat) ^ (64 - 7 * n) \<le> 2 ^ 7" by (intro power_increasing) auto
      with False "1.prems"(2) show False by (simp add: word_less_nat_alt)
    qed
    then have n: "7 * Suc n < 64" "64 - 7 * n = (64 - 7 * Suc n) + 7" by simp_all
    have "unat x < 2 ^ (64 - 7 * Suc n) * 2 ^ 7"
      using "1.prems"(2) unfolding n(2) by (simp only: power_add)
    moreover have "unat (drop_bit 7 x) = unat x div 2 ^ 7"
      by (subst unat_drop_bit_eq) (rule drop_bit_eq_div)
    ultimately have "unat (drop_bit 7 x) < 2 ^ (64 - 7 * Suc n)"
      by (simp only:) (rule less_mult_imp_div_less)
    then have "length (put_uvarint (drop_bit 7 x)) \<le> 10 - Suc n"
      by (intro "1.IH" False n(1))
    then show ?thesis using False n(1) by (simp add: put_uvarint.simps [of x])
  qed
qed

section \<open>Bytes at an address\<close>

text \<open>
  \<open>bytes_at data a xs\<close>: the bytes \<open>xs\<close> stand at address \<open>a\<close> of \<open>data\<close>. The locale is what the
  reader of a byte stream needs to know of an encoding; the uvarints are an instance.
\<close>

definition bytes_at :: "'b list \<Rightarrow> int \<Rightarrow> 'b list \<Rightarrow> bool" where
  "bytes_at data a xs \<longleftrightarrow> 0 \<le> a \<and> take (length xs) (drop (nat a) data) = xs"

lemma bytes_at_append:
  "bytes_at data a (xs @ ys) \<longleftrightarrow> bytes_at data a xs \<and> bytes_at data (a + int (length xs)) ys"
proof (cases "bytes_at data a xs")
  case True
  then have "0 \<le> a" "take (length xs) (drop (nat a) data) = xs" by (auto simp: bytes_at_def)
  then show ?thesis using True
    by (simp add: bytes_at_def take_add nat_add_distrib add.commute)
next
  case False
  have "bytes_at data a xs" if "bytes_at data a (xs @ ys)"
  proof -
    have "take (length xs) (take (length xs + length ys) (drop (nat a) data)) = take (length xs) (xs @ ys)"
      using that unfolding bytes_at_def length_append by (simp only:)
    then show ?thesis using that by (simp add: bytes_at_def)
  qed
  with False show ?thesis by blast
qed

lemma bytes_at_split:
  assumes "bytes_at data a xs"
  obtains pre post where "data = pre @ xs @ post" "a = int (length pre)"
    | "xs = []"
proof (cases "xs = []")
  case False
  let ?pre = "take (nat a) data"
  have "drop (nat a) data \<noteq> []" using assms False by (auto simp: bytes_at_def)
  then have "nat a < length data" by simp
  moreover have "data = ?pre @ xs @ drop (nat a + length xs) data"
    using assms by (metis append_take_drop_id bytes_at_def drop_drop add.commute)
  ultimately show thesis using assms that(1) [of ?pre] by (simp add: bytes_at_def)
qed

lemma index_at_bytes: "bytes_at data a [b] \<Longrightarrow> index_at data a = Inr b"
  by (erule bytes_at_split) (auto simp: index_at_def)

lemma bytes_at_length: "bytes_at data a xs \<Longrightarrow> xs \<noteq> [] \<Longrightarrow> a + int (length xs) \<le> int (length data)"
  by (erule bytes_at_split) auto

locale codec =
  fixes enc :: "'v \<Rightarrow> 'b list"
    and dec :: "'b list \<Rightarrow> int \<Rightarrow> ('v \<times> int) res"
  assumes dec_enc:
      "dec (pre @ enc x @ post) (int (length pre)) = Inr (x, int (length pre) + int (length (enc x)))"
    and enc_nonempty: "enc x \<noteq> []"
begin

lemma dec_at: "bytes_at data a (enc x) \<Longrightarrow> dec data a = Inr (x, a + int (length (enc x)))"
  using enc_nonempty by (auto elim!: bytes_at_split simp: dec_enc)

lemma enc_inj: "enc x @ xs = enc y @ ys \<Longrightarrow> x = y \<and> xs = ys"
proof -
  assume e: "enc x @ xs = enc y @ ys"
  have "dec (enc x @ xs) 0 = dec (enc y @ ys) 0" by (simp only: e)
  then have "x = y" using dec_enc [of "[]" x xs] dec_enc [of "[]" y ys] by simp
  then show ?thesis using e by simp
qed

lemma concat_inj: "concat (map enc vs) = concat (map enc ws) \<Longrightarrow> vs = ws"
proof (induction vs arbitrary: ws)
  case Nil
  then show ?case using enc_nonempty by (cases ws) auto
next
  case (Cons v vs)
  then obtain w ws' where ws: "ws = w # ws'" using enc_nonempty by (cases ws) auto
  then have "v = w \<and> concat (map enc vs) = concat (map enc ws')"
    using Cons.prems enc_inj [of v _ w] by simp
  then show ?case using Cons.IH ws by simp
qed

end

interpretation uv: codec put_uvarint readUvarint
  by unfold_locales (simp_all add: readUvarint_put)

text \<open>
  C20: \<open>readUvarint\<close> reads back every 64-bit value that \<open>appendUvarint\<close> wrote, wherever it stands,
  and returns the address behind it; a value takes at most ten bytes.
\<close>

theorem uvarint_roundtrip:
  "readUvarint (appendUvarint dst x @ post) (int (length dst))
     = Inr (x, int (length (appendUvarint dst x))) \<and>
   length (appendUvarint dst x) \<le> length dst + 10"
  using uv.dec_enc [of dst x post] put_uvarint_length [of 0 x] unsigned_less [of x]
  by (simp add: appendUvarint_eq)

text \<open>
  The encoding is uniquely decodable: two sequences of values written one after the other to
  the same bytes are the same sequence.
\<close>

lemma uvarint_sequences:
  "foldl appendUvarint dst vs = foldl appendUvarint dst ws \<longleftrightarrow> vs = ws"
proof -
  have "foldl appendUvarint dst us = dst @ concat (map put_uvarint us)" for us
    by (induction us arbitrary: dst) (simp_all add: appendUvarint_eq)
  then show ?thesis using uv.concat_inj by auto
qed

lemma put_uint32_at1_ok:
  assumes "5 \<le> length data"
  shows "\<exists>data'. put_uint32_at1 data v = Inr data' \<and> uint32_at1 data' = Inr v \<and>
    length data' = length data \<and> data' ! 0 = data ! 0 \<and> drop 5 data' = drop 5 data"
proof -
  have b: "ucast (ucast v :: u8) OR push_bit 8 (ucast (ucast (drop_bit 8 v) :: u8)) OR
      push_bit 16 (ucast (ucast (drop_bit 16 v) :: u8)) OR
      push_bit 24 (ucast (ucast (drop_bit 24 v) :: u8)) = v" (is "?l v = v") for v :: u32
  proof (rule bit_word_eqI)
    fix n
    assume "n < LENGTH(32)"
    then consider "n < 8" | "8 \<le> n \<and> n < 16" | "16 \<le> n \<and> n < 24" | "24 \<le> n \<and> n < 32" by fastforce
    then show "bit (?l v) n = bit v n"
      by cases (auto simp: bit_simps)
  qed
  have "data \<noteq> []" using assms by auto
  then show ?thesis using assms by (simp add: put_uint32_at1_def uint32_at1_def b)
qed

end
