(* ===== verification/Series_Base.thy ===== *)
theory Series_Base
  imports Raycasting Varint
begin

text \<open>
  The data of \<open>baseSeries\<close> (series.go), its accessors, and \<open>processPoints\<close>, which computes the
  bounding rectangle, the convexity and the winding order of a series of points. The methods that
  need the index are in theory \<open>Indexed_Series\<close>.
\<close>

section \<open>Index options\<close>

text \<open>\<open>IndexKind\<close> is a byte; any value is possible, two are named.\<close>

type_synonym IndexKind = u8

definition KindNone :: IndexKind where
  "KindNone = 0"

definition KindQuadTree :: IndexKind where
  "KindQuadTree = 1"

definition IndexKind_String :: "IndexKind \<Rightarrow> string" where
  "IndexKind_String kind =
     (if kind = KindNone then ''None''
      else if kind = KindQuadTree then ''QuadTree''
      else ''Unknown'')"

record IndexOptions =
  Kind :: IndexKind
  MinPoints :: int

definition DefaultIndexOptions :: IndexOptions where
  "DefaultIndexOptions = \<lparr>Kind = KindQuadTree, MinPoints = 64\<rparr>"

definition NoIndexing :: IndexOptions where
  "NoIndexing = \<lparr>Kind = KindNone, MinPoints = 0\<rparr>"

section \<open>The series and its accessors\<close>

text \<open>The index is \<open>None\<close> where the Go slice is nil.\<close>

record baseSeries =
  bs_closed :: bool
  bs_clockwise :: bool
  bs_convex :: bool
  bs_indexKind :: IndexKind
  bs_index :: "u8 list option"
  bs_rect :: Rect
  bs_points :: "Point list"

definition zero_series :: baseSeries where
  "zero_series = \<lparr>bs_closed = False, bs_clockwise = False, bs_convex = False,
     bs_indexKind = 0, bs_index = None, bs_rect = zero_rect, bs_points = []\<rparr>"

definition series_RawPoints :: "baseSeries \<Rightarrow> Point list" where
  "series_RawPoints series = bs_points series"

definition series_Index :: "baseSeries \<Rightarrow> u8 list" where
  "series_Index series = (case bs_index series of None \<Rightarrow> [] | Some data \<Rightarrow> data)"

definition series_Clockwise :: "baseSeries \<Rightarrow> bool" where
  "series_Clockwise series = bs_clockwise series"

definition series_Empty :: "baseSeries option \<Rightarrow> bool" where
  "series_Empty series =
     (case series of None \<Rightarrow> True
      | Some series \<Rightarrow>
          (bs_closed series \<and> length (bs_points series) < 3) \<or> length (bs_points series) < 2)"

definition series_Rect :: "baseSeries \<Rightarrow> Rect" where
  "series_Rect series = bs_rect series"

definition series_Convex :: "baseSeries \<Rightarrow> bool" where
  "series_Convex series = bs_convex series"

definition series_Closed :: "baseSeries \<Rightarrow> bool" where
  "series_Closed series = bs_closed series"

definition series_NumPoints :: "baseSeries \<Rightarrow> int" where
  "series_NumPoints series = int (length (bs_points series))"

definition series_PointAt :: "baseSeries \<Rightarrow> int \<Rightarrow> Point res" where
  "series_PointAt series index = index_at (bs_points series) index"

definition series_NumSegments :: "baseSeries \<Rightarrow> int" where
  "series_NumSegments series =
     (let points = bs_points series; n = length points
      in if bs_closed series
         then (if n < 3 then 0
               else if point_eq (points ! (n - 1)) (points ! 0) then int n - 1
               else int n)
         else if n < 2 then 0
         else int n - 1)"

definition series_SegmentAt :: "baseSeries \<Rightarrow> int \<Rightarrow> Segment res" where
  "series_SegmentAt series index =
     rbind (index_at (bs_points series) index) (\<lambda>a.
       if index = int (length (bs_points series)) - 1
       then rbind (index_at (bs_points series) 0) (\<lambda>b. Inr (mk_segment a b))
       else rbind (index_at (bs_points series) (index + 1)) (\<lambda>b. Inr (mk_segment a b)))"

definition series_clearIndex :: "baseSeries \<Rightarrow> baseSeries" where
  "series_clearIndex series = series\<lparr>bs_index := None\<rparr>"

section \<open>Processing the points\<close>

text \<open>
  The loop of \<open>processPoints\<close>, one definition per stretch of its body. Every index it uses is in
  range, since there are at least two points.
\<close>

definition inflate :: "Rect \<Rightarrow> Point \<Rightarrow> Rect" where
  "inflate rect p =
     (let rect =
        (if X p < X (RMin rect) then rect\<lparr>RMin := (RMin rect)\<lparr>X := X p\<rparr>\<rparr>
         else if X p > X (RMax rect) then rect\<lparr>RMax := (RMax rect)\<lparr>X := X p\<rparr>\<rparr>
         else rect)
      in if Y p < Y (RMin rect) then rect\<lparr>RMin := (RMin rect)\<lparr>Y := Y p\<rparr>\<rparr>
         else if Y p > Y (RMax rect) then rect\<lparr>RMax := (RMax rect)\<lparr>Y := Y p\<rparr>\<rparr>
         else rect)"

definition corner :: "Point list \<Rightarrow> nat \<Rightarrow> Point \<times> Point \<times> Point" where
  "corner points i =
     (if i = length points - 1 then (points ! i, points ! 0, points ! 1)
      else if i = length points - 2 then (points ! i, points ! (i + 1), points ! 0)
      else (points ! i, points ! (i + 1), points ! (i + 2)))"

record turning =
  t_concave :: bool
  t_dir :: int

definition turn :: "turning \<Rightarrow> f64 \<Rightarrow> turning" where
  "turn t z =
     (if t_dir t = 0
      then (if z < 0 then t\<lparr>t_dir := - 1\<rparr> else if z > 0 then t\<lparr>t_dir := 1\<rparr> else t)
      else if z < 0 then (if t_dir t = 1 then t\<lparr>t_concave := True\<rparr> else t)
      else if z > 0 then (if t_dir t = - 1 then t\<lparr>t_concave := True\<rparr> else t)
      else t)"

definition process_step ::
  "Point list \<Rightarrow> nat \<Rightarrow> Rect \<times> f64 \<times> turning \<Rightarrow> Rect \<times> f64 \<times> turning" where
  "process_step points i = (\<lambda>(rect, cwc, t).
     let rect = (if i = 0 then mk_rect (points ! i) (points ! i) else inflate rect (points ! i));
         (a, b, c) = corner points i;
         cwc = cwc + (X b - X a) * (Y b + Y a)
     in if t_concave t then (rect, cwc, t)
        else let zCrossProduct = (X b - X a) * (Y c - Y b) - (Y b - Y a) * (X c - X b)
             in (rect, cwc, turn t zCrossProduct))"

definition process_loop :: "Point list \<Rightarrow> Rect \<times> f64 \<times> turning" where
  "process_loop points =
     fold (process_step points) [0..<length points]
       (zero_rect, 0, \<lparr>t_concave = False, t_dir = 0\<rparr>)"

text \<open>The result is \<open>(convex, rect, clockwise)\<close>.\<close>

definition processPoints :: "Point list \<Rightarrow> bool \<Rightarrow> bool \<times> Rect \<times> bool" where
  "processPoints points is_closed =
     (if (is_closed \<and> length points < 3) \<or> length points < 2 then (False, zero_rect, False)
      else let (rect, cwc, t) = process_loop points
           in (\<not> t_concave t, rect, cwc > 0))"

section \<open>The bounding rectangle\<close>

lemma inflate_sel:
  "X (RMin (inflate r p)) = (if X p < X (RMin r) then X p else X (RMin r))"
  "X (RMax (inflate r p)) = (if \<not> X p < X (RMin r) \<and> X p > X (RMax r) then X p else X (RMax r))"
  "Y (RMin (inflate r p)) = (if Y p < Y (RMin r) then Y p else Y (RMin r))"
  "Y (RMax (inflate r p)) = (if \<not> Y p < Y (RMin r) \<and> Y p > Y (RMax r) then Y p else Y (RMax r))"
  by (simp_all add: inflate_def Let_def)

lemma inflate_least:
  assumes "rect_ok r" "point_ok p"
  shows "rect_ok (inflate r p)"
    and "rect_ok t \<Longrightarrow> rect_ContainsRect t (inflate r p) \<longleftrightarrow> rect_ContainsRect t r \<and> rect_ContainsPoint t p"
  using assms
  by (auto simp: rect_ok_def point_ok_def inflate_sel rect_ContainsRect_def rect_ContainsPoint_def f64_order)

lemma foldl_inflate_least:
  assumes "rect_ok r" "\<forall>p \<in> set ps. point_ok p"
  shows "rect_ok (foldl inflate r ps) \<and> (\<forall>t. rect_ok t \<longrightarrow>
    (rect_ContainsRect t (foldl inflate r ps) \<longleftrightarrow>
      rect_ContainsRect t r \<and> (\<forall>p \<in> set ps. rect_ContainsPoint t p)))"
  using assms
proof (induction ps arbitrary: r)
  case (Cons p ps)
  then show ?case using Cons.IH [of "inflate r p"] inflate_least [of r p] by auto
qed simp

lemma fold_process_rect:
  "0 \<notin> set is \<Longrightarrow> fst (fold (process_step points) is st) =
     foldl inflate (fst st) (map ((!) points) is)"
proof (induction "is" arbitrary: st)
  case (Cons i "is")
  then show ?case
    by (cases st) (auto simp: process_step_def Let_def split: prod.split)
qed simp

lemma map_nth_tl: "map ((!) xs) [1..<length xs] = tl xs"
  by (rule nth_equalityI) (simp_all add: nth_tl)

lemma process_loop_rect:
  assumes "points \<noteq> []"
  shows "fst (process_loop points) = foldl inflate (mk_rect (hd points) (hd points)) (tl points)"
proof -
  have u: "[0..<length points] = 0 # [1..<length points]"
    using assms by (simp add: upt_conv_Cons)
  show ?thesis
    unfolding process_loop_def u fold_simps
    by (subst fold_process_rect)
      (use assms in \<open>auto simp: process_step_def Let_def map_nth_tl [simplified] hd_conv_nth split: prod.split\<close>)
qed

lemma processPoints_rect_ok:
  assumes "\<forall>p \<in> set points. point_ok p" "\<not> ((is_closed \<and> length points < 3) \<or> length points < 2)"
  shows "rect_ok (fst (snd (processPoints points is_closed))) \<and> (\<forall>t. rect_ok t \<longrightarrow>
    (rect_ContainsRect t (fst (snd (processPoints points is_closed))) \<longleftrightarrow>
      (\<forall>p \<in> set points. rect_ContainsPoint t p)))"
proof -
  obtain p ps where ps: "points = p # ps" using assms(2) by (cases points) auto
  have r: "fst (snd (processPoints points is_closed)) = foldl inflate (mk_rect p p) ps"
    using process_loop_rect [of points] assms(2)
    by (auto simp: processPoints_def ps split: prod.split)
  have "rect_ok (mk_rect p p)" "rect_ContainsRect t (mk_rect p p) = rect_ContainsPoint t p" if "rect_ok t" for t
    using assms(1) that by (auto simp: ps rect_ok_def point_ok_def rect_ContainsRect_def
      rect_ContainsPoint_def f64_order)
  moreover have "rect_ok (mk_rect p p)"
    using assms(1) by (auto simp: ps rect_ok_def point_ok_def f64_order)
  ultimately show ?thesis
    unfolding r using foldl_inflate_least [of "mk_rect p p" ps] assms(1) by (auto simp: ps)
qed

text \<open>
  C27: the rectangle that \<open>processPoints\<close> computes for a non-empty series without NaN coordinates is
  its least bounding box: it has ordered corners, and a rectangle contains it exactly if it
  contains every point of the series.
\<close>

theorem processPoints_bounding_box:
  assumes "\<forall>p \<in> set points. point_ok p" "2 \<le> length points" "is_closed \<longrightarrow> 3 \<le> length points"
    and "processPoints points is_closed = (convex, rect, clockwise)"
  shows "rect_ok rect \<and> (\<forall>t. rect_ok t \<longrightarrow>
    (rect_ContainsRect t rect \<longleftrightarrow> (\<forall>p \<in> set points. rect_ContainsPoint t p)))"
  using processPoints_rect_ok [of points is_closed] assms by auto

theorem processPoints_bounding_box_witness:
  "rect_ContainsRect (irect 0 0 5 5)
     (fst (snd (processPoints [ipoint 1 1, ipoint 4 2, ipoint 0 5] True)))"
proof -
  obtain c r w where p: "processPoints [ipoint 1 1, ipoint 4 2, ipoint 0 5] True = (c, r, w)"
    by (cases "processPoints [ipoint 1 1, ipoint 4 2, ipoint 0 5] True")
  show ?thesis
    using processPoints_bounding_box [OF _ _ _ p] p
    by (simp add: point_ok_def rect_ok_def rect_ContainsPoint_def)
qed

end
