(* ===== verification/Pqueue.thy ===== *)
theory Pqueue
  imports Shapes "HOL-Library.Product_Lexorder"
begin

text \<open>
  queue.go: the binary heap of \<open>qnode\<close>s ordered by distance, then kind, then position, that
  drives the nearest-segment search. The slice is a list, the swaps are list updates.
\<close>

section \<open>Nodes and their order\<close>

datatype qkind = qrect | qseg

definition qkind_num :: "qkind \<Rightarrow> int" where
  "qkind_num k = (case k of qrect \<Rightarrow> 1 | qseg \<Rightarrow> 2)"

record qnode =
  q_dist :: f64
  q_kind :: qkind
  q_pos :: int
  q_a :: Point
  q_b :: Point

definition qnode_cmp :: "qnode \<Rightarrow> qnode \<Rightarrow> int" where
  "qnode_cmp qn other =
     (if q_dist qn < q_dist other then - 1
      else if q_dist qn > q_dist other then 1
      else if qkind_num (q_kind qn) < qkind_num (q_kind other) then - 1
      else if qkind_num (q_kind qn) > qkind_num (q_kind other) then 1
      else if q_pos qn < q_pos other then - 1
      else if q_pos qn > q_pos other then 1
      else 0)"

type_synonym queue = "qnode list"

section \<open>Push\<close>

definition swap_at :: "'a list \<Rightarrow> nat \<Rightarrow> nat \<Rightarrow> 'a list" where
  "swap_at xs i j = xs[i := xs ! j, j := xs ! i]"

text \<open>The loop of \<open>push\<close> that moves the node at \<open>i\<close> up.\<close>

fun sift_up :: "queue \<Rightarrow> nat \<Rightarrow> queue" where
  "sift_up nodes i =
     (let parent = (i - 1) div 2
      in if i \<noteq> 0 \<and> qnode_cmp (nodes ! parent) (nodes ! i) > 0
         then sift_up (swap_at nodes parent i) parent
         else nodes)"

declare sift_up.simps [simp del]

definition queue_push :: "queue \<Rightarrow> qnode \<Rightarrow> queue" where
  "queue_push q node = (let nodes = q @ [node] in sift_up nodes (length nodes - 1))"

section \<open>Pop\<close>

text \<open>One round of the loop of \<open>pop\<close>: the index the node at \<open>i\<close> is exchanged with, or \<open>i\<close>.\<close>

definition smallest_child :: "queue \<Rightarrow> nat \<Rightarrow> nat" where
  "smallest_child nodes i =
     (let smallest = i; left = i * 2 + 1; right = i * 2 + 2;
          smallest = (if left < length nodes \<and> qnode_cmp (nodes ! left) (nodes ! smallest) \<le> 0
                      then left else smallest);
          smallest = (if right < length nodes \<and> qnode_cmp (nodes ! right) (nodes ! smallest) \<le> 0
                      then right else smallest)
      in smallest)"

lemma smallest_child_bounds:
  "smallest_child nodes i \<noteq> i \<Longrightarrow>
     i < smallest_child nodes i \<and> smallest_child nodes i < length nodes"
  by (auto simp: smallest_child_def Let_def split: if_splits)

function sift_down :: "queue \<Rightarrow> nat \<Rightarrow> queue" where
  "sift_down nodes i =
     (let smallest = smallest_child nodes i
      in if smallest = i then nodes else sift_down (swap_at nodes smallest i) smallest)"
  by pat_completeness auto
termination
  by (relation "measure (\<lambda>(nodes, i). length nodes - i)")
    (auto dest: smallest_child_bounds simp: swap_at_def diff_less_mono2)

declare sift_down.simps [simp del]

definition queue_pop :: "queue \<Rightarrow> queue \<times> qnode option" where
  "queue_pop q =
     (let nodes = q
      in if length nodes = 0 then (q, None)
         else let n = nodes ! 0;
                  nodes = nodes[0 := nodes ! (length q - 1)];
                  nodes = take (length nodes - 1) nodes
              in (sift_down nodes 0, Some n))"

section \<open>The order of the nodes\<close>

text \<open>
  On nodes whose distance is not a NaN the comparison is the lexicographic order of the distance,
  the kind and the position, a linear order of the keys.
\<close>

definition q_ok :: "qnode \<Rightarrow> bool" where
  "q_ok n \<longleftrightarrow> \<not> is_nan (q_dist n)"

definition q_key :: "qnode \<Rightarrow> int \<times> int \<times> int" where
  "q_key n = (fkey (q_dist n), qkind_num (q_kind n), q_pos n)"

lemma qnode_cmp_key:
  assumes "q_ok m" "q_ok n"
  shows "qnode_cmp m n \<le> 0 \<longleftrightarrow> q_key m \<le> q_key n" "qnode_cmp m n > 0 \<longleftrightarrow> q_key n < q_key m"
  using assms by (auto simp: qnode_cmp_def q_key_def q_ok_def f64_order less_prod_def less_eq_prod_def)

definition parent :: "nat \<Rightarrow> nat" where
  "parent i = (i - 1) div 2"

lemma parent_less: "0 < i \<Longrightarrow> parent i < i"
  by (simp add: parent_def div_less_iff_less_mult) 

lemma parent_child: "0 < j \<Longrightarrow> parent j = i \<longleftrightarrow> j = i * 2 + 1 \<or> j = i * 2 + 2"
  unfolding parent_def by presburger

definition heap :: "queue \<Rightarrow> bool" where
  "heap q \<longleftrightarrow> (\<forall>n \<in> set q. q_ok n) \<and>
     (\<forall>j. 0 < j \<and> j < length q \<longrightarrow> q_key (q ! parent j) \<le> q_key (q ! j))"

text \<open>The heaps whose node at \<open>i\<close> may be too small, and those whose node at \<open>i\<close> may be too large.\<close>

definition heap_up :: "queue \<Rightarrow> nat \<Rightarrow> bool" where
  "heap_up q i \<longleftrightarrow> (\<forall>n \<in> set q. q_ok n) \<and> i < length q \<and>
     (\<forall>j. 0 < j \<and> j < length q \<and> j \<noteq> i \<longrightarrow> q_key (q ! parent j) \<le> q_key (q ! j)) \<and>
     (\<forall>j. 0 < i \<and> 0 < j \<and> j < length q \<and> parent j = i \<longrightarrow> q_key (q ! parent i) \<le> q_key (q ! j))"

definition heap_down :: "queue \<Rightarrow> nat \<Rightarrow> bool" where
  "heap_down q i \<longleftrightarrow> (\<forall>n \<in> set q. q_ok n) \<and>
     (\<forall>j. 0 < j \<and> j < length q \<and> parent j \<noteq> i \<longrightarrow> q_key (q ! parent j) \<le> q_key (q ! j)) \<and>
     (\<forall>j. 0 < i \<and> 0 < j \<and> j < length q \<and> parent j = i \<longrightarrow> q_key (q ! parent i) \<le> q_key (q ! j))"

lemma swap_at_props:
  assumes "i < length xs" "j < length xs"
  shows "length (swap_at xs i j) = length xs" "mset (swap_at xs i j) = mset xs"
    "set (swap_at xs i j) = set xs"
    "k < length xs \<Longrightarrow> swap_at xs i j ! k = (if k = j then xs ! i else if k = i then xs ! j else xs ! k)"
  using assms by (simp_all add: swap_at_def mset_swap set_swap nth_list_update)

lemma heap_up_step:
  assumes h: "heap_up q i" and i: "i \<noteq> 0" and lt: "q_key (q ! i) < q_key (q ! parent i)"
  shows "heap_up (swap_at q (parent i) i) (parent i)"
proof -
  let ?p = "parent i" and ?q = "swap_at q (parent i) i"
  have b: "i < length q" "?p < length q" "?p < i"
    using h i parent_less [of i] by (auto simp: heap_up_def)
  have nth: "\<And>k. k < length q \<Longrightarrow> ?q ! k = (if k = i then q ! ?p else if k = ?p then q ! i else q ! k)"
    using b by (simp add: swap_at_props)
  have le: "\<And>j. 0 < j \<Longrightarrow> j < length q \<Longrightarrow> j \<noteq> i \<Longrightarrow> q_key (q ! parent j) \<le> q_key (q ! j)"
    and gp: "\<And>j. 0 < j \<Longrightarrow> j < length q \<Longrightarrow> parent j = i \<Longrightarrow> q_key (q ! ?p) \<le> q_key (q ! j)"
    using h i by (auto simp: heap_up_def)
  have 1: "q_key (?q ! parent j) \<le> q_key (?q ! j)" if j: "0 < j" "j < length q" "j \<noteq> ?p" for j
  proof -
    have "parent j < length q" using parent_less [of j] j by simp
    then show ?thesis using j lt le [of j] gp [of j] i b by (auto simp: nth)
  qed
  have 2: "q_key (?q ! parent ?p) \<le> q_key (?q ! j)"
    if j: "0 < ?p" "0 < j" "j < length q" "parent j = ?p" for j
  proof -
    have pp: "parent ?p < ?p" using parent_less j by simp
    have "q_key (q ! parent ?p) \<le> q_key (q ! ?p)" using le [of ?p] j b by simp
    moreover have "j \<noteq> i \<Longrightarrow> q_key (q ! ?p) \<le> q_key (q ! j)" using le [of j] j by simp
    ultimately show ?thesis using j pp b by (auto simp: nth)
  qed
  show ?thesis using h b 1 2 by (simp add: heap_up_def swap_at_props)
qed

lemma sift_up_heap:
  "heap_up q i \<Longrightarrow> heap (sift_up q i) \<and> mset (sift_up q i) = mset q"
proof (induction q i rule: sift_up.induct)
  case (1 q i)
  have b: "i < length q" using "1.prems" by (simp add: heap_up_def)
  have p: "parent i < length q" using b parent_less [of i] by (cases "i = 0") (auto simp: parent_def)
  have ok: "q_ok (q ! i)" "q_ok (q ! parent i)" using "1.prems" b p by (auto simp: heap_up_def)
  have e: "sift_up q i = (if i \<noteq> 0 \<and> q_key (q ! i) < q_key (q ! parent i)
      then sift_up (swap_at q (parent i) i) (parent i) else q)"
    using qnode_cmp_key(2) [OF ok(2,1)] by (simp add: sift_up.simps [of q i] parent_def Let_def)
  show ?case
  proof (cases "i \<noteq> 0 \<and> q_key (q ! i) < q_key (q ! parent i)")
    case True
    then have "heap_up (swap_at q (parent i) i) (parent i)"
      using "1.prems" heap_up_step by blast
    with True "1.IH" [of "parent i"] qnode_cmp_key(2) [OF ok(2,1)] b p e
    show ?thesis by (simp add: parent_def swap_at_props)
  next
    case False
    then have "i = 0 \<or> q_key (q ! parent i) \<le> q_key (q ! i)" by auto
    then show ?thesis using False "1.prems" by (auto simp: e heap_up_def heap_def)
  qed
qed

lemma queue_push_heap:
  assumes "heap q" "q_ok n"
  shows "heap (queue_push q n)" "mset (queue_push q n) = add_mset n (mset q)"
proof -
  have "heap_up (q @ [n]) (length q)"
    unfolding heap_up_def
  proof (intro conjI allI impI)
    fix j assume j: "0 < j \<and> j < length (q @ [n]) \<and> j \<noteq> length q"
    then have "j < length q" "parent j < length q" using parent_less [of j] by auto
    then show "q_key ((q @ [n]) ! parent j) \<le> q_key ((q @ [n]) ! j)"
      using assms j by (auto simp: heap_def nth_append)
  next
    fix j assume "0 < length q \<and> 0 < j \<and> j < length (q @ [n]) \<and> parent j = length q"
    then show "q_key ((q @ [n]) ! parent (length q)) \<le> q_key ((q @ [n]) ! j)"
      using parent_less [of j] by simp
  qed (use assms in \<open>auto simp: heap_def\<close>)
  from sift_up_heap [OF this] show "heap (queue_push q n)" "mset (queue_push q n) = add_mset n (mset q)"
    by (simp_all add: queue_push_def Let_def)
qed

lemma smallest_child_key:
  assumes "\<forall>n \<in> set q. q_ok n" "i < length q"
  shows "smallest_child q i < length q"
    "smallest_child q i = i \<or> smallest_child q i = i * 2 + 1 \<or> smallest_child q i = i * 2 + 2"
    "q_key (q ! smallest_child q i) \<le> q_key (q ! i)"
    "i * 2 + 1 < length q \<Longrightarrow> q_key (q ! smallest_child q i) \<le> q_key (q ! (i * 2 + 1))"
    "i * 2 + 2 < length q \<Longrightarrow> q_key (q ! smallest_child q i) \<le> q_key (q ! (i * 2 + 2))"
proof -
  have ok: "\<And>k. k < length q \<Longrightarrow> q_ok (q ! k)" using assms by simp
  show "smallest_child q i < length q"
    "smallest_child q i = i \<or> smallest_child q i = i * 2 + 1 \<or> smallest_child q i = i * 2 + 2"
    using assms(2) by (auto simp: smallest_child_def Let_def)
  show "q_key (q ! smallest_child q i) \<le> q_key (q ! i)"
    "i * 2 + 1 < length q \<Longrightarrow> q_key (q ! smallest_child q i) \<le> q_key (q ! (i * 2 + 1))"
    "i * 2 + 2 < length q \<Longrightarrow> q_key (q ! smallest_child q i) \<le> q_key (q ! (i * 2 + 2))"
    using assms(2) by (auto simp: smallest_child_def Let_def qnode_cmp_key ok intro: order_trans)
qed

lemma heap_down_step:
  assumes h: "heap_down q i" and i: "i < length q" and s: "smallest_child q i = s" "s \<noteq> i"
  shows "heap_down (swap_at q s i) s"
proof -
  let ?q = "swap_at q s i"
  have ok: "\<forall>n \<in> set q. q_ok n" using h by (simp add: heap_down_def)
  note sc = smallest_child_key [OF ok i, unfolded s(1)]
  have "s = i * 2 + 1 \<or> s = i * 2 + 2" using sc(2) s(2) by simp
  then have ps: "0 < s" "parent s = i" using parent_child [of s i] by auto
  then have si: "i < s" using parent_less by metis
  have nth: "\<And>k. k < length q \<Longrightarrow> ?q ! k = (if k = i then q ! s else if k = s then q ! i else q ! k)"
    using i sc(1) by (simp add: swap_at_props)
  have le: "\<And>j. 0 < j \<Longrightarrow> j < length q \<Longrightarrow> parent j \<noteq> i \<Longrightarrow> q_key (q ! parent j) \<le> q_key (q ! j)"
    and gp: "\<And>j. 0 < i \<Longrightarrow> 0 < j \<Longrightarrow> j < length q \<Longrightarrow> parent j = i \<Longrightarrow> q_key (q ! parent i) \<le> q_key (q ! j)"
    using h by (auto simp: heap_down_def)
  have ch: "q_key (q ! s) \<le> q_key (q ! j)" if "0 < j" "j < length q" "parent j = i" for j
  proof -
    have "j = i * 2 + 1 \<or> j = i * 2 + 2" using that parent_child by blast
    then show ?thesis using that(2) sc(4,5) by (elim disjE) simp_all
  qed
  have 1: "q_key (?q ! parent j) \<le> q_key (?q ! j)" if j: "0 < j" "j < length q" "parent j \<noteq> s" for j
  proof -
    have pj: "parent j < length q" "parent j < j" using parent_less [of j] j by auto
    show ?thesis
    proof (cases "parent j = i")
      case True
      then show ?thesis using j pj ch [of j] sc(3) si by (auto simp: nth)
    next
      case False
      then show ?thesis using j pj le [of j] gp [of s] ps sc(1) si by (auto simp: nth)
    qed
  qed
  have 2: "q_key (?q ! parent s) \<le> q_key (?q ! j)" if j: "0 < j" "j < length q" "parent j = s" for j
    using le [of j] j si ps sc(1) parent_less [of j] by (auto simp: nth)
  show ?thesis using h i sc(1) 1 2 by (simp add: heap_down_def swap_at_props)
qed

lemma sift_down_heap:
  "heap_down q i \<Longrightarrow> i < length q \<Longrightarrow> heap (sift_down q i) \<and> mset (sift_down q i) = mset q"
proof (induction q i rule: sift_down.induct)
  case (1 q i)
  have ok: "\<forall>n \<in> set q. q_ok n" using "1.prems" by (simp add: heap_down_def)
  note sc = smallest_child_key [OF ok "1.prems"(2)]
  show ?case
  proof (cases "smallest_child q i = i")
    case True
    have "q_key (q ! parent j) \<le> q_key (q ! j)" if "0 < j" "j < length q" for j
      using that "1.prems" sc(4,5) True parent_child [of j i]
      by (cases "parent j = i") (auto simp: heap_down_def)
    then show ?thesis using True ok by (simp add: sift_down.simps [of q i] heap_def)
  next
    case False
    then show ?thesis
      using "1.IH" [OF refl False] heap_down_step [OF "1.prems" refl False] sc(1) "1.prems"(2)
      by (simp add: sift_down.simps [of q i] Let_def swap_at_props)
  qed
qed

lemma heap_root:
  "heap q \<Longrightarrow> j < length q \<Longrightarrow> q_key (q ! 0) \<le> q_key (q ! j)"
proof (induction j rule: less_induct)
  case (less j)
  show ?case
  proof (cases "j = 0")
    case False
    then have "q_key (q ! 0) \<le> q_key (q ! parent j)"
      using less parent_less [of j] by (simp add: less_trans)
    also have "\<dots> \<le> q_key (q ! j)" using less False by (simp add: heap_def)
    finally show ?thesis .
  qed simp
qed

lemma queue_pop_empty: "queue_pop q = (q', None) \<longleftrightarrow> q = [] \<and> q' = []"
  by (auto simp: queue_pop_def Let_def)

lemma sift_down_Nil: "sift_down [] 0 = []"
  by (simp add: sift_down.simps smallest_child_def)

lemma queue_pop_heap:
  assumes h: "heap q" and p: "queue_pop q = (q', Some n)"
  shows "heap q'" "mset q = add_mset n (mset q')" "\<forall>m \<in># mset q'. q_key n \<le> q_key m"
proof -
  have ne: "q \<noteq> []" and n: "n = q ! 0" using p by (auto simp: queue_pop_def Let_def split: if_splits)
  define r where "r = take (length q - 1) (q[0 := q ! (length q - 1)])"
  have q': "q' = sift_down r 0" using p ne by (auto simp: queue_pop_def Let_def r_def)
  have len: "length r = length q - 1" by (simp add: r_def)
  have nth: "\<And>k. k < length q - 1 \<Longrightarrow> r ! k = (if k = 0 then q ! (length q - 1) else q ! k)"
    using ne by (simp add: r_def nth_list_update)
  obtain xs z where q: "q = xs @ [z]" using ne rev_exhaust by blast
  have mr: "mset q = add_mset n (mset r)"
  proof (cases xs)
    case Nil
    then show ?thesis by (simp add: r_def q n)
  next
    case (Cons y ys)
    then have "r = z # ys" by (simp add: r_def q)
    then show ?thesis by (simp add: q n Cons)
  qed
  have ok: "\<forall>m \<in> set r. q_ok m"
  proof -
    have "set q = insert n (set r)" using mr by (metis set_mset_add_mset_insert set_mset_mset)
    then show ?thesis using h by (auto simp: heap_def)
  qed
  have "heap q' \<and> mset q' = mset r"
  proof (cases "r = []")
    case True
    then show ?thesis by (simp add: q' sift_down_Nil heap_def)
  next
    case False
    have "heap_down r 0"
    proof -
      have "q_key (r ! parent j) \<le> q_key (r ! j)" if j: "0 < j" "j < length r" "parent j \<noteq> 0" for j
        using j h parent_less [of j] by (simp add: nth len heap_def)
      then show ?thesis using ok by (simp add: heap_down_def)
    qed
    then show ?thesis using sift_down_heap [of r 0] False by (simp add: q')
  qed
  then show "heap q'" "mset q = add_mset n (mset q')" using mr by simp_all
  then have "set_mset (mset q') \<subseteq> set q" by (metis set_mset_add_mset_insert set_mset_mset subset_insertI)
  then show "\<forall>m \<in># mset q'. q_key n \<le> q_key m"
    using heap_root [OF h] n by (metis in_set_conv_nth subsetD)
qed

section \<open>The contract of a priority queue\<close>

text \<open>
  \<open>drain pop n q\<close> pops \<open>n\<close> times. The locale states what the nearest-segment search relies on:
  nothing is lost or made up, and a pop yields a least element.
\<close>

fun drain :: "('q \<Rightarrow> 'q \<times> 'a option) \<Rightarrow> nat \<Rightarrow> 'q \<Rightarrow> 'a list" where
  "drain pop 0 q = []"
| "drain pop (Suc n) q = (case pop q of (q', None) \<Rightarrow> [] | (q', Some x) \<Rightarrow> x # drain pop n q')"

locale min_queue =
  fixes push :: "'q \<Rightarrow> 'a \<Rightarrow> 'q"
    and pop :: "'q \<Rightarrow> 'q \<times> 'a option"
    and emp :: 'q
    and elems :: "'q \<Rightarrow> 'a multiset"
    and inv :: "'q \<Rightarrow> bool"
    and ok :: "'a \<Rightarrow> bool"
    and key :: "'a \<Rightarrow> 'k::linorder"
  assumes emp: "inv emp" "elems emp = {#}"
    and push_inv: "inv q \<Longrightarrow> ok x \<Longrightarrow> inv (push q x)"
    and push_elems: "inv q \<Longrightarrow> ok x \<Longrightarrow> elems (push q x) = add_mset x (elems q)"
    and pop_None: "inv q \<Longrightarrow> pop q = (q', None) \<Longrightarrow> elems q = {#}"
    and pop_inv: "inv q \<Longrightarrow> pop q = (q', Some x) \<Longrightarrow> inv q'"
    and pop_elems: "inv q \<Longrightarrow> pop q = (q', Some x) \<Longrightarrow> elems q = add_mset x (elems q')"
    and pop_least: "inv q \<Longrightarrow> pop q = (q', Some x) \<Longrightarrow> y \<in># elems q' \<Longrightarrow> key x \<le> key y"
begin

lemma pop_least_all: "inv q \<Longrightarrow> pop q = (q', Some x) \<Longrightarrow> y \<in># elems q \<Longrightarrow> key x \<le> key y"
  using pop_elems [of q q' x] pop_least [of q q' x y] by auto

lemma pop_member: "inv q \<Longrightarrow> pop q = (q', Some x) \<Longrightarrow> x \<in># elems q"
  by (simp add: pop_elems)

lemma push_all:
  "inv q \<Longrightarrow> (\<forall>x \<in> set xs. ok x) \<Longrightarrow> inv (foldl push q xs) \<and> elems (foldl push q xs) = mset xs + elems q"
  by (induction xs arbitrary: q) (auto simp: push_inv push_elems)

lemma drain_elems: "inv q \<Longrightarrow> size (elems q) = n \<Longrightarrow> mset (drain pop n q) = elems q"
proof (induction n arbitrary: q)
  case (Suc n)
  then obtain q' x where p: "pop q = (q', Some x)"
    using pop_None [of q "fst (pop q)"] by (cases "pop q") (auto split: option.splits, fastforce)
  then show ?case using Suc pop_inv [OF Suc.prems(1) p] pop_elems [OF Suc.prems(1) p] by simp
qed simp

lemma drain_bound: "inv q \<Longrightarrow> y \<in> set (drain pop n q) \<Longrightarrow> y \<in># elems q"
proof (induction n arbitrary: q)
  case (Suc n)
  show ?case
  proof (cases "snd (pop q)")
    case (Some x)
    then obtain q' where p: "pop q = (q', Some x)" by (cases "pop q") auto
    then show ?thesis
      using Suc pop_inv [OF Suc.prems(1) p] pop_elems [OF Suc.prems(1) p] by auto
  qed (use Suc.prems in \<open>cases "pop q"; simp\<close>)
qed simp

lemma drain_sorted: "inv q \<Longrightarrow> sorted (map key (drain pop n q))"
proof (induction n arbitrary: q)
  case (Suc n)
  show ?case
  proof (cases "snd (pop q)")
    case (Some x)
    then obtain q' where p: "pop q = (q', Some x)" by (cases "pop q") auto
    have q': "inv q'" using Suc.prems p by (rule pop_inv)
    then show ?thesis
      using Suc.IH [OF q'] p drain_bound [OF q'] pop_least [OF Suc.prems p] by auto
  qed (auto split: prod.splits)
qed simp

end

interpretation pq: min_queue queue_push queue_pop "[]" mset heap q_ok q_key
proof unfold_locales
  show "heap []" by (simp add: heap_def)
  show "mset [] = {#}" by simp
  show "heap (queue_push q x)" if "heap q" "q_ok x" for q x
    using that by (rule queue_push_heap)
  show "mset (queue_push q x) = add_mset x (mset q)" if "heap q" "q_ok x" for q x
    using that by (rule queue_push_heap)
  show "mset q = {#}" if "heap q" "queue_pop q = (q', None)" for q q'
    using that queue_pop_empty by simp
  show "heap q'" if "heap q" "queue_pop q = (q', Some x)" for q q' x
    using that by (rule queue_pop_heap)
  show "mset q = add_mset x (mset q')" if "heap q" "queue_pop q = (q', Some x)" for q q' x
    using that by (rule queue_pop_heap)
  show "q_key x \<le> q_key y" if "heap q" "queue_pop q = (q', Some x)" "y \<in># mset q'" for q q' x y
    using queue_pop_heap(3) [OF that(1,2)] that(3) by blast
qed

text \<open>
  \<open>push\<close> keeps the heap order of the slice and adds exactly the node it is given, for nodes
  whose distance is not a NaN.
\<close>

lemma queue_push_correct:
  assumes "heap q" "q_ok n"
  shows "heap (queue_push q n) \<and> mset (queue_push q n) = add_mset n (mset q)"
  using assms by (simp add: pq.push_inv pq.push_elems)

text \<open>
  C18: \<open>pop\<close> of a non-empty heap removes a node that no other node precedes in the order of
  distance, kind and position, and leaves a heap of the others; only the empty queue has nothing
  to pop.
\<close>

theorem queue_pop_correct:
  assumes "heap q"
  shows "case queue_pop q of
      (q', None) \<Rightarrow> q = [] \<and> q' = []
    | (q', Some n) \<Rightarrow> heap q' \<and> mset q = add_mset n (mset q') \<and> (\<forall>m \<in> set q. qnode_cmp n m \<le> 0)"
proof (cases "queue_pop q")
  case (Pair q' r)
  show ?thesis
  proof (cases r)
    case None
    then show ?thesis using Pair queue_pop_empty [of q q'] by simp
  next
    case (Some n)
    then have p: "queue_pop q = (q', Some n)" using Pair by simp
    have "q_ok m" if "m \<in> set q" for m using assms that by (simp add: heap_def)
    moreover have "n \<in> set q" using pq.pop_member [OF assms p] by simp
    ultimately have "\<forall>m \<in> set q. qnode_cmp n m \<le> 0"
      using pq.pop_least_all [OF assms p] by (simp add: qnode_cmp_key)
    then show ?thesis
      using p pq.pop_inv [OF assms p] pq.pop_elems [OF assms p] by simp
  qed
qed

text \<open>
  C26: pushing any nodes and popping them all yields the same nodes in ascending order: the queue
  sorts by distance, then kind, then position.
\<close>

theorem queue_sorts:
  assumes "\<forall>n \<in> set ns. q_ok n"
  shows "mset (drain queue_pop (length ns) (foldl queue_push [] ns)) = mset ns \<and>
    sorted (map q_key (drain queue_pop (length ns) (foldl queue_push [] ns)))"
proof -
  have h: "heap (foldl queue_push [] ns)" "mset (foldl queue_push [] ns) = mset ns"
    using pq.push_all [OF pq.emp(1) assms] by auto
  then show ?thesis
    using pq.drain_elems [OF h(1)] pq.drain_sorted [OF h(1)] by (metis size_mset)
qed

definition q_seg :: "int \<Rightarrow> int \<Rightarrow> qnode" where
  "q_seg d p = \<lparr>q_dist = f_of_int d, q_kind = qseg, q_pos = p, q_a = zero_point, q_b = zero_point\<rparr>"

lemma q_seg_ok [simp]: "\<bar>d\<bar> < 2 ^ 53 \<Longrightarrow> q_ok (q_seg d p)"
  by (simp add: q_ok_def q_seg_def)

theorem queue_pop_correct_witness: "queue_pop [q_seg 3 0] = ([], Some (q_seg 3 0))"
  using queue_pop_correct [of "[q_seg 3 0]"]
  by (simp add: heap_def queue_pop_def sift_down_Nil)

theorem queue_sorts_witness:
  "sorted (map q_key (drain queue_pop 3 (foldl queue_push [] [q_seg 3 0, q_seg 1 1, q_seg 2 2])))"
  using queue_sorts [of "[q_seg 3 0, q_seg 1 1, q_seg 2 2]"]
  by (simp del: drain.simps add: eval_nat_numeral)

end
