(* ===== verification/Quadtree.thy ===== *)
theory Quadtree
  imports Series_Base Pqueue
begin

text \<open>
  qtree.go: the quadtree over the segments of a series while it is built (\<open>qNode\<close>, \<open>insert\<close>),
  its compressed form as bytes (\<open>compress\<close>), the search that walks the bytes, and the best-first
  search for the nearest segment. The pointer tree has no sharing, so it is a datatype and the
  updates through pointers return the new tree.
\<close>

definition qMaxItems :: nat where
  "qMaxItems = 12"

definition qMaxDepth :: nat where
  "qMaxDepth = 64"

section \<open>Nodes\<close>

text \<open>The array of four quads is a list of length four; \<open>None\<close> is the nil pointer.\<close>

datatype qNode = QNode (q_split: bool) (q_items: "int list") (q_quads: "qNode option list")

definition new_qNode :: qNode where
  "new_qNode = QNode False [] [None, None, None, None]"

definition chooseQuad :: "Rect \<Rightarrow> Rect \<Rightarrow> int" where
  "chooseQuad bounds rect =
     (let midX = (X (RMin bounds) + X (RMax bounds)) / f_two;
          midY = (Y (RMin bounds) + Y (RMax bounds)) / f_two
      in if X (RMax rect) < midX
         then (if Y (RMax rect) < midY then 2
               else if Y (RMin rect) < midY then - 1
               else 0)
         else if X (RMin rect) < midX then - 1
         else if Y (RMax rect) < midY then 3
         else if Y (RMin rect) < midY then - 1
         else 1)"

definition quadBounds :: "Rect \<Rightarrow> int \<Rightarrow> Rect" where
  "quadBounds bounds q =
     (let centerX = (X (RMin bounds) + X (RMax bounds)) / f_two;
          centerY = (Y (RMin bounds) + Y (RMax bounds)) / f_two
      in if q = 0 then bounds\<lparr>RMin := (RMin bounds)\<lparr>Y := centerY\<rparr>, RMax := (RMax bounds)\<lparr>X := centerX\<rparr>\<rparr>
         else if q = 1 then bounds\<lparr>RMin := (RMin bounds)\<lparr>X := centerX, Y := centerY\<rparr>\<rparr>
         else if q = 2 then bounds\<lparr>RMax := (RMax bounds)\<lparr>X := centerX, Y := centerY\<rparr>\<rparr>
         else if q = 3 then bounds\<lparr>RMin := (RMin bounds)\<lparr>X := centerX\<rparr>, RMax := (RMax bounds)\<lparr>Y := centerY\<rparr>\<rparr>
         else bounds)"

section \<open>Insertion\<close>

text \<open>
  \<open>insert\<close> and the loop in it that distributes the items of a full node over its quads.
  \<open>redistribute\<close> takes the items still to be placed and returns the quads with the items that
  stay. The depth starts at zero, so a depth beyond \<open>qMaxDepth\<close> never comes up; the recursion
  would have no bound there, and the model says \<open>Diverges\<close>.
\<close>

function (sequential)
  qinsert :: "baseSeries \<Rightarrow> qNode \<Rightarrow> Rect \<Rightarrow> Rect \<Rightarrow> int \<Rightarrow> nat \<Rightarrow> qNode res" and
  redistribute :: "baseSeries \<Rightarrow> int list \<Rightarrow> Rect \<Rightarrow> nat \<Rightarrow> qNode option list \<Rightarrow> int list \<Rightarrow>
    (qNode option list \<times> int list) res"
where
  "qinsert series (QNode split items quads) bounds rect item depth =
     (if depth = qMaxDepth then Inr (QNode split (items @ [item]) quads)
      else if qMaxDepth < depth then Inl Diverges
      else if split
      then let q = chooseQuad bounds rect
           in if q = - 1 then Inr (QNode split (items @ [item]) quads)
              else let qbounds = quadBounds bounds q;
                       child = (case quads ! nat q of None \<Rightarrow> new_qNode | Some n \<Rightarrow> n)
                   in rbind (qinsert series child qbounds rect item (depth + 1)) (\<lambda>child.
                        Inr (QNode split items (quads[nat q := Some child])))
      else if length items = qMaxItems
      then rbind (redistribute series items bounds depth quads []) (\<lambda>(quads, nitems).
             qinsert series (QNode True nitems quads) bounds rect item depth)
      else Inr (QNode split (items @ [item]) quads))"
| "redistribute series [] bounds depth quads nitems = Inr (quads, nitems)"
| "redistribute series (iitem # iitems) bounds depth quads nitems =
     rbind (series_SegmentAt series iitem) (\<lambda>seg.
       let irect = seg_Rect seg; q = chooseQuad bounds irect
       in if q = - 1 then redistribute series iitems bounds depth quads (nitems @ [iitem])
          else let qbounds = quadBounds bounds q;
                   child = (case quads ! nat q of None \<Rightarrow> new_qNode | Some n \<Rightarrow> n)
               in rbind (qinsert series child qbounds irect iitem (depth + 1)) (\<lambda>child.
                    redistribute series iitems bounds depth (quads[nat q := Some child]) nitems))"
  by pat_completeness auto
termination
  by (relation "measures
      [\<lambda>r. case r of Inl (s, n, b, r, i, d) \<Rightarrow> (if qMaxDepth \<le> d then 0 else qMaxDepth + 1 - d)
                   | Inr (s, is, b, d, qs, ns) \<Rightarrow> qMaxDepth + 1 - d,
       \<lambda>r. case r of Inl (s, n, b, r, i, d) \<Rightarrow>
                       (if qMaxDepth \<le> d \<or> q_split n then 0 else length (q_items n) + 2)
                   | Inr (s, is, b, d, qs, ns) \<Rightarrow> length is + 1]") auto

section \<open>Compression\<close>

fun append_items :: "u8 list \<Rightarrow> int \<Rightarrow> int list \<Rightarrow> u8 list" where
  "append_items dst prev [] = dst"
| "append_items dst prev (item # items) =
     append_items (appendUvarint dst (word_of_int (item - prev))) item items"

text \<open>
  \<open>sort.Ints\<close> sorts the items of the node in place; the tree is not used afterwards, so only the
  bytes are returned. \<open>compress_quads\<close> is the loop over the quads.
\<close>

function (sequential)
  compress :: "qNode \<Rightarrow> u8 list \<Rightarrow> u8 list" and
  compress_quads :: "qNode option list \<Rightarrow> u8 list \<Rightarrow> u8 list"
where
  "compress (QNode split items quads) dst =
     (let items = sort items;
          dst = appendUvarint dst (word_of_nat (length items));
          dst = append_items dst 0 items
      in if \<not> split then dst @ [0] else compress_quads quads (dst @ [1]))"
| "compress_quads [] dst = dst"
| "compress_quads (None # quads) dst = compress_quads quads (dst @ [0])"
| "compress_quads (Some n # quads) dst =
     (let dst2 = compress n []
      in compress_quads quads (appendUvarint dst (word_of_nat (length dst2)) @ dst2))"
  by pat_completeness auto
termination
  by (relation "measure (\<lambda>r. case r of Inl (n, d) \<Rightarrow> size n
                                     | Inr (qs, d) \<Rightarrow> size_list (size_option size) qs)") auto

section \<open>Searching the compressed tree\<close>

text \<open>The loop over the items of a node: whether to go on, the address behind them, the state.\<close>

fun search_items ::
  "u8 list \<Rightarrow> baseSeries \<Rightarrow> Rect \<Rightarrow> 's iter \<Rightarrow> nat \<Rightarrow> int \<Rightarrow> u64 \<Rightarrow> 's \<Rightarrow> (bool \<times> int \<times> 's) res"
where
  "search_items data series rect iter 0 addr prev s = Inr (True, addr, s)"
| "search_items data series rect iter (Suc n) addr prev s =
     rbind (readUvarint data addr) (\<lambda>(item, addr).
       let item = item + prev
       in rbind (series_SegmentAt series (sint item)) (\<lambda>seg.
            if rect_IntersectsRect (seg_Rect seg) rect
            then rbind (iter seg (sint item) s) (\<lambda>(continue, s).
                   if \<not> continue then Inr (False, addr, s)
                   else search_items data series rect iter n addr item s)
            else search_items data series rect iter n addr item s))"

text \<open>
  The recursion over the bytes. A child lies behind its parent's header in bytes that \<open>compress\<close>
  wrote, so the nesting is below the number of bytes; that number is the fuel. On other bytes,
  where an address can move backwards, the recursion of the code may not end.
\<close>

function (sequential)
  qCompressSearch ::
    "nat \<Rightarrow> u8 list \<Rightarrow> int \<Rightarrow> baseSeries \<Rightarrow> Rect \<Rightarrow> Rect \<Rightarrow> 's iter \<Rightarrow> 's \<Rightarrow> (bool \<times> 's) res" and
  search_quads ::
    "nat \<Rightarrow> u8 list \<Rightarrow> int \<Rightarrow> baseSeries \<Rightarrow> Rect \<Rightarrow> Rect \<Rightarrow> 's iter \<Rightarrow> int list \<Rightarrow> 's \<Rightarrow> (bool \<times> 's) res"
where
  "qCompressSearch 0 data addr series bounds rect iter s = Inl Diverges"
| "qCompressSearch (Suc fuel) data addr series bounds rect iter s =
     rbind (readUvarint data addr) (\<lambda>(nitems, addr).
     rbind (search_items data series rect iter (unat nitems) addr 0 s) (\<lambda>(continue, addr, s).
       if \<not> continue then Inr (False, s)
       else rbind (index_at data addr) (\<lambda>b.
              if b = 1
              then search_quads fuel data (addr + 1) series bounds rect iter [0, 1, 2, 3] s
              else Inr (True, s))))"
| "search_quads fuel data addr series bounds rect iter [] s = Inr (True, s)"
| "search_quads fuel data addr series bounds rect iter (q # qs) s =
     rbind (readUvarint data addr) (\<lambda>(item, addr).
       if item = 0 then search_quads fuel data addr series bounds rect iter qs s
       else let qsize = item; qbounds = quadBounds bounds q
            in if rect_IntersectsRect qbounds rect
               then rbind (qCompressSearch fuel data addr series qbounds rect iter s)
                      (\<lambda>(continue, s).
                        if \<not> continue then Inr (False, s)
                        else search_quads fuel data (go_int (addr + sint qsize))
                               series bounds rect iter qs s)
               else search_quads fuel data (go_int (addr + sint qsize))
                      series bounds rect iter qs s)"
  by pat_completeness auto
termination
  by (relation "measures
      [\<lambda>r. case r of Inl (f, _) \<Rightarrow> f | Inr (f, _) \<Rightarrow> f,
       \<lambda>r. case r of Inl _ \<Rightarrow> 0 | Inr (f, d, a, se, b, re, it, qs, s) \<Rightarrow> Suc (length qs)]") auto

section \<open>The nearest segment\<close>

text \<open>
  One round of the outer loop of \<open>qCompressNearbySegment\<close> up to the inner loop: the nearest of the
  node's own segments and its non-empty quads are pushed. The pool only recycles the queue's
  memory, and the queue it hands out is emptied first.
\<close>

fun nearby_items ::
  "u8 list \<Rightarrow> baseSeries \<Rightarrow> (Segment \<Rightarrow> f64) \<Rightarrow> nat \<Rightarrow> int \<Rightarrow> u64 \<Rightarrow> qnode option \<Rightarrow>
    (qnode option \<times> int) res"
where
  "nearby_items data series distToSegment 0 addr prev near = Inr (near, addr)"
| "nearby_items data series distToSegment (Suc n) addr prev near =
     rbind (readUvarint data addr) (\<lambda>(item, addr).
       let item = item + prev
       in rbind (series_SegmentAt series (sint item)) (\<lambda>seg.
            let dist = distToSegment seg;
                better = (case near of None \<Rightarrow> True | Some nearSeg \<Rightarrow> dist < q_dist nearSeg);
                near = (if better
                        then Some \<lparr>q_dist = dist, q_kind = qseg, q_pos = sint item,
                                   q_a = SegA seg, q_b = SegB seg\<rparr>
                        else near)
            in nearby_items data series distToSegment n addr item near))"

fun nearby_quads ::
  "u8 list \<Rightarrow> Rect \<Rightarrow> (Rect \<Rightarrow> f64) \<Rightarrow> int list \<Rightarrow> int \<Rightarrow> queue \<Rightarrow> queue res"
where
  "nearby_quads data bounds distToRect [] addr q = Inr q"
| "nearby_quads data bounds distToRect (i # is) addr q =
     rbind (readUvarint data addr) (\<lambda>(item, addr).
       if item = 0 then nearby_quads data bounds distToRect is addr q
       else let qsize = item; qbounds = quadBounds bounds i; dist = distToRect qbounds;
                q = queue_push q \<lparr>q_dist = dist, q_kind = qrect, q_pos = addr,
                                  q_a = RMin qbounds, q_b = RMax qbounds\<rparr>
            in nearby_quads data bounds distToRect is (go_int (addr + sint qsize)) q)"

definition nearby_visit ::
  "u8 list \<Rightarrow> baseSeries \<Rightarrow> (Rect \<Rightarrow> f64) \<Rightarrow> (Segment \<Rightarrow> f64) \<Rightarrow> int \<Rightarrow> Rect \<Rightarrow> queue \<Rightarrow> queue res"
where
  "nearby_visit data series distToRect distToSegment addr bounds q =
     rbind (readUvarint data addr) (\<lambda>(nitems, addr).
     rbind (nearby_items data series distToSegment (unat nitems) addr 0 None) (\<lambda>(near, addr).
       let q = (case near of None \<Rightarrow> q | Some nearSeg \<Rightarrow> queue_push q nearSeg)
       in rbind (index_at data addr) (\<lambda>b.
            if b = 1 then nearby_quads data bounds distToRect [0, 1, 2, 3] (addr + 1) q
            else Inr q)))"

partial_function (option) nearby_loop ::
  "u8 list \<Rightarrow> baseSeries \<Rightarrow> (Rect \<Rightarrow> f64) \<Rightarrow> (Segment \<Rightarrow> f64) \<Rightarrow> int \<Rightarrow> Rect \<Rightarrow> queue \<Rightarrow>
    (Segment \<times> int \<times> f64) res option"
where
  "nearby_loop data series distToRect distToSegment addr bounds q =
     (case nearby_visit data series distToRect distToSegment addr bounds q of
        Inl e \<Rightarrow> Some (Inl e)
      | Inr q \<Rightarrow>
          (case queue_pop q of (q, popped) \<Rightarrow>
            (case popped of
               None \<Rightarrow> Some (Inr (zero_segment, - 1, f_nan))
             | Some node \<Rightarrow>
                 (case q_kind node of
                    qseg \<Rightarrow> Some (Inr (mk_segment (q_a node) (q_b node), q_pos node, q_dist node))
                  | qrect \<Rightarrow> nearby_loop data series distToRect distToSegment
                               (q_pos node) (mk_rect (q_a node) (q_b node)) q))))"

definition qCompressNearbySegment ::
  "u8 list \<Rightarrow> int \<Rightarrow> baseSeries \<Rightarrow> Rect \<Rightarrow> (Rect \<Rightarrow> f64) \<Rightarrow> (Segment \<Rightarrow> f64) \<Rightarrow>
    (Segment \<times> int \<times> f64) res"
where
  "qCompressNearbySegment data addr series bounds distToRect distToSegment =
     of_option (nearby_loop data series distToRect distToSegment addr bounds [])"

end
