(* ===== verification/Indexed_Series.thy ===== *)
theory Indexed_Series
  imports Quadtree
begin

text \<open>
  The part of series.go that builds and uses the index, and the \<open>Series\<close> interface with its two
  implementations of the package: a pointer to a \<open>baseSeries\<close> and a \<open>Rect\<close>.
\<close>

section \<open>Building the index\<close>

definition series_setCompressed :: "baseSeries \<Rightarrow> u8 list \<Rightarrow> baseSeries res" where
  "series_setCompressed series data =
     rbind (put_uint32_at1 data (word_of_nat (length data))) (\<lambda>data.
       Inr (series\<lparr>bs_index := Some data\<rparr>))"

text \<open>The loop of \<open>buildIndex\<close> that inserts the segments \<open>is\<close>.\<close>

fun insert_segments :: "baseSeries \<Rightarrow> int list \<Rightarrow> qNode \<Rightarrow> qNode res" where
  "insert_segments series [] node = Inr node"
| "insert_segments series (i # is) node =
     rbind (series_SegmentAt series i) (\<lambda>seg.
     rbind (qinsert series node (bs_rect series) (seg_Rect seg) i 0) (\<lambda>node.
       insert_segments series is node))"

definition series_buildIndex :: "baseSeries \<Rightarrow> baseSeries res" where
  "series_buildIndex series =
     (if bs_index series \<noteq> None then Inr series
      else rbind (insert_segments series [0..series_NumSegments series - 1] new_qNode) (\<lambda>node.
             series_setCompressed series (compress node [bs_indexKind series, 0, 0, 0, 0])))"

text \<open>
  \<open>makeSeries\<close>. Lists are values, so a copy of the points and the points themselves are the same
  here; \<open>copyPoints\<close> only decides whether the series shares the slice of the caller.
\<close>

definition makeSeries :: "Point list \<Rightarrow> bool \<Rightarrow> bool \<Rightarrow> IndexOptions option \<Rightarrow> baseSeries res" where
  "makeSeries points copyPoints is_closed opts =
     (let opts = (case opts of None \<Rightarrow> DefaultIndexOptions | Some opts \<Rightarrow> opts);
          series = zero_series\<lparr>bs_closed := is_closed\<rparr>;
          series = (if copyPoints then series\<lparr>bs_points := points\<rparr>
                    else series\<lparr>bs_points := points\<rparr>);
          (convex, rect, clockwise) = processPoints points is_closed;
          series = series\<lparr>bs_convex := convex, bs_rect := rect, bs_clockwise := clockwise\<rparr>
      in if MinPoints opts \<noteq> 0 \<and> int (length points) \<ge> MinPoints opts
         then series_buildIndex (series\<lparr>bs_indexKind := Kind opts\<rparr>)
         else Inr series)"

definition series_Move :: "baseSeries \<Rightarrow> f64 \<Rightarrow> f64 \<Rightarrow> baseSeries res" where
  "series_Move series deltaX deltaY =
     (let points = map (\<lambda>p. mk_point (X p + deltaX) (Y p + deltaY)) (bs_points series)
      in rbind (makeSeries points False (bs_closed series) None) (\<lambda>nseries.
           let nseries = nseries\<lparr>bs_indexKind := bs_indexKind series\<rparr>
           in if length (series_Index series) > 0 then series_buildIndex nseries
              else Inr nseries))"

section \<open>Searching\<close>

definition series_Search :: "baseSeries \<Rightarrow> Rect \<Rightarrow> 's iter \<Rightarrow> 's \<Rightarrow> 's res" where
  "series_Search series rect iter s =
     (if length (series_Index series) = 0
      then linear_search (series_SegmentAt series) rect iter [0..series_NumSegments series - 1] s
      else let data = series_Index series
           in rbind (uint32_at1 data) (\<lambda>n.
              rbind (slice_to data (unat n)) (\<lambda>data.
              rbind (qCompressSearch (length data) data 5 series (bs_rect series) rect iter s)
                (\<lambda>(_, s). Inr s))))"

section \<open>The interface\<close>

datatype Series = BaseSeries baseSeries | RectSeries Rect

fun sRect :: "Series \<Rightarrow> Rect" where
  "sRect (BaseSeries bs) = series_Rect bs"
| "sRect (RectSeries r) = rect_Rect r"

fun sEmpty :: "Series \<Rightarrow> bool" where
  "sEmpty (BaseSeries bs) = series_Empty (Some bs)"
| "sEmpty (RectSeries r) = rect_Empty r"

fun sConvex :: "Series \<Rightarrow> bool" where
  "sConvex (BaseSeries bs) = series_Convex bs"
| "sConvex (RectSeries r) = rect_Convex r"

fun sClockwise :: "Series \<Rightarrow> bool" where
  "sClockwise (BaseSeries bs) = series_Clockwise bs"
| "sClockwise (RectSeries r) = rect_Clockwise r"

fun sNumPoints :: "Series \<Rightarrow> int" where
  "sNumPoints (BaseSeries bs) = series_NumPoints bs"
| "sNumPoints (RectSeries r) = rect_NumPoints r"

fun sNumSegments :: "Series \<Rightarrow> int" where
  "sNumSegments (BaseSeries bs) = series_NumSegments bs"
| "sNumSegments (RectSeries r) = rect_NumSegments r"

fun sPointAt :: "Series \<Rightarrow> int \<Rightarrow> Point res" where
  "sPointAt (BaseSeries bs) index = series_PointAt bs index"
| "sPointAt (RectSeries r) index = rect_PointAt r index"

fun sSegmentAt :: "Series \<Rightarrow> int \<Rightarrow> Segment res" where
  "sSegmentAt (BaseSeries bs) index = series_SegmentAt bs index"
| "sSegmentAt (RectSeries r) index = rect_SegmentAt r index"

fun sIndex :: "Series \<Rightarrow> u8 list" where
  "sIndex (BaseSeries bs) = series_Index bs"
| "sIndex (RectSeries r) = rect_Index r"

fun sRawPoints :: "Series \<Rightarrow> Point list" where
  "sRawPoints (BaseSeries bs) = series_RawPoints bs"
| "sRawPoints (RectSeries r) = rect_RawPoints r"

fun sClosed :: "Series \<Rightarrow> bool" where
  "sClosed (BaseSeries bs) = series_Closed bs"
| "sClosed (RectSeries r) = rect_Closed r"

fun sSearch :: "Series \<Rightarrow> Rect \<Rightarrow> 's iter \<Rightarrow> 's \<Rightarrow> 's res" where
  "sSearch (BaseSeries bs) rect iter s = series_Search bs rect iter s"
| "sSearch (RectSeries r) rect iter s = rect_Search r rect iter s"

text \<open>\<open>seriesCopyPoints\<close> reads the points one by one through the interface.\<close>

fun collect :: "(int \<Rightarrow> 'a res) \<Rightarrow> int list \<Rightarrow> 'a list res" where
  "collect f [] = Inr []"
| "collect f (i # is) = rbind (f i) (\<lambda>x. rbind (collect f is) (\<lambda>xs. Inr (x # xs)))"

definition seriesCopyPoints :: "Series \<Rightarrow> Point list res" where
  "seriesCopyPoints series = collect (sPointAt series) [0..sNumPoints series - 1]"

section \<open>Distances\<close>

text \<open>
  \<open>DistanceToSeries\<close>. The loop of the branch without an index keeps the nearest segment and its
  distance; it does not touch \<open>idx\<close>.
\<close>

fun nearest_loop ::
  "Series \<Rightarrow> (Segment \<Rightarrow> f64) \<Rightarrow> int list \<Rightarrow> Segment \<times> f64 \<Rightarrow> (Segment \<times> f64) res"
where
  "nearest_loop series distToSegment [] st = Inr st"
| "nearest_loop series distToSegment (i # is) (seg, best) =
     rbind (sSegmentAt series i) (\<lambda>sseg.
       let sdist = distToSegment sseg
       in if i = 0 \<or> sdist < best
          then nearest_loop series distToSegment is (sseg, sdist)
          else nearest_loop series distToSegment is (seg, best))"

definition DistanceToSeries ::
  "Series \<Rightarrow> (Rect \<Rightarrow> f64) \<Rightarrow> (Segment \<Rightarrow> f64) \<Rightarrow> (Segment \<times> int \<times> f64) res"
where
  "DistanceToSeries series distToRect distToSegment =
     (let seg = zero_segment; idx = 0; dist = f_nan; index = sIndex series;
          linear = rbind (nearest_loop series distToSegment [0..sNumSegments series - 1] (seg, dist))
                     (\<lambda>(seg, dist). Inr (seg, idx, dist))
      in case series of
           RectSeries r \<Rightarrow> linear
         | BaseSeries base \<Rightarrow>
             if length index = 0 then linear
             else rbind (uint32_at1 index) (\<lambda>n.
                  rbind (slice_to index (unat n)) (\<lambda>data.
                    qCompressNearbySegment data 5 base (bs_rect base) distToRect distToSegment)))"

end
