(* ===== verification/Ring.thy ===== *)
theory Ring
  imports Indexed_Series
begin

text \<open>
  ring.go: closed series as rings, with the point, segment, ring and line predicates. The
  variables that a search callback assigns are the state of the search.
\<close>

definition complexRingMinPoints :: int where
  "complexRingMinPoints = 16"

type_synonym Ring = Series
type_synonym Line = baseSeries

definition newRing :: "Point list \<Rightarrow> IndexOptions option \<Rightarrow> Ring res" where
  "newRing points opts = rbind (makeSeries points True True opts) (\<lambda>series. Inr (BaseSeries series))"

section \<open>Points\<close>

record ringResult =
  hit :: bool
  rr_idx :: int

text \<open>The callback of \<open>ringContainsPoint\<close>; its state is \<open>(idx, in)\<close>.\<close>

definition containsPointSearcher :: "Point \<Rightarrow> bool \<Rightarrow> (int \<times> bool) iter" where
  "containsPointSearcher point allowOnEdge seg index = (\<lambda>(idx, inside).
     rbind (seg_Raycast seg point) (\<lambda>res.
       if On res then Inr (False, (index, allowOnEdge))
       else if In res then Inr (True, (idx, \<not> inside))
       else Inr (True, (idx, inside))))"

definition ringContainsPointBaseSeries ::
  "Rect \<Rightarrow> baseSeries \<Rightarrow> Point \<Rightarrow> bool \<Rightarrow> (bool \<times> int) res"
where
  "ringContainsPointBaseSeries rect ring point allowOnEdge =
     rbind (series_Search ring rect (containsPointSearcher point allowOnEdge) (- 1, False))
       (\<lambda>(idx, inside). Inr (inside, idx))"

definition ringContainsPointGeneric :: "Rect \<Rightarrow> Ring \<Rightarrow> Point \<Rightarrow> bool \<Rightarrow> (bool \<times> int) res" where
  "ringContainsPointGeneric rect ring point allowOnEdge =
     rbind (sSearch ring rect (containsPointSearcher point allowOnEdge) (- 1, False))
       (\<lambda>(idx, inside). Inr (inside, idx))"

text \<open>The horizontal line through a point, as a rectangle of infinite width.\<close>

definition ray_rect :: "Point \<Rightarrow> Rect" where
  "ray_rect point = mk_rect (mk_point (f_inf True) (Y point)) (mk_point (f_inf False) (Y point))"

definition ringContainsPoint :: "Ring \<Rightarrow> Point \<Rightarrow> bool \<Rightarrow> ringResult res" where
  "ringContainsPoint ring point allowOnEdge =
     rbind (case ring of
              BaseSeries bs \<Rightarrow> ringContainsPointBaseSeries (ray_rect point) bs point allowOnEdge
            | RectSeries r \<Rightarrow> ringContainsPointGeneric (ray_rect point) ring point allowOnEdge)
       (\<lambda>(inside, idx). Inr \<lparr>hit = inside, rr_idx = idx\<rparr>)"

definition ringIntersectsPoint :: "Ring \<Rightarrow> Point \<Rightarrow> bool \<Rightarrow> ringResult res" where
  "ringIntersectsPoint ring point allowOnEdge = ringContainsPoint ring point allowOnEdge"

section \<open>Segments\<close>

text \<open>
  The callbacks of \<open>ringContainsSegment\<close>: each stops at the first ring segment \<open>seg2\<close> that
  meets \<open>seg\<close> and passes a further test, and records that in \<open>intersects\<close>.
\<close>

definition crossing_searcher :: "Segment \<Rightarrow> (Segment \<Rightarrow> bool res) \<Rightarrow> bool iter" where
  "crossing_searcher seg test seg2 index intersects =
     rbind (seg_IntersectsSegment seg seg2) (\<lambda>meets.
       if meets
       then rbind (test seg2) (\<lambda>b. if b then Inr (False, True) else Inr (True, intersects))
       else Inr (True, intersects))"

text \<open>Neither of the points lies on the segment; the second is looked at only if needed.\<close>

definition off_segment :: "Segment \<Rightarrow> Point list \<Rightarrow> bool res" where
  "off_segment seg points = allM (\<lambda>p. rbind (seg_Raycast seg p) (\<lambda>r. Inr (\<not> On r))) points"

definition no_crossing :: "Ring \<Rightarrow> Segment \<Rightarrow> (Segment \<Rightarrow> bool res) \<Rightarrow> bool res" where
  "no_crossing ring seg test =
     rbind (sSearch ring (seg_Rect seg) (crossing_searcher seg test) False)
       (\<lambda>intersects. Inr (\<not> intersects))"

text \<open>The sign of the area under the closed path through the five points of case (1).\<close>

definition path_clockwise :: "Point list \<Rightarrow> bool" where
  "path_clockwise pts =
     (let cwc = fold (\<lambda>i cwc. let a = pts ! i; b = pts ! (i + 1)
                               in cwc + (X b - X a) * (Y b + Y a)) [0..<length pts - 1] 0
      in cwc > 0)"

definition ringContainsSegment :: "Ring \<Rightarrow> Segment \<Rightarrow> bool \<Rightarrow> bool res" where
  "ringContainsSegment ring seg allowOnEdge =
     rbind (ringContainsPoint ring (SegA seg) allowOnEdge) (\<lambda>resA.
     if \<not> hit resA then Inr False
     else if point_eq (SegB seg) (SegA seg) then Inr True
     else rbind (ringContainsPoint ring (SegB seg) allowOnEdge) (\<lambda>resB.
     if \<not> hit resB then Inr False
     else if sConvex ring then Inr True
     else if allowOnEdge
     then (if rr_idx resA \<noteq> - 1
           then (if rr_idx resB \<noteq> - 1
                 then (if rr_idx resB = rr_idx resA then Inr True
                       else rbind (sSegmentAt ring (rr_idx resA)) (\<lambda>rSegA.
                            rbind (sSegmentAt ring (rr_idx resB)) (\<lambda>rSegB.
                              if point_eq (SegA rSegA) (SegA seg) \<or> point_eq (SegB rSegA) (SegA seg) \<or>
                                 point_eq (SegA rSegB) (SegA seg) \<or> point_eq (SegB rSegB) (SegA seg) \<or>
                                 point_eq (SegA rSegA) (SegB seg) \<or> point_eq (SegB rSegA) (SegB seg) \<or>
                                 point_eq (SegA rSegB) (SegB seg) \<or> point_eq (SegB rSegB) (SegB seg)
                              then Inr True
                              else
                                let (rSegA, rSegB) = (if rr_idx resB < rr_idx resA
                                                      then (rSegB, rSegA) else (rSegA, rSegB));
                                    clockwise = path_clockwise
                                      [SegA rSegA, SegB rSegA, SegA rSegB, SegB rSegB, SegA rSegA]
                                in if clockwise \<noteq> sClockwise ring then Inr False
                                   else no_crossing ring seg
                                          (\<lambda>seg2. off_segment seg2 [SegA seg, SegB seg]))))
                 else no_crossing ring seg (\<lambda>seg2. off_segment seg2 [SegA seg]))
           else if rr_idx resB \<noteq> - 1
           then no_crossing ring seg (\<lambda>seg2. off_segment seg2 [SegB seg])
           else no_crossing ring seg (\<lambda>seg2. off_segment seg [SegA seg2, SegB seg2]))
     else no_crossing ring seg (\<lambda>seg2. Inr True)))"

text \<open>The callback of \<open>ringIntersectsSegment\<close>; its state is \<open>(count, segAOn, segBOn)\<close>.\<close>

definition intersectsSegmentSearcher :: "Segment \<Rightarrow> bool \<Rightarrow> (int \<times> bool \<times> bool) iter" where
  "intersectsSegmentSearcher seg allowOnEdge seg2 index = (\<lambda>(count, segAOn, segBOn).
     rbind (seg_IntersectsSegment seg seg2) (\<lambda>meets.
       if meets
       then (if \<not> allowOnEdge
             then (if \<not> (seg_CollinearPoint seg (SegA seg2) \<and> seg_CollinearPoint seg (SegB seg2))
                   then (if \<not> segAOn \<and>
                            (point_eq (SegA seg) (SegA seg2) \<or> point_eq (SegA seg) (SegB seg2))
                         then Inr (True, (count, True, segBOn))
                         else if \<not> segBOn \<and>
                            (point_eq (SegB seg) (SegA seg2) \<or> point_eq (SegB seg) (SegB seg2))
                         then Inr (True, (count, segAOn, True))
                         else Inr (count + 1 < 2, (count + 1, segAOn, segBOn)))
                   else Inr (count < 2, (count, segAOn, segBOn)))
             else Inr (count + 1 < 2, (count + 1, segAOn, segBOn)))
       else Inr (count < 2, (count, segAOn, segBOn))))"

definition ringIntersectsSegment :: "Ring \<Rightarrow> Segment \<Rightarrow> bool \<Rightarrow> bool res" where
  "ringIntersectsSegment ring seg allowOnEdge =
     rbind (ringContainsPoint ring (SegA seg) allowOnEdge) (\<lambda>resA.
     if hit resA then Inr True
     else rbind (ringContainsPoint ring (SegB seg) allowOnEdge) (\<lambda>resB.
     if hit resB then Inr True
     else rbind (sSearch ring (seg_Rect seg) (intersectsSegmentSearcher seg allowOnEdge)
                   (0, False, False)) (\<lambda>(count, _, _). Inr (count \<ge> 2))))"

section \<open>Rings and lines\<close>

text \<open>The recursive call is on a rectangle, which has fewer points than a complex ring.\<close>

function ringContainsRing :: "Ring \<Rightarrow> Ring \<Rightarrow> bool \<Rightarrow> bool res" where
  "ringContainsRing ring other allowOnEdge =
     (if sEmpty ring \<or> sEmpty other then Inr False
      else rbind (if sNumPoints other \<ge> complexRingMinPoints
                  then ringContainsRing ring (RectSeries (sRect other)) allowOnEdge
                  else Inr False) (\<lambda>rect_inside.
        if rect_inside then Inr True
        else if \<not> rect_ContainsRect (sRect ring) (sRect other) then Inr False
        else if sConvex ring
        then allM (\<lambda>i. rbind (sPointAt other i) (\<lambda>p.
                    rbind (ringContainsPoint ring p allowOnEdge) (\<lambda>r. Inr (hit r))))
               [0..sNumPoints other - 1]
        else allM (\<lambda>i. rbind (sSegmentAt other i) (\<lambda>s. ringContainsSegment ring s allowOnEdge))
               [0..sNumSegments other - 1]))"
  by pat_completeness auto
termination
  by (relation "measure (\<lambda>(ring, other, e). if sNumPoints other \<ge> complexRingMinPoints then 1 else 0)")
    (auto simp: complexRingMinPoints_def rect_NumPoints_def)

declare ringContainsRing.simps [simp del]

definition ringIntersectsRing :: "Ring \<Rightarrow> Ring \<Rightarrow> bool \<Rightarrow> bool res" where
  "ringIntersectsRing ring other allowOnEdge =
     (if sEmpty ring \<or> sEmpty other then Inr False
      else if \<not> rect_IntersectsRect (sRect ring) (sRect other) then Inr False
      else let (ring, other) = (if rect_Area (sRect other) > rect_Area (sRect ring)
                                then (other, ring) else (ring, other))
           in exM (\<lambda>i. rbind (sSegmentAt other i) (\<lambda>s. ringIntersectsSegment ring s allowOnEdge))
                [0..sNumSegments other - 1])"

definition ringContainsLine :: "Ring \<Rightarrow> Line \<Rightarrow> bool \<Rightarrow> bool res" where
  "ringContainsLine ring line allowOnEdge = ringContainsRing ring (BaseSeries line) allowOnEdge"

definition ringIntersectsLine :: "Ring \<Rightarrow> Line \<Rightarrow> bool \<Rightarrow> bool res" where
  "ringIntersectsLine ring line allowOnEdge =
     (if sEmpty ring \<or> series_Empty (Some line) then Inr False
      else if \<not> rect_IntersectsRect (sRect ring) (series_Rect line) then Inr False
      else rbind (exM (\<lambda>i. rbind (series_PointAt line i) (\<lambda>p.
                         rbind (ringContainsPoint ring p allowOnEdge) (\<lambda>r. Inr (hit r))))
                    [0..series_NumPoints line - 1]) (\<lambda>found.
           if found then Inr True
           else exM (\<lambda>i. rbind (series_SegmentAt line i) (\<lambda>s.
                       ringIntersectsSegment ring s allowOnEdge))
                  [0..series_NumSegments line - 1]))"

end
