(* ===== verification/Polygon.thy ===== *)
theory Polygon
  imports Ring
begin

text \<open>
  line.go, poly.go, and the methods of \<open>Point\<close> and \<open>Rect\<close> that take lines and polygons
  (point.go, rect.go). A pointer that may be nil is an option. The exterior of a polygon may be a
  nil interface; its holes are taken to be non-nil, as \<open>NewPoly\<close> makes them.
\<close>

section \<open>Lines and polygons\<close>

record Poly =
  Exterior :: "Ring option"
  Holes :: "Ring list"

definition NewLine :: "Point list \<Rightarrow> IndexOptions option \<Rightarrow> Line res" where
  "NewLine points opts = makeSeries points True False opts"

fun newRings :: "Point list list \<Rightarrow> IndexOptions option \<Rightarrow> Ring list res" where
  "newRings [] opts = Inr []"
| "newRings (h # hs) opts = rbind (newRing h opts) (\<lambda>r. rbind (newRings hs opts) (\<lambda>rs. Inr (r # rs)))"

definition NewPoly :: "Point list \<Rightarrow> Point list list \<Rightarrow> IndexOptions option \<Rightarrow> Poly res" where
  "NewPoly exterior holes opts =
     rbind (newRing exterior opts) (\<lambda>ext.
     rbind (if length holes > 0 then newRings holes opts else Inr []) (\<lambda>hs.
       Inr \<lparr>Exterior = Some ext, Holes = hs\<rparr>))"

text \<open>The polygon \<open>&Poly{Exterior: rect}\<close> of a rectangle, and the polygon \<open>new(Poly)\<close>.\<close>

definition poly_of_rect :: "Rect \<Rightarrow> Poly" where
  "poly_of_rect rect = \<lparr>Exterior = Some (RectSeries rect), Holes = []\<rparr>"

definition empty_poly :: Poly where
  "empty_poly = \<lparr>Exterior = None, Holes = []\<rparr>"

definition poly_Clockwise :: "Poly option \<Rightarrow> bool" where
  "poly_Clockwise poly =
     (case poly of None \<Rightarrow> False
      | Some poly \<Rightarrow> (case Exterior poly of None \<Rightarrow> False | Some ext \<Rightarrow> sClockwise ext))"

definition poly_Empty :: "Poly option \<Rightarrow> bool" where
  "poly_Empty poly =
     (case poly of None \<Rightarrow> True
      | Some poly \<Rightarrow> (case Exterior poly of None \<Rightarrow> True | Some ext \<Rightarrow> sEmpty ext))"

definition poly_Rect :: "Poly option \<Rightarrow> Rect" where
  "poly_Rect poly =
     (case poly of None \<Rightarrow> zero_rect
      | Some poly \<Rightarrow> (case Exterior poly of None \<Rightarrow> zero_rect | Some ext \<Rightarrow> sRect ext))"

section \<open>Moving\<close>

definition line_Move :: "Line option \<Rightarrow> f64 \<Rightarrow> f64 \<Rightarrow> Line option res" where
  "line_Move line deltaX deltaY =
     (case line of None \<Rightarrow> Inr None
      | Some line \<Rightarrow> rbind (series_Move line deltaX deltaY) (\<lambda>nline. Inr (Some nline)))"

text \<open>The two branches for a ring of a polygon: a series is moved, any other ring becomes one.\<close>

definition move_ring :: "Ring \<Rightarrow> f64 \<Rightarrow> f64 \<Rightarrow> Ring res" where
  "move_ring ring deltaX deltaY =
     (case ring of
        BaseSeries series \<Rightarrow> rbind (series_Move series deltaX deltaY) (\<lambda>s. Inr (BaseSeries s))
      | RectSeries r \<Rightarrow>
          rbind (seriesCopyPoints ring) (\<lambda>points.
          rbind (makeSeries points False True (Some DefaultIndexOptions)) (\<lambda>nseries.
          rbind (series_Move nseries deltaX deltaY) (\<lambda>s. Inr (BaseSeries s)))))"

fun move_rings :: "Ring list \<Rightarrow> f64 \<Rightarrow> f64 \<Rightarrow> Ring list res" where
  "move_rings [] deltaX deltaY = Inr []"
| "move_rings (h # hs) deltaX deltaY =
     rbind (move_ring h deltaX deltaY) (\<lambda>r. rbind (move_rings hs deltaX deltaY) (\<lambda>rs. Inr (r # rs)))"

definition poly_Move :: "Poly option \<Rightarrow> f64 \<Rightarrow> f64 \<Rightarrow> Poly option res" where
  "poly_Move poly deltaX deltaY =
     (case poly of None \<Rightarrow> Inr None
      | Some poly \<Rightarrow>
          (case Exterior poly of None \<Rightarrow> Inr (Some empty_poly)
           | Some ext \<Rightarrow>
               rbind (move_ring ext deltaX deltaY) (\<lambda>next.
               rbind (if length (Holes poly) > 0 then move_rings (Holes poly) deltaX deltaY
                      else Inr []) (\<lambda>nholes.
                 Inr (Some \<lparr>Exterior = Some next, Holes = nholes\<rparr>)))))"

section \<open>Polygons and points\<close>

text \<open>The loop over the holes: the first that holds the point strictly inside.\<close>

fun hole_at :: "Ring list \<Rightarrow> Point \<Rightarrow> int \<Rightarrow> (bool \<times> int) res" where
  "hole_at [] point i = Inr (True, - 1)"
| "hole_at (hole # holes) point i =
     rbind (ringContainsPoint hole point False) (\<lambda>r.
       if hit r then Inr (False, i) else hole_at holes point (i + 1))"

definition poly_ContainsPointEx :: "Poly option \<Rightarrow> Point \<Rightarrow> (bool \<times> int) res" where
  "poly_ContainsPointEx poly point =
     (case poly of None \<Rightarrow> Inr (False, - 1)
      | Some poly \<Rightarrow>
          (case Exterior poly of None \<Rightarrow> Inr (False, - 1)
           | Some ext \<Rightarrow>
               rbind (ringContainsPoint ext point True) (\<lambda>r.
                 if \<not> hit r then Inr (False, - 1) else hole_at (Holes poly) point 0)))"

definition poly_ContainsPoint :: "Poly option \<Rightarrow> Point \<Rightarrow> bool res" where
  "poly_ContainsPoint poly point = rbind (poly_ContainsPointEx poly point) (\<lambda>(c, _). Inr c)"

definition poly_IntersectsPoint :: "Poly option \<Rightarrow> Point \<Rightarrow> bool res" where
  "poly_IntersectsPoint poly point =
     (case poly of None \<Rightarrow> Inr False | Some _ \<Rightarrow> poly_ContainsPoint poly point)"

section \<open>Polygons and lines\<close>

definition poly_ContainsLine :: "Poly option \<Rightarrow> Line option \<Rightarrow> bool res" where
  "poly_ContainsLine poly line =
     (case (poly, line) of
        (Some poly, Some line) \<Rightarrow>
          (case Exterior poly of None \<Rightarrow> Inr False
           | Some ext \<Rightarrow>
               rbind (ringContainsLine ext line True) (\<lambda>b.
                 if \<not> b then Inr False
                 else rbind (exM (\<lambda>hole. ringIntersectsLine hole line False) (Holes poly))
                        (\<lambda>found. Inr (\<not> found))))
      | _ \<Rightarrow> Inr False)"

definition poly_IntersectsLine :: "Poly option \<Rightarrow> Line option \<Rightarrow> bool res" where
  "poly_IntersectsLine poly line =
     (case (poly, line) of
        (Some poly, Some line) \<Rightarrow>
          (case Exterior poly of None \<Rightarrow> Inr False
           | Some ext \<Rightarrow>
               rbind (ringIntersectsLine ext line True) (\<lambda>b.
                 if b then rbind (exM (\<lambda>hole. ringContainsLine hole line False) (Holes poly))
                             (\<lambda>found. Inr (\<not> found))
                 else Inr False))
      | _ \<Rightarrow> Inr False)"

section \<open>Polygons and polygons\<close>

text \<open>
  The loop over the holes of the outer polygon in \<open>ContainsPoly\<close>: a hole that meets the other
  exterior must lie inside a hole of the other polygon.
\<close>

fun holes_clear :: "Ring list \<Rightarrow> Ring \<Rightarrow> Ring list \<Rightarrow> bool res" where
  "holes_clear [] otherExt otherHoles = Inr True"
| "holes_clear (polyHole # polyHoles) otherExt otherHoles =
     rbind (ringIntersectsRing polyHole otherExt False) (\<lambda>meets.
       if meets
       then rbind (exM (\<lambda>otherHole. ringContainsRing otherHole polyHole True) otherHoles) (\<lambda>found.
              if \<not> found then Inr False else holes_clear polyHoles otherExt otherHoles)
       else holes_clear polyHoles otherExt otherHoles)"

definition poly_ContainsPoly :: "Poly option \<Rightarrow> Poly option \<Rightarrow> bool res" where
  "poly_ContainsPoly poly other =
     (case (poly, other) of
        (Some poly, Some other) \<Rightarrow>
          (case (Exterior poly, Exterior other) of
             (Some ext, Some otherExt) \<Rightarrow>
               rbind (ringContainsRing ext otherExt True) (\<lambda>b.
                 if \<not> b then Inr False else holes_clear (Holes poly) otherExt (Holes other))
           | _ \<Rightarrow> Inr False)
      | _ \<Rightarrow> Inr False)"

definition poly_IntersectsPoly :: "Poly option \<Rightarrow> Poly option \<Rightarrow> bool res" where
  "poly_IntersectsPoly poly other =
     (case (poly, other) of
        (Some poly, Some other) \<Rightarrow>
          (case (Exterior poly, Exterior other) of
             (Some ext, Some otherExt) \<Rightarrow>
               rbind (ringIntersectsRing otherExt ext True) (\<lambda>b.
                 if \<not> b then Inr False
                 else rbind (exM (\<lambda>hole. ringContainsRing hole otherExt False) (Holes poly)) (\<lambda>f1.
                   if f1 then Inr False
                   else rbind (exM (\<lambda>hole. ringContainsRing hole ext False) (Holes other)) (\<lambda>f2.
                     Inr (\<not> f2))))
           | _ \<Rightarrow> Inr False)
      | _ \<Rightarrow> Inr False)"

definition poly_ContainsRect :: "Poly option \<Rightarrow> Rect \<Rightarrow> bool res" where
  "poly_ContainsRect poly rect =
     (case poly of None \<Rightarrow> Inr False | Some _ \<Rightarrow> poly_ContainsPoly poly (Some (poly_of_rect rect)))"

definition poly_IntersectsRect :: "Poly option \<Rightarrow> Rect \<Rightarrow> bool res" where
  "poly_IntersectsRect poly rect =
     (case poly of None \<Rightarrow> Inr False | Some _ \<Rightarrow> poly_IntersectsPoly poly (Some (poly_of_rect rect)))"

section \<open>Rectangles with lines and polygons\<close>

definition rect_ContainsLine :: "Rect \<Rightarrow> Line option \<Rightarrow> bool" where
  "rect_ContainsLine rect line =
     (case line of None \<Rightarrow> False
      | Some l \<Rightarrow> \<not> series_Empty line \<and> rect_ContainsRect rect (series_Rect l))"

definition rect_IntersectsLine :: "Rect \<Rightarrow> Line option \<Rightarrow> bool res" where
  "rect_IntersectsLine rect line =
     (case line of None \<Rightarrow> Inr False | Some l \<Rightarrow> ringIntersectsLine (RectSeries rect) l True)"

definition rect_ContainsPoly :: "Rect \<Rightarrow> Poly option \<Rightarrow> bool" where
  "rect_ContainsPoly rect poly =
     (case poly of None \<Rightarrow> False
      | Some _ \<Rightarrow> \<not> poly_Empty poly \<and> rect_ContainsRect rect (poly_Rect poly))"

definition rect_IntersectsPoly :: "Rect \<Rightarrow> Poly option \<Rightarrow> bool res" where
  "rect_IntersectsPoly rect poly =
     (case poly of None \<Rightarrow> Inr False | Some _ \<Rightarrow> poly_IntersectsRect poly rect)"

section \<open>Lines\<close>

definition line_Searcher :: "Point \<Rightarrow> bool iter" where
  "line_Searcher point seg index contains =
     rbind (seg_Raycast seg point) (\<lambda>r. if On r then Inr (False, True) else Inr (True, contains))"

definition line_ContainsPoint :: "Line option \<Rightarrow> Point \<Rightarrow> bool res" where
  "line_ContainsPoint line point =
     (case line of None \<Rightarrow> Inr False
      | Some l \<Rightarrow> series_Search l (mk_rect point point) (line_Searcher point) False)"

definition line_IntersectsPoint :: "Line option \<Rightarrow> Point \<Rightarrow> bool res" where
  "line_IntersectsPoint line point =
     (case line of None \<Rightarrow> Inr False | Some _ \<Rightarrow> line_ContainsPoint line point)"

definition line_IntersectsRect :: "Line option \<Rightarrow> Rect \<Rightarrow> bool res" where
  "line_IntersectsRect line rect =
     (case line of None \<Rightarrow> Inr False | Some _ \<Rightarrow> rect_IntersectsLine rect line)"

text \<open>
  \<open>Line.ContainsLine\<close>: the loop that finds the first segment of the line holding the first
  segment of the other, and the loop that follows the other line. The second moves back and
  forth along the line without a bound, so it is a partial function.
\<close>

fun first_containing :: "Line \<Rightarrow> Line \<Rightarrow> int list \<Rightarrow> int res" where
  "first_containing line other [] = Inr (- 1)"
| "first_containing line other (j # js) =
     rbind (series_SegmentAt line j) (\<lambda>lineSeg.
     rbind (series_SegmentAt other 0) (\<lambda>otherSeg.
     rbind (seg_ContainsSegment lineSeg otherSeg) (\<lambda>c.
       if c then Inr j else first_containing line other js)))"

definition follow_test :: "Line \<Rightarrow> Line \<Rightarrow> int \<Rightarrow> int \<Rightarrow> (Segment \<times> Segment \<times> bool) res" where
  "follow_test line other segIdx i =
     rbind (series_SegmentAt line segIdx) (\<lambda>lineSeg.
     rbind (series_SegmentAt other i) (\<lambda>otherSeg.
     rbind (seg_ContainsSegment lineSeg otherSeg) (\<lambda>c. Inr (lineSeg, otherSeg, c))))"

partial_function (option) follow_line :: "Line \<Rightarrow> Line \<Rightarrow> int \<Rightarrow> int \<Rightarrow> bool res option" where
  "follow_line line other i segIdx =
     (if i < series_NumSegments other
      then (case follow_test line other segIdx i of
              Inl e \<Rightarrow> Some (Inl e)
            | Inr (lineSeg, otherSeg, c) \<Rightarrow>
                if c then follow_line line other (i + 1) segIdx
                else if point_eq (SegA otherSeg) (SegA lineSeg)
                then (if segIdx = 0 then Some (Inr False)
                      else follow_line line other i (segIdx - 1))
                else if point_eq (SegA otherSeg) (SegB lineSeg)
                then (if segIdx = series_NumSegments line - 1 then Some (Inr False)
                      else follow_line line other i (segIdx + 1))
                else follow_line line other (i + 1) segIdx)
      else Some (Inr True))"

definition line_ContainsLine :: "Line option \<Rightarrow> Line option \<Rightarrow> bool res" where
  "line_ContainsLine line other =
     (case (line, other) of
        (Some l, Some o') \<Rightarrow>
          if series_Empty line \<or> series_Empty other then Inr False
          else rbind (first_containing l o' [0..series_NumSegments l - 1]) (\<lambda>segIdx.
                 if segIdx = - 1 then Inr False else of_option (follow_line l o' 1 segIdx))
      | _ \<Rightarrow> Inr False)"

definition lines_Searcher :: "Segment \<Rightarrow> bool iter" where
  "lines_Searcher segA segB index intersects =
     rbind (seg_IntersectsSegment segA segB) (\<lambda>b.
       if b then Inr (False, True) else Inr (True, intersects))"

definition line_IntersectsLine :: "Line option \<Rightarrow> Line option \<Rightarrow> bool res" where
  "line_IntersectsLine line other =
     (case (line, other) of
        (Some l, Some o') \<Rightarrow>
          if series_Empty line \<or> series_Empty other then Inr False
          else if \<not> rect_IntersectsRect (series_Rect l) (series_Rect o') then Inr False
          else let (l, o') = (if series_NumPoints l > series_NumPoints o' then (o', l) else (l, o'))
               in exM (\<lambda>i. rbind (series_SegmentAt l i) (\<lambda>segA.
                          series_Search o' (seg_Rect segA) (lines_Searcher segA) False))
                    [0..series_NumSegments l - 1]
      | _ \<Rightarrow> Inr False)"

definition line_ContainsPoly :: "Line option \<Rightarrow> Poly option \<Rightarrow> bool res" where
  "line_ContainsPoly line poly =
     (if line = None \<or> poly = None \<or> series_Empty line \<or> poly_Empty poly then Inr False
      else let rect = poly_Rect poly
           in if \<not> feq (X (RMin rect)) (X (RMax rect)) \<and> \<not> feq (Y (RMin rect)) (Y (RMax rect))
              then Inr False
              else let other = zero_series\<lparr>bs_points := [RMin rect, RMax rect], bs_rect := rect\<rparr>
                   in line_ContainsLine line (Some other))"

definition line_ContainsRect :: "Line option \<Rightarrow> Rect \<Rightarrow> bool res" where
  "line_ContainsRect line rect =
     (case line of None \<Rightarrow> Inr False | Some _ \<Rightarrow> line_ContainsPoly line (Some (poly_of_rect rect)))"

definition line_IntersectsPoly :: "Line option \<Rightarrow> Poly option \<Rightarrow> bool res" where
  "line_IntersectsPoly line poly = poly_IntersectsLine poly line"

section \<open>Points with lines and polygons\<close>

definition point_ContainsLine :: "Point \<Rightarrow> Line option \<Rightarrow> bool" where
  "point_ContainsLine point line =
     (case line of None \<Rightarrow> False
      | Some l \<Rightarrow> \<not> series_Empty line \<and> rect_eq (series_Rect l) (point_Rect point))"

definition point_IntersectsLine :: "Point \<Rightarrow> Line option \<Rightarrow> bool res" where
  "point_IntersectsLine point line =
     (case line of None \<Rightarrow> Inr False | Some _ \<Rightarrow> line_IntersectsPoint line point)"

definition point_ContainsPoly :: "Point \<Rightarrow> Poly option \<Rightarrow> bool" where
  "point_ContainsPoly point poly =
     (case poly of None \<Rightarrow> False
      | Some _ \<Rightarrow> \<not> poly_Empty poly \<and> rect_eq (poly_Rect poly) (point_Rect point))"

definition point_IntersectsPoly :: "Point \<Rightarrow> Poly option \<Rightarrow> bool res" where
  "point_IntersectsPoly point poly =
     (case poly of None \<Rightarrow> Inr False | Some _ \<Rightarrow> poly_IntersectsPoint poly point)"

section \<open>The interface\<close>

text \<open>\<open>Geometry\<close> (geometry.go) and the dispatch of its methods; lines and polygons are pointers.\<close>

datatype Geometry = GPoint Point | GRect Rect | GLine "Line option" | GPoly "Poly option"

text \<open>\<open>Rect\<close> and \<open>Empty\<close> of a line are methods of the embedded \<open>baseSeries\<close>, which a nil line does not have.\<close>

fun geom_Rect :: "Geometry \<Rightarrow> Rect res" where
  "geom_Rect (GPoint p) = Inr (point_Rect p)"
| "geom_Rect (GRect r) = Inr (rect_Rect r)"
| "geom_Rect (GLine None) = Inl NilDereference"
| "geom_Rect (GLine (Some l)) = Inr (series_Rect l)"
| "geom_Rect (GPoly p) = Inr (poly_Rect p)"

fun geom_Empty :: "Geometry \<Rightarrow> bool res" where
  "geom_Empty (GPoint p) = Inr (point_Empty p)"
| "geom_Empty (GRect r) = Inr (rect_Empty r)"
| "geom_Empty (GLine None) = Inl NilDereference"
| "geom_Empty (GLine (Some l)) = Inr (series_Empty (Some l))"
| "geom_Empty (GPoly p) = Inr (poly_Empty p)"

fun geom_ContainsPoint :: "Geometry \<Rightarrow> Point \<Rightarrow> bool res" where
  "geom_ContainsPoint (GPoint p) point = Inr (point_ContainsPoint p point)"
| "geom_ContainsPoint (GRect r) point = Inr (rect_ContainsPoint r point)"
| "geom_ContainsPoint (GLine l) point = line_ContainsPoint l point"
| "geom_ContainsPoint (GPoly p) point = poly_ContainsPoint p point"

fun geom_IntersectsPoint :: "Geometry \<Rightarrow> Point \<Rightarrow> bool res" where
  "geom_IntersectsPoint (GPoint p) point = Inr (point_IntersectsPoint p point)"
| "geom_IntersectsPoint (GRect r) point = Inr (rect_IntersectsPoint r point)"
| "geom_IntersectsPoint (GLine l) point = line_IntersectsPoint l point"
| "geom_IntersectsPoint (GPoly p) point = poly_IntersectsPoint p point"

fun geom_ContainsRect :: "Geometry \<Rightarrow> Rect \<Rightarrow> bool res" where
  "geom_ContainsRect (GPoint p) rect = Inr (point_ContainsRect p rect)"
| "geom_ContainsRect (GRect r) rect = Inr (rect_ContainsRect r rect)"
| "geom_ContainsRect (GLine l) rect = line_ContainsRect l rect"
| "geom_ContainsRect (GPoly p) rect = poly_ContainsRect p rect"

fun geom_IntersectsRect :: "Geometry \<Rightarrow> Rect \<Rightarrow> bool res" where
  "geom_IntersectsRect (GPoint p) rect = Inr (point_IntersectsRect p rect)"
| "geom_IntersectsRect (GRect r) rect = Inr (rect_IntersectsRect r rect)"
| "geom_IntersectsRect (GLine l) rect = line_IntersectsRect l rect"
| "geom_IntersectsRect (GPoly p) rect = poly_IntersectsRect p rect"

fun geom_ContainsLine :: "Geometry \<Rightarrow> Line option \<Rightarrow> bool res" where
  "geom_ContainsLine (GPoint p) line = Inr (point_ContainsLine p line)"
| "geom_ContainsLine (GRect r) line = Inr (rect_ContainsLine r line)"
| "geom_ContainsLine (GLine l) line = line_ContainsLine l line"
| "geom_ContainsLine (GPoly p) line = poly_ContainsLine p line"

fun geom_IntersectsLine :: "Geometry \<Rightarrow> Line option \<Rightarrow> bool res" where
  "geom_IntersectsLine (GPoint p) line = point_IntersectsLine p line"
| "geom_IntersectsLine (GRect r) line = rect_IntersectsLine r line"
| "geom_IntersectsLine (GLine l) line = line_IntersectsLine l line"
| "geom_IntersectsLine (GPoly p) line = poly_IntersectsLine p line"

fun geom_ContainsPoly :: "Geometry \<Rightarrow> Poly option \<Rightarrow> bool res" where
  "geom_ContainsPoly (GPoint p) poly = Inr (point_ContainsPoly p poly)"
| "geom_ContainsPoly (GRect r) poly = Inr (rect_ContainsPoly r poly)"
| "geom_ContainsPoly (GLine l) poly = line_ContainsPoly l poly"
| "geom_ContainsPoly (GPoly p) poly = poly_ContainsPoly p poly"

fun geom_IntersectsPoly :: "Geometry \<Rightarrow> Poly option \<Rightarrow> bool res" where
  "geom_IntersectsPoly (GPoint p) poly = point_IntersectsPoly p poly"
| "geom_IntersectsPoly (GRect r) poly = rect_IntersectsPoly r poly"
| "geom_IntersectsPoly (GLine l) poly = line_IntersectsPoly l poly"
| "geom_IntersectsPoly (GPoly p) poly = poly_IntersectsPoly p poly"

end
