(* ===== verification/Quadtree_Build.thy ===== *)
theory Quadtree_Build
  imports Indexed_Series
begin

text \<open>
  The quadtree while it is built: where an item may be placed, what a well-formed tree is, and that
  \<open>insert\<close> keeps a tree well-formed and adds exactly the item it is given.
\<close>

section \<open>Quadrants\<close>

text \<open>
  \<open>ContainsRect\<close> says that no coordinate of the inner rectangle lies outside of the outer one, so the
  NaN bounds which the midpoint of two infinities produces cover everything.
\<close>

abbreviation covers :: "Rect \<Rightarrow> Rect \<Rightarrow> bool" where
  "covers \<equiv> rect_ContainsRect"

lemma covers_alt:
  "covers b r \<longleftrightarrow> \<not> X (RMin b) > X (RMin r) \<and> \<not> Y (RMin b) > Y (RMin r) \<and>
     \<not> X (RMax r) > X (RMax b) \<and> \<not> Y (RMax r) > Y (RMax b)"
  by (auto simp: rect_ContainsRect_def)

lemma covers_intersects:
  assumes "covers b r" "rect_ok r" "rect_IntersectsRect r t"
  shows "rect_IntersectsRect b t"
  using assms by (auto simp: covers_alt rect_ok_def rect_IntersectsRect_alt f64_order)

lemma chooseQuad_cases:
  assumes "chooseQuad b r = q" "q \<noteq> - 1"
  shows "q = 0 \<or> q = 1 \<or> q = 2 \<or> q = 3"
  using assms by (auto simp: chooseQuad_def Let_def split: if_splits)

lemma chooseQuad_covers:
  assumes "covers b r" "rect_ok r" "chooseQuad b r = q" "q \<noteq> - 1"
  shows "covers (quadBounds b q) r"
proof -
  let ?mx = "(X (RMin b) + X (RMax b)) / f_two" and ?my = "(Y (RMin b) + Y (RMax b)) / f_two"
  consider "q = 0" "X (RMax r) < ?mx" "\<not> Y (RMin r) < ?my"
    | "q = 1" "\<not> X (RMin r) < ?mx" "\<not> Y (RMin r) < ?my"
    | "q = 2" "X (RMax r) < ?mx" "Y (RMax r) < ?my"
    | "q = 3" "\<not> X (RMin r) < ?mx" "Y (RMax r) < ?my"
    using assms(3,4) by (auto simp: chooseQuad_def Let_def split: if_splits)
  then show ?thesis
    using assms(1,2) by cases (auto simp: covers_alt quadBounds_def Let_def f64_order)
qed

section \<open>The items of a tree\<close>

function (sequential)
  tree_items :: "qNode \<Rightarrow> int multiset" and
  quads_items :: "qNode option list \<Rightarrow> int multiset"
where
  "tree_items (QNode split items quads) = mset items + quads_items quads"
| "quads_items [] = {#}"
| "quads_items (None # quads) = quads_items quads"
| "quads_items (Some n # quads) = tree_items n + quads_items quads"
  by pat_completeness auto
termination
  by (relation "measure (\<lambda>r. case r of Inl n \<Rightarrow> size n | Inr qs \<Rightarrow> size_list (size_option size) qs)") auto

definition quad_items :: "qNode option \<Rightarrow> int multiset" where
  "quad_items o' = (case o' of None \<Rightarrow> {#} | Some n \<Rightarrow> tree_items n)"

lemma quads_items_Cons: "quads_items (q # qs) = quad_items q + quads_items qs"
  by (cases q) (simp_all add: quad_items_def)

lemma quads_items_update:
  "k < length qs \<Longrightarrow> quads_items (qs[k := q]) + quad_items (qs ! k) = quads_items qs + quad_items q"
  by (induction qs arbitrary: k)
    (auto simp: quads_items_Cons nth_Cons' less_Suc_eq_0_disj add_ac split: nat.splits)

text \<open>
  \<open>tree_ok ok rect b n\<close>: the items of \<open>n\<close> satisfy \<open>ok\<close>, every node has four quads, all of them
  empty unless the node is split, and every item lies in the bounds of its node and of the nodes
  above, where \<open>b\<close> are
  the bounds of the root and \<open>rect\<close> gives the rectangle of an item.
\<close>

inductive tree_ok :: "(int \<Rightarrow> bool) \<Rightarrow> (int \<Rightarrow> Rect) \<Rightarrow> Rect \<Rightarrow> qNode \<Rightarrow> bool"
  for ok :: "int \<Rightarrow> bool" and rect :: "int \<Rightarrow> Rect" where
  node: "length quads = 4 \<Longrightarrow> (\<not> split \<Longrightarrow> quads = [None, None, None, None]) \<Longrightarrow>
    (\<forall>i \<in> set items. ok i \<and> covers b (rect i)) \<Longrightarrow>
    (\<forall>i \<in># quads_items quads. ok i \<and> covers b (rect i)) \<Longrightarrow>
    (\<forall>q n. q < 4 \<longrightarrow> quads ! q = Some n \<longrightarrow> tree_ok ok rect (quadBounds b (int q)) n) \<Longrightarrow>
    tree_ok ok rect b (QNode split items quads)"

inductive_simps tree_ok_node: "tree_ok ok rect b (QNode split items quads)"

definition quads_ok :: "(int \<Rightarrow> bool) \<Rightarrow> (int \<Rightarrow> Rect) \<Rightarrow> Rect \<Rightarrow> qNode option list \<Rightarrow> bool" where
  "quads_ok ok rect b quads \<longleftrightarrow> length quads = 4 \<and>
     (\<forall>i \<in># quads_items quads. ok i \<and> covers b (rect i)) \<and>
     (\<forall>q n. q < 4 \<longrightarrow> quads ! q = Some n \<longrightarrow> tree_ok ok rect (quadBounds b (int q)) n)"

lemma tree_ok_simp:
  "tree_ok ok rect b (QNode split items quads) \<longleftrightarrow>
     quads_ok ok rect b quads \<and> (\<not> split \<longrightarrow> quads = [None, None, None, None]) \<and>
     (\<forall>i \<in> set items. ok i \<and> covers b (rect i))"
  by (auto simp: tree_ok_node quads_ok_def)

lemma quads_ok_empty: "quads_ok ok rect b [None, None, None, None]"
  by (auto simp: quads_ok_def nth_Cons' split: if_splits)

lemma new_qNode_ok: "tree_ok ok rect b new_qNode"
  by (simp add: new_qNode_def tree_ok_simp quads_ok_empty)

lemma new_qNode_items [simp]: "tree_items new_qNode = {#}"
  by (simp add: new_qNode_def)

lemma quads_ok_child:
  assumes "quads_ok ok rect b quads" "k < 4"
  shows "tree_ok ok rect (quadBounds b (int k)) (case quads ! k of None \<Rightarrow> new_qNode | Some n \<Rightarrow> n)"
  using assms by (auto simp: quads_ok_def new_qNode_ok split: option.split)

lemma quads_ok_update:
  assumes "quads_ok ok rect b quads" "k < 4" "tree_ok ok rect (quadBounds b (int k)) n"
    "quads_items (quads[k := Some n]) = add_mset i (quads_items quads)" "ok i" "covers b (rect i)"
  shows "quads_ok ok rect b (quads[k := Some n])"
  using assms by (auto simp: quads_ok_def nth_list_update split: if_splits)

section \<open>Insertion\<close>

text \<open>
  What an insertion returns: the same tree shape invariant and one more item. \<open>item_ok\<close> are the
  valid segment indices of the series.
\<close>

definition item_ok :: "baseSeries \<Rightarrow> int \<Rightarrow> bool" where
  "item_ok series i \<longleftrightarrow> (\<exists>seg. series_SegmentAt series i = Inr seg \<and> seg_ok seg)"

definition item_seg :: "baseSeries \<Rightarrow> int \<Rightarrow> Segment" where
  "item_seg series i = projr (series_SegmentAt series i)"

definition item_rect :: "baseSeries \<Rightarrow> int \<Rightarrow> Rect" where
  "item_rect series i = seg_Rect (item_seg series i)"

lemma item_okD:
  "item_ok series i \<Longrightarrow> series_SegmentAt series i = Inr (item_seg series i)"
  "item_ok series i \<Longrightarrow> seg_ok (item_seg series i)"
  "item_ok series i \<Longrightarrow> rect_ok (item_rect series i)"
  by (auto simp: item_ok_def item_seg_def item_rect_def seg_Rect_ok)

abbreviation stree_ok :: "baseSeries \<Rightarrow> Rect \<Rightarrow> qNode \<Rightarrow> bool" where
  "stree_ok series \<equiv> tree_ok (item_ok series) (item_rect series)"

abbreviation squads_ok :: "baseSeries \<Rightarrow> Rect \<Rightarrow> qNode option list \<Rightarrow> bool" where
  "squads_ok series \<equiv> quads_ok (item_ok series) (item_rect series)"

text \<open>
  \<open>inserts\<close>: an insertion into a node returns, keeps the invariant and adds the item. \<open>places\<close>: the same
  for the quad of a list that an item goes to, the step that \<open>insert\<close> and the loop in it share.
\<close>

abbreviation inserts :: "baseSeries \<Rightarrow> Rect \<Rightarrow> nat \<Rightarrow> int \<Rightarrow> qNode \<Rightarrow> bool" where
  "inserts series b d i n \<equiv> \<exists>n'. qinsert series n b (item_rect series i) i d = Inr n' \<and>
     stree_ok series b n' \<and> tree_items n' = add_mset i (tree_items n)"

abbreviation child_of :: "qNode option list \<Rightarrow> int \<Rightarrow> qNode" where
  "child_of quads q \<equiv> case quads ! nat q of None \<Rightarrow> new_qNode | Some n \<Rightarrow> n"

abbreviation places :: "baseSeries \<Rightarrow> Rect \<Rightarrow> nat \<Rightarrow> int \<Rightarrow> qNode option list \<Rightarrow> int \<Rightarrow> bool" where
  "places series b d i quads q \<equiv> \<exists>c.
     qinsert series (child_of quads q) (quadBounds b q) (item_rect series i) i (d + 1) = Inr c \<and>
     squads_ok series b (quads[nat q := Some c]) \<and>
     quads_items (quads[nat q := Some c]) = add_mset i (quads_items quads)"

abbreviation items_in :: "baseSeries \<Rightarrow> Rect \<Rightarrow> int list \<Rightarrow> bool" where
  "items_in series b is \<equiv> \<forall>i \<in> set is. item_ok series i \<and> covers b (item_rect series i)"

lemma place_in_quad:
  assumes q: "chooseQuad b (item_rect series i) = q" "q \<noteq> - 1"
    and ok: "squads_ok series b quads" "item_ok series i" "covers b (item_rect series i)"
    and ins: "stree_ok series (quadBounds b q) (child_of quads q) \<Longrightarrow>
      covers (quadBounds b q) (item_rect series i) \<Longrightarrow> inserts series (quadBounds b q) (d + 1) i (child_of quads q)"
  shows "places series b d i quads q"
proof -
  let ?c = "child_of quads q"
  have k: "nat q < 4" "int (nat q) = q" using chooseQuad_cases [OF q] by auto
  have "stree_ok series (quadBounds b q) ?c" using quads_ok_child [OF ok(1) k(1)] k(2) by simp
  moreover have "covers (quadBounds b q) (item_rect series i)"
    using chooseQuad_covers [OF ok(3) item_okD(3) [OF ok(2)] q] .
  ultimately obtain c' where c': "qinsert series ?c (quadBounds b q) (item_rect series i) i (d + 1) = Inr c'"
      "stree_ok series (quadBounds b q) c'" "tree_items c' = add_mset i (tree_items ?c)"
    using ins by blast
  have "nat q < length quads" using k ok(1) by (simp add: quads_ok_def)
  then have "quads_items (quads[nat q := Some c']) + quad_items (quads ! nat q)
      = quads_items quads + tree_items c'"
    using quads_items_update [of "nat q" quads "Some c'"] by (simp add: quad_items_def)
  moreover have "tree_items ?c = quad_items (quads ! nat q)"
    by (simp add: quad_items_def split: option.split)
  ultimately have "quads_items (quads[nat q := Some c']) = add_mset i (quads_items quads)"
    using c'(3) by simp
  then show ?thesis
    using c'(1) quads_ok_update [OF ok(1) k(1), of c' i] c'(2) k(2) ok(2,3) by auto
qed

text \<open>One call of \<open>insert\<close>, given that the calls in it do what they should.\<close>

lemma qinsert_node:
  assumes ok: "stree_ok series b (QNode split items quads)" "item_ok series i" "covers b (item_rect series i)"
    and d: "d \<le> qMaxDepth"
    and quad: "d < qMaxDepth \<Longrightarrow> split \<Longrightarrow> chooseQuad b (item_rect series i) \<noteq> - 1 \<Longrightarrow>
      places series b d i quads (chooseQuad b (item_rect series i))"
    and full: "d < qMaxDepth \<Longrightarrow> \<not> split \<Longrightarrow> length items = qMaxItems \<Longrightarrow>
      \<exists>quads' nitems'. redistribute series items b d quads [] = Inr (quads', nitems') \<and>
        inserts series b d i (QNode True nitems' quads') \<and>
        mset nitems' + quads_items quads' = mset items + quads_items quads"
  shows "inserts series b d i (QNode split items quads)"
proof -
  have app: "stree_ok series b (QNode split (items @ [i]) quads)" using ok by (auto simp: tree_ok_simp)
  consider (stay) "d = qMaxDepth \<or> (if split then chooseQuad b (item_rect series i) = - 1 else length items \<noteq> qMaxItems)"
    | (quad) "d < qMaxDepth" "split" "chooseQuad b (item_rect series i) \<noteq> - 1"
    | (full) "d < qMaxDepth" "\<not> split" "length items = qMaxItems"
    using d by (cases "d = qMaxDepth"; cases "split"; force)
  then show ?thesis
  proof cases
    case stay
    then show ?thesis using app d by (auto simp: Let_def)
  next
    case quad
    then show ?thesis using assms(5) [OF quad] ok by (auto simp: tree_ok_simp Let_def)
  next
    case full
    then show ?thesis using assms(6) [OF full] by (auto simp: add_ac)
  qed
qed

lemma qinsert_redistribute:
  "stree_ok series b n \<Longrightarrow> d \<le> qMaxDepth \<Longrightarrow> item_ok series i \<Longrightarrow> r = item_rect series i \<Longrightarrow>
     covers b r \<Longrightarrow> \<exists>n'. qinsert series n b r i d = Inr n' \<and> stree_ok series b n' \<and> tree_items n' = add_mset i (tree_items n)"
  "squads_ok series b quads \<Longrightarrow> d < qMaxDepth \<Longrightarrow> items_in series b items \<Longrightarrow> items_in series b nitems \<Longrightarrow>
     \<exists>quads' nitems'. redistribute series items b d quads nitems = Inr (quads', nitems') \<and>
       squads_ok series b quads' \<and> items_in series b nitems' \<and>
       mset nitems' + quads_items quads' = mset items + mset nitems + quads_items quads"
proof (induction series n b r i d and series items b d quads nitems
    rule: qinsert_redistribute.induct)
  case (1 series split items quads b r i d)
  have ok: "squads_ok series b quads" "items_in series b items"
    using "1.prems"(1) by (auto simp: tree_ok_simp)
  have "inserts series b d i (QNode split items quads)"
  proof (rule qinsert_node)
    assume d: "d < qMaxDepth" and q: "split" "chooseQuad b (item_rect series i) \<noteq> - 1"
    show "places series b d i quads (chooseQuad b (item_rect series i))"
      using "1.IH"(1) [OF _ _ q(1) refl _ refl] "1.prems" d q ok
      by (intro place_in_quad) (auto simp: "1.prems"(4))
  next
    assume d: "d < qMaxDepth" and full: "\<not> split" "length items = qMaxItems"
    then have d': "d \<noteq> qMaxDepth" "\<not> qMaxDepth < d" by auto
    obtain quads' nitems' where r': "redistribute series items b d quads [] = Inr (quads', nitems')"
      "squads_ok series b quads'" "items_in series b nitems'"
      "mset nitems' + quads_items quads' = mset items + quads_items quads"
      using "1.IH"(2) [OF d' full ok(1) d ok(2)] by auto
    have "stree_ok series b (QNode True nitems' quads')" using r' by (simp add: tree_ok_simp)
    then show "\<exists>quads' nitems'. redistribute series items b d quads [] = Inr (quads', nitems') \<and>
        inserts series b d i (QNode True nitems' quads') \<and>
        mset nitems' + quads_items quads' = mset items + quads_items quads"
      using "1.IH"(3) [OF d' full r'(1) refl] "1.prems" r' by blast
  qed (use "1.prems" in auto)
  then show ?case using "1.prems"(4) by simp
next
  case (2 series b d quads nitems)
  then show ?case by simp
next
  case (3 series i rest b d quads nitems)
  let ?q = "chooseQuad b (item_rect series i)"
  have i: "item_ok series i" "covers b (item_rect series i)" using "3.prems"(3) by auto
  note seg = item_okD(1) [OF i(1)]
  note IH = "3.IH" [OF seg refl, folded item_rect_def, OF refl]
  show ?case
  proof (cases "?q = - 1")
    case True
    then show ?thesis
      using IH(1) "3.prems" i by (auto simp: seg Let_def item_rect_def [symmetric] add_ac)
  next
    case False
    have "places series b d i quads ?q"
      using IH(2) [OF False refl refl] i "3.prems"(1,2) False by (intro place_in_quad) auto
    then obtain c where c: "qinsert series (child_of quads ?q) (quadBounds b ?q) (item_rect series i) i (d + 1) = Inr c"
        "squads_ok series b (quads[nat ?q := Some c])"
        "quads_items (quads[nat ?q := Some c]) = add_mset i (quads_items quads)" by blast
    show ?thesis
      using IH(3) [OF False refl refl c(1,2)] "3.prems" False c
      by (auto simp: seg Let_def item_rect_def [symmetric])
  qed
qed

lemma insert_segments_ok:
  assumes "stree_ok series (bs_rect series) n"
    and "\<forall>i \<in> set is. item_ok series i \<and> covers (bs_rect series) (item_rect series i)"
  shows "\<exists>n'. insert_segments series is n = Inr n' \<and> stree_ok series (bs_rect series) n' \<and>
     tree_items n' = mset is + tree_items n"
  using assms
proof (induction "is" arbitrary: n)
  case (Cons i "is")
  then have i: "item_ok series i" "covers (bs_rect series) (item_rect series i)" by auto
  obtain n1 where n1: "qinsert series n (bs_rect series) (item_rect series i) i 0 = Inr n1"
    "stree_ok series (bs_rect series) n1" "tree_items n1 = add_mset i (tree_items n)"
    using qinsert_redistribute(1) [OF Cons.prems(1) _ i(1) refl i(2), of 0] by auto
  then show ?case
    using Cons.IH [OF n1(2)] Cons.prems(2) item_okD(1) [OF i(1)]
    by (auto simp: item_rect_def)
qed simp

text \<open>
  C15: inserting a segment into a well-formed quadtree succeeds, keeps the tree well-formed (every
  node has four quads, which are empty unless it is split, and every item lies in the bounds of
  its node) and adds exactly that one item, whether the node has room, splits or is at the
  depth limit.
\<close>

theorem qinsert_correct:
  assumes "stree_ok series b n" "d \<le> qMaxDepth" "item_ok series i" "covers b (item_rect series i)"
  shows "\<exists>n'. qinsert series n b (item_rect series i) i d = Inr n' \<and> stree_ok series b n' \<and>
    tree_items n' = add_mset i (tree_items n)"
  using qinsert_redistribute(1) [OF assms(1-3) refl assms(4)] .


text \<open>A line through three integer points, the example of the witnesses.\<close>

definition example_line :: baseSeries where
  "example_line = zero_series\<lparr>bs_points := [ipoint 0 0, ipoint 3 1, ipoint 4 4],
     bs_rect := irect 0 0 4 4\<rparr>"

lemma example_line_simps [simp]:
  "bs_points example_line = [ipoint 0 0, ipoint 3 1, ipoint 4 4]"
  "bs_rect example_line = irect 0 0 4 4"
  "bs_closed example_line = False"
  "bs_index example_line = None"
  by (simp_all add: example_line_def zero_series_def)

lemma example_line_items:
  "series_SegmentAt example_line 0 = Inr (iseg 0 0 3 1)"
  "series_SegmentAt example_line 1 = Inr (iseg 3 1 4 4)"
  by (simp_all add: series_SegmentAt_def index_at_def iseg_def)

theorem qinsert_correct_witness:
  "\<exists>n'. qinsert example_line new_qNode (irect 0 0 4 4) (item_rect example_line 0) 0 0 = Inr n' \<and>
     stree_ok example_line (irect 0 0 4 4) n' \<and> tree_items n' = {#0#}"
proof -
  have "item_ok example_line 0"
    by (simp add: item_ok_def example_line_items seg_ok_def point_ok_def)
  moreover have "covers (irect 0 0 4 4) (item_rect example_line 0)"
    by (simp add: covers_alt item_rect_def item_seg_def example_line_items seg_Rect_sel)
  ultimately show ?thesis
    using qinsert_correct [OF new_qNode_ok, of 0 example_line 0 "irect 0 0 4 4"] by simp
qed

end
