(* ===== verification/Quadtree_Search.thy ===== *)
theory Quadtree_Search
  imports Quadtree_Build
begin

text \<open>
  The compressed quadtree: the bytes that \<open>compress\<close> writes for a tree, the items that a search of
  the tree visits, and that the search which walks the bytes visits exactly these. Together with
  the results on insertion this makes a series with an index answer every search as one without.
\<close>

section \<open>The bytes of a tree\<close>

fun deltas :: "int \<Rightarrow> int list \<Rightarrow> u64 list" where
  "deltas prev [] = []"
| "deltas prev (i # is) = word_of_int (i - prev) # deltas i is"

function (sequential)
  node_bytes :: "qNode \<Rightarrow> u8 list" and
  quads_bytes :: "qNode option list \<Rightarrow> u8 list"
where
  "node_bytes (QNode split items quads) =
     put_uvarint (word_of_nat (length items)) @ concat (map put_uvarint (deltas 0 (sort items))) @
     (if split then 1 # quads_bytes quads else [0])"
| "quads_bytes [] = []"
| "quads_bytes (None # quads) = put_uvarint 0 @ quads_bytes quads"
| "quads_bytes (Some n # quads) =
     put_uvarint (word_of_nat (length (node_bytes n))) @ node_bytes n @ quads_bytes quads"
  by pat_completeness auto
termination
  by (relation "measure (\<lambda>r. case r of Inl n \<Rightarrow> size n | Inr qs \<Rightarrow> size_list (size_option size) qs)") auto

lemma append_items_deltas:
  "append_items dst prev items = dst @ concat (map put_uvarint (deltas prev items))"
  by (induction items arbitrary: dst prev) (simp_all add: appendUvarint_eq)

lemma put_uvarint_0: "put_uvarint 0 = [0]"
  by (simp add: put_uvarint.simps [of 0])

lemma compress_bytes:
  "compress n dst = dst @ node_bytes n"
  "compress_quads quads dst = dst @ quads_bytes quads"
  by (induction n dst and quads dst rule: compress_compress_quads.induct)
    (simp_all add: Let_def append_items_deltas appendUvarint_eq put_uvarint_0)

lemma quads_bytes_append: "quads_bytes (xs @ ys) = quads_bytes xs @ quads_bytes ys"
proof (induction xs)
  case (Cons x xs)
  then show ?case by (cases x) simp_all
qed simp

lemma child_shorter: "Some n \<in> set quads \<Longrightarrow> length (node_bytes n) < length (quads_bytes quads)"
proof (induction quads)
  case (Cons q quads)
  have "0 < length (put_uvarint x)" for x by simp
  then show ?case using Cons by (cases q) (auto simp: trans_less_add2)
qed simp

section \<open>The order of a search\<close>

text \<open>
  \<open>visits target b n\<close>: the items that a search for \<open>target\<close> hands to its callback, in order. A
  quad is skipped where its bounds miss the target.
\<close>

function (sequential)
  visits :: "(int \<Rightarrow> Rect) \<Rightarrow> Rect \<Rightarrow> Rect \<Rightarrow> qNode \<Rightarrow> int list" and
  visits_quads :: "(int \<Rightarrow> Rect) \<Rightarrow> Rect \<Rightarrow> Rect \<Rightarrow> int \<Rightarrow> qNode option list \<Rightarrow> int list"
where
  "visits rect target b (QNode split items quads) =
     filter (\<lambda>i. rect_IntersectsRect (rect i) target) (sort items) @
     (if split then visits_quads rect target b 0 quads else [])"
| "visits_quads rect target b q [] = []"
| "visits_quads rect target b q (None # quads) = visits_quads rect target b (q + 1) quads"
| "visits_quads rect target b q (Some n # quads) =
     (if rect_IntersectsRect (quadBounds b q) target
      then visits rect target (quadBounds b q) n else []) @
     visits_quads rect target b (q + 1) quads"
  by pat_completeness auto
termination
  by (relation "measure (\<lambda>r. case r of Inl (_, _, _, n) \<Rightarrow> size n
                                     | Inr (_, _, _, _, qs) \<Rightarrow> size_list (size_option size) qs)") auto

text \<open>No item outside of a skipped quad's bounds can meet the target, so nothing is missed.\<close>


lemma tree_ok_items:
  "tree_ok ok rect b n \<Longrightarrow> i \<in># tree_items n \<Longrightarrow> ok i \<and> covers b (rect i)"
  by (cases n) (auto simp: tree_ok_simp quads_ok_def)

lemma filter_covered:
  assumes "stree_ok series b n" "\<not> rect_IntersectsRect b target"
  shows "filter_mset (\<lambda>i. rect_IntersectsRect (item_rect series i) target) (tree_items n) = {#}"
proof -
  have "\<not> rect_IntersectsRect (item_rect series i) target" if "i \<in># tree_items n" for i
    using tree_ok_items [OF assms(1) that] item_okD(3) covers_intersects assms(2) by blast
  then show ?thesis by (auto simp: filter_mset_eq_mempty_iff)
qed

lemma visits_items:
  "stree_ok series b n \<Longrightarrow> mset (visits (item_rect series) target b n) =
     filter_mset (\<lambda>i. rect_IntersectsRect (item_rect series i) target) (tree_items n)"
  "\<forall>k n. k < length quads \<longrightarrow> quads ! k = Some n \<longrightarrow> stree_ok series (quadBounds b (q + int k)) n \<Longrightarrow>
     mset (visits_quads (item_rect series) target b q quads) =
     filter_mset (\<lambda>i. rect_IntersectsRect (item_rect series i) target) (quads_items quads)"
proof (induction n and quads arbitrary: b and b q rule: tree_items_quads_items.induct)
  case (1 split items quads)
  have "quads_items quads = {#}" if "\<not> split"
    using 1 that by (auto simp: tree_ok_simp)
  moreover have "\<forall>k n. k < length quads \<longrightarrow> quads ! k = Some n \<longrightarrow> stree_ok series (quadBounds b (0 + int k)) n"
    using "1.prems" by (auto simp: tree_ok_simp quads_ok_def)
  ultimately show ?case using "1.IH" by simp
next
  case (3 quads)
  have "stree_ok series (quadBounds b (q + 1 + int k)) n" if "k < length quads" "quads ! k = Some n" for k n
    using "3.prems" [rule_format, of "Suc k" n] that by (simp add: add_ac)
  then show ?case using "3.IH" by simp
next
  case (4 n quads)
  have "stree_ok series (quadBounds b (q + 1 + int k)) n" if "k < length quads" "quads ! k = Some n" for k n
    using "4.prems" [rule_format, of "Suc k" n] that by (simp add: add_ac)
  moreover have "stree_ok series (quadBounds b q) n" using "4.prems" [rule_format, of 0 n] by simp
  ultimately show ?case using "4.IH" filter_covered by simp
qed simp

section \<open>Walking the bytes\<close>

lemma item_ok_range: "item_ok series i \<Longrightarrow> 0 \<le> i \<and> i < int (length (bs_points series))"
  by (auto simp: item_ok_def series_SegmentAt_def index_at_def split: if_splits)

lemma item_ok_word:
  assumes "item_ok series i" "length (bs_points series) < 2 ^ 63"
  shows "sint (word_of_int i :: u64) = i"
  using item_ok_range [OF assms(1)] assms(2)
  by (intro go_int_id [unfolded go_int_def]) auto

text \<open>The segments of a series at the indices \<open>is\<close>, as a callback sees them.\<close>

definition indexed :: "baseSeries \<Rightarrow> int list \<Rightarrow> (Segment \<times> int) list" where
  "indexed series is = map (\<lambda>i. (item_seg series i, i)) is"

lemma indexed_simps [simp]:
  "indexed series [] = []"
  "indexed series (i # is) = (item_seg series i, i) # indexed series is"
  "indexed series (is @ js) = indexed series is @ indexed series js"
  by (simp_all add: indexed_def)

abbreviation hits :: "baseSeries \<Rightarrow> Rect \<Rightarrow> int list \<Rightarrow> (Segment \<times> int) list" where
  "hits series target is \<equiv>
     indexed series (filter (\<lambda>i. rect_IntersectsRect (item_rect series i) target) is)"

lemma deltas_length [simp]: "length (deltas prev is) = length is"
  by (induction "is" arbitrary: prev) auto

lemma search_items_run:
  assumes "bytes_at data a (concat (map put_uvarint (deltas prev is)))"
    and "\<forall>i \<in> set is. item_ok series i" "length (bs_points series) < 2 ^ 63"
  shows "rbind (search_items data series target iter (length is) a (word_of_int prev) s)
      (\<lambda>(continue, a, s). if continue then k a s else Inr (False, s)) =
    rbind (run_iter iter (hits series target is) s)
      (\<lambda>(continue, s). if continue
         then k (a + int (length (concat (map put_uvarint (deltas prev is))))) s else Inr (False, s))"
  using assms(1,2)
proof (induction "is" arbitrary: a prev s)
  case (Cons i "is")
  let ?d = "word_of_int (i - prev) :: u64" and ?a = "a + int (length (put_uvarint (word_of_int (i - prev))))"
  have b: "bytes_at data a (put_uvarint ?d)" "bytes_at data ?a (concat (map put_uvarint (deltas i is)))"
    using Cons.prems(1) by (simp_all add: bytes_at_append)
  have i: "item_ok series i" "\<forall>j \<in> set is. item_ok series j" using Cons.prems(2) by auto
  have w: "?d + word_of_int prev = word_of_int i" by (simp flip: wi_hom_add)
  have IH: "rbind (search_items data series target iter (length is) ?a (word_of_int i) s)
      (\<lambda>(continue, a, s). if continue then k a s else Inr (False, s)) =
    rbind (run_iter iter (hits series target is) s)
      (\<lambda>(continue, s). if continue
         then k (?a + int (length (concat (map put_uvarint (deltas i is))))) s else Inr (False, s))" for s
    by (rule Cons.IH [OF b(2) i(2)])
  show ?case
    using uv.dec_at [OF b(1)] item_okD(1) [OF i(1)] item_ok_word [OF i(1) assms(3)] IH
    by (auto simp: w Let_def rbind_assoc item_rect_def add_ac split: prod.split
        intro!: rbind_cong)
qed simp

lemma length_concat_uvarints: "length ws \<le> length (concat (map put_uvarint ws))"
proof (induction ws)
  case (Cons w ws)
  have "1 \<le> length (put_uvarint w)" by (simp add: Suc_le_eq)
  then show ?case using Cons unfolding list.map concat.simps length_append list.size by linarith
qed simp

lemma unat_word_of_nat_63: "n < 2 ^ 63 \<Longrightarrow> unat (word_of_nat n :: u64) = n"
  by (simp add: unat_word_of_nat_small)

lemma sint_word_of_nat_63: "n < 2 ^ 63 \<Longrightarrow> sint (word_of_nat n :: u64) = int n"
  using go_int_id [of "int n"] by (simp add: go_int_def)

lemma word_of_nat_63_eq_0: "n < 2 ^ 63 \<Longrightarrow> (word_of_nat n :: u64) = 0 \<longleftrightarrow> n = 0"
  using unat_word_of_nat_63 [of n] by (auto simp flip: unat_eq_0)

lemma bytes_at_nonneg: "bytes_at data a xs \<Longrightarrow> 0 \<le> a"
  by (simp add: bytes_at_def)

lemma node_bytes_nonempty [simp]: "node_bytes n \<noteq> []"
  by (cases n) simp

text \<open>Where the parts of a node and of a quad are in the bytes.\<close>

lemma node_parts:
  assumes data: "length data < 2 ^ 63"
    and bytes: "bytes_at data a (put_uvarint (word_of_nat (length items)) @
      concat (map put_uvarint (deltas 0 (sort items))) @ rest)"
  defines "a1 \<equiv> a + int (length (put_uvarint (word_of_nat (length items))))"
    and "a2 \<equiv> a + int (length (put_uvarint (word_of_nat (length items)))) +
      int (length (concat (map put_uvarint (deltas 0 (sort items)))))"
  shows "bytes_at data a (put_uvarint (word_of_nat (length items)))"
    "bytes_at data a1 (concat (map put_uvarint (deltas 0 (sort items))))" "bytes_at data a2 rest"
    "unat (word_of_nat (length items) :: u64) = length (sort items)"
proof -
  let ?items = "concat (map put_uvarint (deltas 0 (sort items)))"
  show b: "bytes_at data a (put_uvarint (word_of_nat (length items)))" "bytes_at data a1 ?items"
    "bytes_at data a2 rest"
    using bytes unfolding a1_def a2_def by (simp_all only: bytes_at_append)
  have "length items \<le> length ?items" using length_concat_uvarints [of "deltas 0 (sort items)"] by simp
  also have "\<dots> \<le> length data"
    using bytes_at_length [OF b(2)] bytes_at_nonneg [OF b(2)] by (cases "?items = []") auto
  finally show "unat (word_of_nat (length items) :: u64) = length (sort items)"
    using data by (simp add: unat_word_of_nat_63)
qed

lemma quad_parts:
  assumes data: "length data < 2 ^ 63" and bytes: "bytes_at data a (quads_bytes (Some n # quads))"
  defines "w \<equiv> word_of_nat (length (node_bytes n)) :: u64"
  defines "a1 \<equiv> a + int (length (put_uvarint w))"
  shows "bytes_at data a (put_uvarint w)" "bytes_at data a1 (node_bytes n)"
    "bytes_at data (a1 + int (length (node_bytes n))) (quads_bytes quads)" "w \<noteq> 0"
    "go_int (a1 + sint w) = a1 + int (length (node_bytes n))"
proof -
  show b: "bytes_at data a (put_uvarint w)" "bytes_at data a1 (node_bytes n)"
    "bytes_at data (a1 + int (length (node_bytes n))) (quads_bytes quads)"
    using bytes unfolding a1_def w_def by (simp_all only: quads_bytes.simps bytes_at_append)
  have len: "a1 + int (length (node_bytes n)) \<le> int (length data)" "0 \<le> a1"
    using bytes_at_length [OF b(2)] bytes_at_nonneg [OF b(2)] by simp_all
  then have n: "length (node_bytes n) < 2 ^ 63" using data by simp
  show "w \<noteq> 0" unfolding w_def using word_of_nat_63_eq_0 [OF n] by simp
  show "go_int (a1 + sint w) = a1 + int (length (node_bytes n))"
    unfolding w_def using len data n by (simp add: sint_word_of_nat_63 go_int_id)
qed

text \<open>
  One call of \<open>qCompressSearch\<close>, given the searches of the quads: the items in reach, then what the quads visit.
\<close>

lemma search_node:
  assumes data: "length data < 2 ^ 63" and pts: "length (bs_points series) < 2 ^ 63"
    and ok: "\<forall>i \<in> set items. item_ok series i"
    and bytes: "bytes_at data a (put_uvarint (word_of_nat (length items)) @
      concat (map put_uvarint (deltas 0 (sort items))) @ (if split then 1 # qs else [0]))"
    and quads: "\<And>a s. split \<Longrightarrow> bytes_at data a qs \<Longrightarrow>
      search_quads fuel data a series b target iter [0, 1, 2, 3] s = run_iter iter (indexed series vs) s"
  shows "qCompressSearch (Suc fuel) data a series b target iter s =
    run_iter iter (hits series target (sort items) @ indexed series (if split then vs else [])) s"
proof -
  let ?len = "put_uvarint (word_of_nat (length items))"
  let ?items = "concat (map put_uvarint (deltas 0 (sort items)))"
  let ?a1 = "a + int (length ?len)" and ?a2 = "a + int (length ?len) + int (length ?items)"
  note parts = node_parts [OF data bytes]
  let ?k = "\<lambda>addr s. rbind (index_at data addr) (\<lambda>b'. if b' = 1
      then search_quads fuel data (addr + 1) series b target iter [0, 1, 2, 3] s else Inr (True, s))"
  have k: "?k ?a2 s = run_iter iter (indexed series (if split then vs else [])) s" for s
  proof (cases "split")
    case True
    have "bytes_at data ?a2 [1]" "bytes_at data (?a2 + 1) qs"
      using parts(3) True bytes_at_append [of data ?a2 "[1]" qs] by simp_all
    then show ?thesis using quads True by (simp add: index_at_bytes)
  qed (use parts(3) in \<open>simp add: index_at_bytes\<close>)
  have "qCompressSearch (Suc fuel) data a series b target iter s =
      rbind (search_items data series target iter (length (sort items)) ?a1 (word_of_int 0) s)
        (\<lambda>(continue, a, s). if continue then ?k a s else Inr (False, s))"
    unfolding qCompressSearch.simps uv.dec_at [OF parts(1)] rbind_simps prod.case parts(4) word_of_int_0
    by (intro rbind_cong refl) (auto split: prod.split)
  also have "\<dots> = rbind (run_iter iter (hits series target (sort items)) s)
      (\<lambda>(continue, s). if continue then ?k ?a2 s else Inr (False, s))"
    using ok by (intro search_items_run [OF parts(2) _ pts]) simp
  finally show ?thesis unfolding k by (simp only: run_iter_append)
qed

lemma four_quads: "length quads = 4 \<Longrightarrow> [0..0 + int (length quads) - 1] = [0, 1, 2, 3]"
  by (simp add: upto_rec1)

lemma next_quads: "[q..q + int (length (c # quads)) - 1] = q # [q + 1..q + 1 + int (length quads) - 1]"
  by (simp add: upto_rec1)

lemma later_quads:
  assumes "\<forall>k n. k < length (c # quads) \<longrightarrow> (c # quads) ! k = Some n \<longrightarrow> P (q + int k) n"
  shows "\<forall>k n. k < length quads \<longrightarrow> quads ! k = Some n \<longrightarrow> P (q + 1 + int k) n"
    "c = Some n \<Longrightarrow> P q n"
  using assms [rule_format, of "Suc _"] assms [rule_format, of 0 n] by (auto simp: add_ac)

lemma search_run:
  assumes data: "length data < 2 ^ 63" and pts: "length (bs_points series) < 2 ^ 63"
  shows "stree_ok series b n \<Longrightarrow> bytes_at data a (node_bytes n) \<Longrightarrow> length (node_bytes n) \<le> fuel \<Longrightarrow>
      qCompressSearch fuel data a series b target iter s
        = run_iter iter (indexed series (visits (item_rect series) target b n)) s"
    "\<forall>k n. k < length quads \<longrightarrow> quads ! k = Some n \<longrightarrow> stree_ok series (quadBounds b (q + int k)) n \<Longrightarrow>
      bytes_at data a (quads_bytes quads) \<Longrightarrow> length (quads_bytes quads) \<le> fuel \<Longrightarrow>
      search_quads fuel data a series b target iter [q..q + int (length quads) - 1] s
        = run_iter iter (indexed series (visits_quads (item_rect series) target b q quads)) s"
proof (induction n and quads arbitrary: fuel a b s and fuel a b q s rule: node_bytes_quads_bytes.induct)
  case (1 split items quads)
  obtain f where f: "fuel = Suc f" using "1.prems"(3) by (cases fuel) auto
  have ok: "\<forall>i \<in> set items. item_ok series i" "length quads = 4"
    "\<forall>k n. k < length quads \<longrightarrow> quads ! k = Some n \<longrightarrow> stree_ok series (quadBounds b (0 + int k)) n"
    using "1.prems"(1) by (auto simp: tree_ok_simp quads_ok_def)
  have "search_quads f data a series b target iter [0, 1, 2, 3] s =
      run_iter iter (indexed series (visits_quads (item_rect series) target b 0 quads)) s"
    if "split" "bytes_at data a (quads_bytes quads)" for a s
    using "1.IH" [OF that(1) ok(3) that(2), of f s] that(1) "1.prems"(3) f
    unfolding four_quads [OF ok(2)] by (simp del: search_quads.simps)
  then show ?case
    using search_node [OF data pts ok(1), of a split "quads_bytes quads" f b target iter] "1.prems"(2)
    unfolding f by simp
next
  case (2)
  then show ?case by simp
next
  case (3 quads)
  let ?a = "a + int (length (put_uvarint 0))"
  have b: "bytes_at data a (put_uvarint 0)" "bytes_at data ?a (quads_bytes quads)"
    using "3.prems"(2) by (simp_all only: quads_bytes.simps bytes_at_append)
  show ?case
    unfolding next_quads using "3.IH" [OF later_quads(1) [OF "3.prems"(1)] b(2)] "3.prems"(3)
    by (simp add: uv.dec_at [OF b(1)])
next
  case (4 n quads)
  note parts = quad_parts [OF data "4.prems"(2)]
  show ?case
    unfolding next_quads
    using "4.IH"(1) [OF later_quads(2) [OF "4.prems"(1) refl] parts(2)]
      "4.IH"(3) [OF later_quads(1) [OF "4.prems"(1)] parts(3)] "4.prems"(3) parts(4,5)
    by (auto simp: uv.dec_at [OF parts(1)] run_iter_append Let_def split: prod.split intro!: rbind_cong)
qed

section \<open>Depth and emptiness\<close>

text \<open>
  \<open>slim h n\<close>: the tree is at most \<open>h\<close> levels deep below \<open>n\<close>, and every node below \<open>n\<close> has an item in
  its subtree.
\<close>

inductive slim :: "nat \<Rightarrow> qNode \<Rightarrow> bool" where
  node: "length quads = 4 \<Longrightarrow>
    (\<forall>c. Some c \<in> set quads \<longrightarrow> 0 < h \<and> tree_items c \<noteq> {#} \<and> slim (h - 1) c) \<Longrightarrow>
    slim h (QNode split items quads)"

inductive_simps slim_simp: "slim h (QNode split items quads)"

definition slim_quads :: "nat \<Rightarrow> qNode option list \<Rightarrow> bool" where
  "slim_quads h quads \<longleftrightarrow> length quads = 4 \<and>
     (\<forall>c. Some c \<in> set quads \<longrightarrow> 0 < h \<and> tree_items c \<noteq> {#} \<and> slim (h - 1) c)"

lemma slim_iff: "slim h (QNode split items quads) \<longleftrightarrow> slim_quads h quads"
  by (simp add: slim_simp slim_quads_def)

lemma slim_new: "slim h new_qNode"
  by (simp add: new_qNode_def slim_simp)

lemma slim_child:
  "slim_quads h quads \<Longrightarrow> k < 4 \<Longrightarrow>
     slim (h - 1) (case quads ! k of None \<Rightarrow> new_qNode | Some n \<Rightarrow> n)"
proof (cases "quads ! k")
  case (Some c)
  assume "slim_quads h quads" "k < 4"
  moreover from this have "Some c \<in> set quads" using Some nth_mem [of k quads] by (simp add: slim_quads_def)
  ultimately show ?thesis using Some by (simp add: slim_quads_def)
qed (simp add: slim_new)

lemma quads_items_mem: "Some c \<in> set quads \<Longrightarrow> tree_items c \<subseteq># quads_items quads"
proof (induction quads)
  case (Cons q quads)
  then show ?case by (cases q) (auto intro: subset_mset.add_increasing2 subset_mset.add_increasing)
qed simp

lemma slim_update:
  "slim_quads h quads \<Longrightarrow> 0 < h \<Longrightarrow> slim (h - 1) c \<Longrightarrow> tree_items c \<noteq> {#} \<Longrightarrow>
     slim_quads h (quads[k := Some c])"
  using set_update_subset_insert [of quads k "Some c"] by (auto simp: slim_quads_def)

text \<open>Putting a child into a quad, the step that \<open>insert\<close> and the loop in it share.\<close>

abbreviation slim_items :: "nat \<Rightarrow> qNode \<Rightarrow> bool" where
  "slim_items h n \<equiv> slim h n \<and> tree_items n \<noteq> {#}"

lemma slim_place:
  assumes "d < qMaxDepth" "slim_quads (qMaxDepth - d) quads" "chooseQuad b r = q" "q \<noteq> - 1"
    and ins: "slim (qMaxDepth - (d + 1)) (case quads ! nat q of None \<Rightarrow> new_qNode | Some n \<Rightarrow> n) \<Longrightarrow>
      slim_items (qMaxDepth - (d + 1)) c"
  shows "slim_quads (qMaxDepth - d) (quads[nat q := Some c])"
    "tree_items (QNode split items (quads[nat q := Some c])) \<noteq> {#}"
proof -
  have q: "nat q < 4" using chooseQuad_cases [OF assms(3,4)] by auto
  have c: "slim_items (qMaxDepth - (d + 1)) c" using ins slim_child [OF assms(2) q] by simp
  then show "slim_quads (qMaxDepth - d) (quads[nat q := Some c])"
    using slim_update [OF assms(2), of c] assms(1) by simp
  have "Some c \<in> set (quads[nat q := Some c])"
    using assms(2) q by (intro set_update_memI) (simp add: slim_quads_def)
  then show "tree_items (QNode split items (quads[nat q := Some c])) \<noteq> {#}"
    using quads_items_mem [of c "quads[nat q := Some c]"] c by auto
qed

text \<open>The three ways in which \<open>insert\<close> returns a node.\<close>

lemma qinsert_cases:
  assumes "qinsert series (QNode split items quads) b r i d = Inr n'"
  obtains (stay) "n' = QNode split (items @ [i]) quads"
  | (quad) c where "d < qMaxDepth" "split" "chooseQuad b r \<noteq> - 1"
      "qinsert series (case quads ! nat (chooseQuad b r) of None \<Rightarrow> new_qNode | Some n \<Rightarrow> n)
        (quadBounds b (chooseQuad b r)) r i (d + 1) = Inr c"
      "n' = QNode split items (quads[nat (chooseQuad b r) := Some c])"
  | (full) quads' nitems' where "d < qMaxDepth" "\<not> split" "length items = qMaxItems"
      "redistribute series items b d quads [] = Inr (quads', nitems')"
      "qinsert series (QNode True nitems' quads') b r i d = Inr n'"
proof (cases "d = qMaxDepth \<or> (if split then chooseQuad b r = - 1 else length items \<noteq> qMaxItems)")
  case True
  then show ?thesis using stay assms by (auto simp: Let_def split: if_splits)
next
  case False
  then have d: "d \<noteq> qMaxDepth" "d < qMaxDepth" using assms by (auto split: if_splits)
  show ?thesis
  proof (cases "split")
    case True
    then show ?thesis using False assms d that(2) by (auto simp: Let_def)
  next
    case ns: False
    then show ?thesis using False assms d that(3) by auto
  qed
qed

lemma qinsert_slim:
  "d \<le> qMaxDepth \<Longrightarrow> slim (qMaxDepth - d) n \<Longrightarrow> qinsert series n b r i d = Inr n' \<Longrightarrow>
     slim (qMaxDepth - d) n' \<and> tree_items n' \<noteq> {#}"
  "d < qMaxDepth \<Longrightarrow> slim_quads (qMaxDepth - d) quads \<Longrightarrow>
     redistribute series items b d quads nitems = Inr (quads', nitems') \<Longrightarrow>
     slim_quads (qMaxDepth - d) quads'"
proof (induction series n b r i d and series items b d quads nitems
    arbitrary: n' and quads' nitems' rule: qinsert_redistribute.induct)
  case (1 series split items quads b r i d)
  have c: "slim_quads (qMaxDepth - d) quads" using "1.prems"(2) by (simp add: slim_iff)
  from "1.prems"(3) show ?case
  proof (cases rule: qinsert_cases)
    case stay
    then show ?thesis using c by (simp add: slim_iff)
  next
    case (quad ch)
    have "slim_items (qMaxDepth - (d + 1)) ch"
      if "slim (qMaxDepth - (d + 1)) (case quads ! nat (chooseQuad b r) of None \<Rightarrow> new_qNode | Some n \<Rightarrow> n)"
      using "1.IH"(1) [OF _ _ quad(2) refl quad(3) refl refl _ that quad(4)] quad(1) by auto
    note placed = slim_place [OF quad(1) c refl quad(3) this]
    then show ?thesis by (simp add: quad(5) slim_iff)
  next
    case (full quads1 nitems1)
    then have d: "d \<noteq> qMaxDepth" "\<not> qMaxDepth < d" by auto
    have "slim_quads (qMaxDepth - d) quads1" by (rule "1.IH"(2) [OF d full(2,3,1) c full(4)])
    then show ?thesis
      using "1.IH"(3) [OF d full(2,3,4) refl "1.prems"(1) _ full(5)] by (simp add: slim_iff)
  qed
next
  case (2 series b d quads nitems)
  then show ?case by simp
next
  case (3 series i rest b d quads nitems)
  obtain seg where seg: "series_SegmentAt series i = Inr seg" using "3.prems"(3) by auto
  let ?q = "chooseQuad b (seg_Rect seg)"
  show ?case
  proof (cases "?q = - 1")
    case True
    then show ?thesis
      using "3.IH"(1) [OF seg refl refl True "3.prems"(1,2)] "3.prems"(3) seg by (simp add: Let_def)
  next
    case False
    obtain ch where ch: "qinsert series (case quads ! nat ?q of None \<Rightarrow> new_qNode | Some n \<Rightarrow> n)
          (quadBounds b ?q) (seg_Rect seg) i (d + 1) = Inr ch"
        "redistribute series rest b d (quads[nat ?q := Some ch]) nitems = Inr (quads', nitems')"
      using "3.prems"(3) seg False by (auto simp: Let_def)
    have "slim_items (qMaxDepth - (d + 1)) ch"
      if "slim (qMaxDepth - (d + 1)) (case quads ! nat ?q of None \<Rightarrow> new_qNode | Some n \<Rightarrow> n)"
      using "3.IH"(2) [OF seg refl refl False refl refl _ that ch(1)] "3.prems"(1) by simp
    then show ?thesis
      using "3.IH"(3) [OF seg refl refl False refl refl ch(1) "3.prems"(1) slim_place(1) ch(2)]
        "3.prems"(1,2) False by simp
  qed
qed

lemma insert_segments_slim:
  "insert_segments series is n = Inr n' \<Longrightarrow> slim qMaxDepth n \<Longrightarrow> slim qMaxDepth n'"
proof (induction "is" arbitrary: n)
  case (Cons i "is")
  then show ?case using qinsert_slim(1) [of 0 n series] by fastforce
qed simp

section \<open>The size of the index\<close>

lemma put_uvarint_10: "length (put_uvarint x) \<le> 10"
  using put_uvarint_length [of 0 x] unsigned_less [of x] by simp

lemma concat_uvarints_10: "length (concat (map put_uvarint ws)) \<le> 10 * length ws"
proof (induction ws)
  case (Cons w ws)
  then show ?case using put_uvarint_10 [of w] by simp
qed simp

lemma quads_bytes_size:
  assumes "\<forall>c. Some c \<in> set quads \<longrightarrow> length (node_bytes c) \<le> k * size (tree_items c)"
  shows "length (quads_bytes quads) \<le> 10 * length quads + k * size (quads_items quads)"
  using assms
proof (induction quads)
  case (Cons q quads)
  then have IH: "length (quads_bytes quads) \<le> 10 * length quads + k * size (quads_items quads)" by simp
  show ?case
  proof (cases q)
    case None
    then show ?thesis using IH by (simp add: put_uvarint_0)
  next
    case (Some c)
    then have "length (node_bytes c) \<le> k * size (tree_items c)" using Cons.prems by simp
    then show ?thesis
      using IH Some put_uvarint_10 [of "word_of_nat (length (node_bytes c))"]
      by (simp add: distrib_left)
  qed
qed simp

lemma node_bytes_size:
  "slim h n \<Longrightarrow> length (node_bytes n) \<le> 51 + (51 * h + 10) * size (tree_items n)"
proof (induction h n rule: slim.induct)
  case (node quads h split items)
  have child: "length (node_bytes c) \<le> (51 * h + 10) * size (tree_items c)" if "Some c \<in> set quads" for c
  proof -
    have h: "0 < h" "tree_items c \<noteq> {#}"
      and le: "length (node_bytes c) \<le> 51 + (51 * (h - 1) + 10) * size (tree_items c)"
      using node that by auto
    have "51 * 1 \<le> 51 * size (tree_items c)" using h(2) by (intro mult_left_mono) (auto simp: Suc_le_eq nonempty_has_size)
    then have "51 + (51 * (h - 1) + 10) * size (tree_items c) \<le>
        (51 + (51 * (h - 1) + 10)) * size (tree_items c)" by (simp add: distrib_right)
    also have "51 + (51 * (h - 1) + 10) = 51 * h + 10" using h(1) by (simp add: diff_mult_distrib2)
    finally show ?thesis using le by linarith
  qed
  have q: "length (quads_bytes quads) \<le> 10 * length quads + (51 * h + 10) * size (quads_items quads)"
    using child by (intro quads_bytes_size) blast
  have i: "length (concat (map put_uvarint (deltas 0 (sort items)))) \<le> 10 * length items"
    using concat_uvarints_10 [of "deltas 0 (sort items)"] by simp
  have "10 * length items \<le> (51 * h + 10) * length items" by (intro mult_right_mono) auto
  moreover have "length (node_bytes (QNode split items quads)) \<le>
      51 + 10 * length items + (51 * h + 10) * size (quads_items quads)"
    using q i node(1) put_uvarint_10 [of "word_of_nat (length items)"] by auto
  ultimately show ?case unfolding tree_items.simps size_union size_mset distrib_left by linarith
qed

end
