(* ===== verification/Series_Search.thy ===== *)
theory Series_Search
  imports Quadtree_Search
begin

text \<open>
  Series with their index: \<open>makeSeries\<close> always succeeds on points without NaN coordinates and builds
  a well-formed index, and a search hands the same segments to its callback with the index and
  without. The contract of \<open>Search\<close>, the locale \<open>segment_search\<close>, is interpreted for the base
  series and for the \<open>Series\<close> interface.
\<close>

section \<open>Updating the index keeps the segments\<close>

lemma segments_update [simp]:
  "series_SegmentAt (series\<lparr>bs_index := x\<rparr>) = series_SegmentAt series"
  "series_SegmentAt (series\<lparr>bs_indexKind := k\<rparr>) = series_SegmentAt series"
  "series_NumSegments (series\<lparr>bs_index := x\<rparr>) = series_NumSegments series"
  "series_NumSegments (series\<lparr>bs_indexKind := k\<rparr>) = series_NumSegments series"
  by (simp_all add: series_SegmentAt_def series_NumSegments_def fun_eq_iff cong: if_cong)

lemma items_update [simp]:
  "item_ok (series\<lparr>bs_index := x\<rparr>) = item_ok series"
  "item_seg (series\<lparr>bs_index := x\<rparr>) = item_seg series"
  "item_rect (series\<lparr>bs_index := x\<rparr>) = item_rect series"
  by (simp_all add: item_ok_def item_seg_def item_rect_def fun_eq_iff)

section \<open>Well-formed series\<close>

text \<open>
  The points have no NaN coordinate and are fewer than a Go slice can have, and the rectangle
  covers every segment.
\<close>

definition series_wf :: "baseSeries \<Rightarrow> bool" where
  "series_wf series \<longleftrightarrow> (\<forall>p \<in> set (bs_points series). point_ok p) \<and>
     length (bs_points series) < 2 ^ 63 \<and>
     (\<forall>i \<in> set [0..series_NumSegments series - 1]. covers (bs_rect series) (item_rect series i))"

text \<open>
  The index is missing, or it is the compressed form of a well-formed tree that holds every segment
  once, behind five bytes with its own length.
\<close>

definition index_ok :: "baseSeries \<Rightarrow> bool" where
  "index_ok series \<longleftrightarrow> (case bs_index series of None \<Rightarrow> True | Some data \<Rightarrow>
     \<exists>n. stree_ok series (bs_rect series) n \<and> slim qMaxDepth n \<and>
       tree_items n = mset [0..series_NumSegments series - 1] \<and>
       uint32_at1 data = Inr (word_of_nat (length data)) \<and> bytes_at data 5 (node_bytes n) \<and>
       length data = 5 + length (node_bytes n))"

lemma index_ok_nonempty: "index_ok series \<Longrightarrow> bs_index series = Some data \<Longrightarrow> data \<noteq> []"
  by (auto simp: index_ok_def)

lemma segment_range:
  assumes "i \<in> set [0..series_NumSegments series - 1]"
  shows "0 \<le> i \<and> i < int (length (bs_points series)) \<and>
    (i \<noteq> int (length (bs_points series)) - 1 \<longrightarrow> i + 1 < int (length (bs_points series)))"
  using assms by (auto simp: series_NumSegments_def Let_def split: if_splits)

lemma SegmentAt_eq:
  assumes "i \<in> set [0..series_NumSegments series - 1]"
  shows "\<exists>a b. a \<in> set (bs_points series) \<and> b \<in> set (bs_points series) \<and>
    series_SegmentAt series i = Inr (mk_segment a b)"
proof -
  let ?n = "int (length (bs_points series))" and ?j = "if i = int (length (bs_points series)) - 1 then 0 else i + 1"
  have "series_SegmentAt series i =
      Inr (mk_segment (bs_points series ! nat i) (bs_points series ! nat ?j))"
    using segment_range [OF assms] by (simp add: series_SegmentAt_def index_at_def)
  moreover have "nat i < length (bs_points series)" "nat ?j < length (bs_points series)"
    using segment_range [OF assms] by (auto simp: nat_less_iff)
  ultimately show ?thesis by (metis nth_mem)
qed

lemma wf_item_ok:
  assumes "\<forall>p \<in> set (bs_points series). point_ok p" "i \<in> set [0..series_NumSegments series - 1]"
  shows "item_ok series i"
  using SegmentAt_eq [OF assms(2)] assms(1) by (auto simp: item_ok_def seg_ok_def)

section \<open>Building the index\<close>

lemma buildIndex_ok:
  assumes "series_wf series" "bs_index series = None"
  shows "\<exists>data. series_buildIndex series = Inr (series\<lparr>bs_index := Some data\<rparr>) \<and>
    index_ok (series\<lparr>bs_index := Some data\<rparr>)"
proof -
  have "\<forall>i \<in> set [0..series_NumSegments series - 1].
      item_ok series i \<and> covers (bs_rect series) (item_rect series i)"
    using assms(1) wf_item_ok by (auto simp: series_wf_def)
  then obtain n where n: "insert_segments series [0..series_NumSegments series - 1] new_qNode = Inr n"
    "stree_ok series (bs_rect series) n" "tree_items n = mset [0..series_NumSegments series - 1]"
    using insert_segments_ok [OF new_qNode_ok, of "[0..series_NumSegments series - 1]" series] that
    by (metis add.right_neutral new_qNode_items)
  let ?h = "[bs_indexKind series, 0, 0, 0, 0]"
  obtain data where d: "put_uint32_at1 (?h @ node_bytes n)
        (word_of_nat (length (?h @ node_bytes n))) = Inr data"
    "uint32_at1 data = Inr (word_of_nat (length (?h @ node_bytes n)))"
    "length data = length (?h @ node_bytes n)" "drop 5 data = drop 5 (?h @ node_bytes n)"
    using put_uint32_at1_ok [of "?h @ node_bytes n" "word_of_nat (length (?h @ node_bytes n))"] that
    by simp blast
  have "bytes_at data 5 (node_bytes n)" using d(4) by (simp add: bytes_at_def)
  then have "index_ok (series\<lparr>bs_index := Some data\<rparr>)"
    using n(2,3) d(2,3) insert_segments_slim [OF n(1) slim_new]
    by (auto simp: index_ok_def intro!: exI [of _ n])
  moreover have "series_buildIndex series = Inr (series\<lparr>bs_index := Some data\<rparr>)"
    using assms(2) n(1) d(1)
    by (simp add: series_buildIndex_def series_setCompressed_def compress_bytes)
  ultimately show ?thesis by blast
qed

lemma processPoints_covers:
  assumes "\<forall>p \<in> set (bs_points series). point_ok p"
    and "bs_rect series = fst (snd (processPoints (bs_points series) (bs_closed series)))"
    and "i \<in> set [0..series_NumSegments series - 1]"
  shows "rect_ContainsRect (bs_rect series) (item_rect series i)"
proof -
  have n: "\<not> ((bs_closed series \<and> length (bs_points series) < 3) \<or> length (bs_points series) < 2)"
    using assms(3) by (auto simp: series_NumSegments_def Let_def split: if_splits)
  note box = processPoints_rect_ok [OF assms(1) n, folded assms(2)]
  obtain a b where ab: "a \<in> set (bs_points series)" "b \<in> set (bs_points series)"
    "series_SegmentAt series i = Inr (mk_segment a b)" using SegmentAt_eq [OF assms(3)] by blast
  have "rect_ContainsRect (bs_rect series) (bs_rect series)"
    using box by (auto simp: rect_ContainsRect_def rect_ok_def f64_order)
  then have "rect_ContainsPoint (bs_rect series) a" "rect_ContainsPoint (bs_rect series) b"
    using box ab by blast+
  then show ?thesis
    using ab(3) by (auto simp: item_rect_def item_seg_def rect_ContainsRect_def
        rect_ContainsPoint_def seg_Rect_sel f64_order)
qed

lemma makeSeries_ok:
  assumes "\<forall>p \<in> set points. point_ok p" "length points < 2 ^ 63"
  shows "\<exists>series. makeSeries points copyPoints is_closed opts = Inr series \<and>
    bs_points series = points \<and> bs_closed series = is_closed \<and>
    (bs_convex series, bs_rect series, bs_clockwise series) = processPoints points is_closed \<and>
    series_wf series \<and> index_ok series"
proof -
  obtain convex rect clockwise where p: "processPoints points is_closed = (convex, rect, clockwise)"
    by (cases "processPoints points is_closed")
  let ?s = "zero_series\<lparr>bs_closed := is_closed, bs_points := points, bs_convex := convex,
      bs_rect := rect, bs_clockwise := clockwise\<rparr>"
  let ?opts = "case opts of None \<Rightarrow> DefaultIndexOptions | Some opts \<Rightarrow> opts"
  have wf: "series_wf (?s\<lparr>bs_indexKind := k\<rparr>)" for k
    using assms processPoints_covers [of "?s\<lparr>bs_indexKind := k\<rparr>"] p unfolding series_wf_def by simp
  have wf0: "series_wf ?s" 
    using assms processPoints_covers [of ?s] p unfolding series_wf_def by simp
  have none: "bs_index (?s\<lparr>bs_indexKind := k\<rparr>) = None" for k by (simp add: zero_series_def)
  show ?thesis
  proof (cases "MinPoints ?opts \<noteq> 0 \<and> int (length points) \<ge> MinPoints ?opts")
    case True
    obtain data where d: "series_buildIndex (?s\<lparr>bs_indexKind := Kind ?opts\<rparr>) =
        Inr (?s\<lparr>bs_indexKind := Kind ?opts, bs_index := Some data\<rparr>)"
      "index_ok (?s\<lparr>bs_indexKind := Kind ?opts, bs_index := Some data\<rparr>)"
      using buildIndex_ok [OF wf none, of "Kind ?opts"] by auto
    have "series_wf (?s\<lparr>bs_indexKind := Kind ?opts, bs_index := Some data\<rparr>)"
      using wf [of "Kind ?opts"] by (simp add: series_wf_def)
    moreover have "makeSeries points copyPoints is_closed opts =
        Inr (?s\<lparr>bs_indexKind := Kind ?opts, bs_index := Some data\<rparr>)"
      using True d(1) p by (simp add: makeSeries_def Let_def)
    ultimately show ?thesis using d(2) p by (simp add: zero_series_def)
  next
    case False
    then have "makeSeries points copyPoints is_closed opts = Inr ?s"
      using p by (auto simp: makeSeries_def Let_def)
    then show ?thesis using wf0 p by (simp add: index_ok_def zero_series_def)
  qed
qed

section \<open>Searching a series\<close>

lemma series_Search_hits:
  assumes "series_wf series" "index_ok series" "length (series_Index series) < 2 ^ 32"
  shows "\<exists>is. mset is = mset (filter (\<lambda>i. rect_IntersectsRect (item_rect series i) target)
        [0..series_NumSegments series - 1]) \<and>
    (\<forall>iter s. series_Search series target iter s =
       rbind (run_iter iter (indexed series is) s) (\<lambda>(_, s). Inr s))"
proof (cases "bs_index series")
  case None
  let ?is = "filter (\<lambda>i. rect_IntersectsRect (item_rect series i) target) [0..series_NumSegments series - 1]"
  have "series_SegmentAt series i = Inr (item_seg series i)"
    if "i \<in> set [0..series_NumSegments series - 1]" for i
    using wf_item_ok [OF _ that] item_okD(1) assms(1) by (simp add: series_wf_def)
  then have "series_Search series target iter s =
       rbind (run_iter iter (indexed series ?is) s) (\<lambda>(_, s). Inr s)" for iter s
    using None linear_search_run [of "[0..series_NumSegments series - 1]" "series_SegmentAt series"
        "item_seg series" target iter s]
    by (simp add: series_Search_def series_Index_def indexed_def item_rect_def)
  then show ?thesis by blast
next
  case (Some data)
  obtain n where n: "stree_ok series (bs_rect series) n"
    "tree_items n = mset [0..series_NumSegments series - 1]"
    "uint32_at1 data = Inr (word_of_nat (length data))" "bytes_at data 5 (node_bytes n)"
    "length data = 5 + length (node_bytes n)"
    using assms(2) Some by (auto simp: index_ok_def)
  let ?is = "visits (item_rect series) target (bs_rect series) n"
  have len: "length data < 2 ^ 32" "length data < 2 ^ 63" using assms(3) Some by (simp_all add: series_Index_def)
  have ne: "data \<noteq> []" using n(5) by auto
  have u: "unat (word_of_nat (length data) :: u32) = length data"
    using len(1) by (simp add: unat_word_of_nat_small)
  have s: "qCompressSearch (length data) data 5 series (bs_rect series) target iter s =
      run_iter iter (indexed series ?is) s" for iter s
    using search_run(1) [OF len(2) _ n(1,4), of "length data"] assms(1) n(5) by (simp add: series_wf_def)
  have "series_Search series target iter s =
      rbind (run_iter iter (indexed series ?is) s) (\<lambda>(_, s). Inr s)" for iter s
    using Some n(3) ne u by (simp add: series_Search_def series_Index_def slice_to_def s)
  moreover have "mset ?is = mset (filter (\<lambda>i. rect_IntersectsRect (item_rect series i) target)
      [0..series_NumSegments series - 1])"
    using visits_items(1) [OF n(1)] n(2) by simp
  ultimately show ?thesis by blast
qed

section \<open>The interpretations\<close>

definition searchable :: "baseSeries \<Rightarrow> bool" where
  "searchable series \<longleftrightarrow> series_wf series \<and> index_ok series \<and> length (series_Index series) < 2 ^ 32"

interpretation base_search: segment_search searchable series_NumSegments item_seg series_Search
  by unfold_locales
    (rule series_Search_hits [unfolded indexed_def item_rect_def], simp_all add: searchable_def)

fun s_ok :: "Series \<Rightarrow> bool" where
  "s_ok (BaseSeries bs) = searchable bs"
| "s_ok (RectSeries r) = True"

definition s_seg :: "Series \<Rightarrow> int \<Rightarrow> Segment" where
  "s_seg series i = projr (sSegmentAt series i)"

lemma s_seg_simps [simp]:
  "s_seg (BaseSeries bs) = item_seg bs"
  "s_seg (RectSeries r) = rect_seg r"
  by (simp_all add: s_seg_def item_seg_def rect_seg_def fun_eq_iff)

interpretation s_search: segment_search s_ok sNumSegments s_seg sSearch
proof
  fix r t
  assume "s_ok r"
  then show "\<exists>is. mset is = mset (filter (\<lambda>i. rect_IntersectsRect (seg_Rect (s_seg r i)) t)
        [0..sNumSegments r - 1]) \<and>
      (\<forall>iter s. sSearch r t iter s =
        rbind (run_iter iter (map (\<lambda>i. (s_seg r i, i)) is) s) (\<lambda>(_, s). Inr s))"
    using base_search.search_hits rect_Search_hits by (cases r) auto
qed

lemma s_ok_SegmentAt:
  assumes "s_ok r" "i \<in> set [0..sNumSegments r - 1]"
  shows "sSegmentAt r i = Inr (s_seg r i)"
  using assms wf_item_ok item_okD(1) rect_SegmentAt_seg
  by (cases r) (auto simp: searchable_def series_wf_def)

section \<open>The size of the index\<close>

lemma NumSegments_le: "series_NumSegments series \<le> int (length (bs_points series))"
  by (simp add: series_NumSegments_def Let_def)

lemma index_ok_size:
  assumes "index_ok series"
  shows "length (series_Index series) \<le> 56 + 3274 * length (bs_points series)"
proof (cases "bs_index series")
  case (Some data)
  obtain n where n: "slim qMaxDepth n" "tree_items n = mset [0..series_NumSegments series - 1]"
    "length data = 5 + length (node_bytes n)"
    using assms Some by (auto simp: index_ok_def)
  have "size (tree_items n) = nat (series_NumSegments series)" by (simp add: n(2))
  also have "\<dots> \<le> length (bs_points series)" using NumSegments_le [of series] by simp
  finally have "3274 * size (tree_items n) \<le> 3274 * length (bs_points series)" by simp
  then show ?thesis
    using node_bytes_size [OF n(1)] Some n(3) by (simp add: qMaxDepth_def series_Index_def)
qed (simp add: series_Index_def)

lemma searchable_small:
  "series_wf series \<Longrightarrow> index_ok series \<Longrightarrow> length (bs_points series) \<le> 2 ^ 20 \<Longrightarrow> searchable series"
  using index_ok_size [of series] by (simp add: searchable_def)

section \<open>Series that \<open>makeSeries\<close> makes\<close>

text \<open>
  C32: the index of a series with \<open>n\<close> points has at most 56 + 3274 n bytes: the tree is at most
  64 levels deep and has no empty subtrees. So for up to 2 ^ 20 points its length fits the four bytes
  of the length field, which \<open>setCompressed\<close> does not check.
\<close>

theorem makeSeries_index_size:
  assumes "\<forall>p \<in> set points. point_ok p" "length points < 2 ^ 63"
    and "makeSeries points copyPoints is_closed opts = Inr series"
  shows "length (series_Index series) \<le> 56 + 3274 * length points \<and>
    (length points \<le> 2 ^ 20 \<longrightarrow> length (series_Index series) < 2 ^ 32)"
  using makeSeries_ok [OF assms(1,2), of copyPoints is_closed opts] index_ok_size [of series] assms(3)
  by auto

theorem makeSeries_index_size_witness:
  "\<exists>series. makeSeries [ipoint 0 0, ipoint 3 1, ipoint 4 4] True False
       (Some \<lparr>Kind = KindQuadTree, MinPoints = 1\<rparr>) = Inr series \<and> length (series_Index series) < 2 ^ 32"
  using makeSeries_index_size [of "[ipoint 0 0, ipoint 3 1, ipoint 4 4]" True False
      "Some \<lparr>Kind = KindQuadTree, MinPoints = 1\<rparr>"]
    makeSeries_ok [of "[ipoint 0 0, ipoint 3 1, ipoint 4 4]" True False
      "Some \<lparr>Kind = KindQuadTree, MinPoints = 1\<rparr>"]
  by (auto simp: point_ok_def)

text \<open>
  C9: on points without NaN coordinates \<open>makeSeries\<close> succeeds for every index option. It keeps the
  points, stores what \<open>processPoints\<close> computes, its rectangle covers every segment, and the index, if
  the options ask for one, is the compressed form of a well-formed quadtree with every segment once.
\<close>

theorem makeSeries_correct:
  assumes "\<forall>p \<in> set points. point_ok p" "length points < 2 ^ 63"
  shows "\<exists>series. makeSeries points copyPoints is_closed opts = Inr series \<and>
    bs_points series = points \<and> bs_closed series = is_closed \<and>
    (bs_convex series, bs_rect series, bs_clockwise series) = processPoints points is_closed \<and>
    series_wf series \<and> index_ok series"
  using makeSeries_ok [OF assms] .

theorem makeSeries_correct_witness:
  "\<exists>series. makeSeries [ipoint 0 0, ipoint 3 1, ipoint 4 4] True False
       (Some \<lparr>Kind = KindQuadTree, MinPoints = 1\<rparr>) = Inr series \<and> index_ok series"
  using makeSeries_correct [of "[ipoint 0 0, ipoint 3 1, ipoint 4 4]" True False
      "Some \<lparr>Kind = KindQuadTree, MinPoints = 1\<rparr>"]
  by (auto simp: point_ok_def)

text \<open>
  C1: a search is complete and sound whatever the index: for a series made from points without NaN
  coordinates the callback sees exactly the segments whose rectangle meets the target, each of them
  once, until it asks to stop.
\<close>

theorem series_Search_correct:
  assumes "\<forall>p \<in> set points. point_ok p" "length points < 2 ^ 63"
    and "makeSeries points copyPoints is_closed opts = Inr series"
    and "length (series_Index series) < 2 ^ 32"
  shows "\<exists>is. mset is = mset (filter (\<lambda>i. rect_IntersectsRect (seg_Rect (item_seg series i)) target)
        [0..series_NumSegments series - 1]) \<and>
    (\<forall>iter s. series_Search series target iter s =
       rbind (run_iter iter (map (\<lambda>i. (item_seg series i, i)) is) s) (\<lambda>(_, s). Inr s))"
proof (rule base_search.search_hits)
  show "searchable series"
    using makeSeries_ok [OF assms(1,2), of copyPoints is_closed opts] assms(3,4)
    by (auto simp: searchable_def)
qed

lemma example_series:
  obtains series where "makeSeries [ipoint 0 0, ipoint 3 1, ipoint 4 4] True False
      (Some \<lparr>Kind = KindQuadTree, MinPoints = 1\<rparr>) = Inr series"
    "series_Index series = [1, 9, 0, 0, 0, 2, 0, 1, 0]"
    "bs_points series = [ipoint 0 0, ipoint 3 1, ipoint 4 4]" "bs_closed series = False"
proof -
  obtain rect cwc t where p: "process_loop [ipoint 0 0, ipoint 3 1, ipoint 4 4] = (rect, cwc, t)"
    by (cases "process_loop [ipoint 0 0, ipoint 3 1, ipoint 4 4]")
  have "makeSeries [ipoint 0 0, ipoint 3 1, ipoint 4 4] True False
      (Some \<lparr>Kind = KindQuadTree, MinPoints = 1\<rparr>) = Inr \<lparr>bs_closed = False, bs_clockwise = 0 < cwc,
        bs_convex = \<not> t_concave t, bs_indexKind = 1, bs_index = Some [1, 9, 0, 0, 0, 2, 0, 1, 0],
        bs_rect = rect, bs_points = [ipoint 0 0, ipoint 3 1, ipoint 4 4]\<rparr>"
    by (simp add: makeSeries_def zero_series_def series_buildIndex_def
        series_NumSegments_def Let_def upto_rec1 series_SegmentAt_def index_at_def new_qNode_def
        qMaxDepth_def qMaxItems_def processPoints_def p series_setCompressed_def appendUvarint_def
        put_uint32_at1_def KindQuadTree_def)
  then show thesis by (rule that) (simp_all add: series_Index_def)
qed

theorem series_Search_correct_witness:
  "\<exists>series. makeSeries [ipoint 0 0, ipoint 3 1, ipoint 4 4] True False
      (Some \<lparr>Kind = KindQuadTree, MinPoints = 1\<rparr>) = Inr series \<and> series_Index series \<noteq> [] \<and>
    series_Search series (irect 0 0 2 2) (\<lambda>seg i s. Inr (True, s @ [i])) [] = Inr [0]"
proof -
  obtain series where s: "makeSeries [ipoint 0 0, ipoint 3 1, ipoint 4 4] True False
      (Some \<lparr>Kind = KindQuadTree, MinPoints = 1\<rparr>) = Inr series"
    "series_Index series = [1, 9, 0, 0, 0, 2, 0, 1, 0]"
    "bs_points series = [ipoint 0 0, ipoint 3 1, ipoint 4 4]" "bs_closed series = False"
    by (rule example_series)
  have seg: "item_seg series 0 = iseg 0 0 3 1" "item_seg series 1 = iseg 3 1 4 4"
    by (simp_all add: item_seg_def series_SegmentAt_def index_at_def s(3) iseg_def)
  have n: "[0..series_NumSegments series - 1] = [0, 1]"
    by (simp add: series_NumSegments_def s(3,4) upto_rec1)
  have "\<exists>is. mset is = mset (filter (\<lambda>i. rect_IntersectsRect (seg_Rect (item_seg series i))
        (irect 0 0 2 2)) [0..series_NumSegments series - 1]) \<and>
    (\<forall>(iter :: int list iter) s. series_Search series (irect 0 0 2 2) iter s =
       rbind (run_iter iter (map (\<lambda>i. (item_seg series i, i)) is) s) (\<lambda>(_, s). Inr s))"
    by (rule series_Search_correct [OF _ _ s(1)]) (use s(2) in \<open>auto simp: point_ok_def\<close>)
  then obtain "is" where "is": "mset is = mset (filter (\<lambda>i. rect_IntersectsRect
        (seg_Rect (item_seg series i)) (irect 0 0 2 2)) [0..series_NumSegments series - 1])"
    "\<forall>(iter :: int list iter) s. series_Search series (irect 0 0 2 2) iter s =
       rbind (run_iter iter (map (\<lambda>i. (item_seg series i, i)) is) s) (\<lambda>(_, s). Inr s)"
    by blast
  have "mset is = {#0#}"
    using "is"(1) by (simp add: n seg rect_IntersectsRect_alt seg_Rect_sel)
  then have "is = [0]" by simp
  then show ?thesis using s(1,2) "is"(2) by (intro exI [of _ series]) simp
qed

end
