(* ===== verification/Float_Quotients.thy ===== *)
theory Float_Quotients
  imports Float64
begin

text \<open>
  Division of small integers: two quotients of integers of at most 26 bits that differ as rationals
  round to different floats, in the same order. So comparisons of float quotients, as the ray cast
  makes them, are exact comparisons of slopes on a grid of integers.
\<close>

section \<open>Separated rationals round to different floats\<close>

lemma rnd_between:
  assumes "representable v" "representable w" "r \<le> v" "v < w" "w \<le> r'"
  shows "rnd r < rnd r'"
proof -
  obtain x y where x: "is_fin x" "rval x = v" "is_fin y" "rval y = w"
    using assms(1,2) by (auto simp: representable_def)
  have "rnd r \<le> rnd v" "rnd w \<le> rnd r'" using assms(3,5) by (auto intro: rnd_mono)
  moreover have "rnd v < rnd w"
    using x rnd_rval [of x] rnd_rval [of y] assms(4) by (simp add: rval_less_iff flip: x(2,4))
  ultimately show ?thesis by linarith
qed

lemma ceiling_scaled:
  fixes N :: rat and c :: nat
  assumes "0 < c" "0 < N"
  shows "N \<le> of_nat (nat \<lceil>N / of_nat c\<rceil> * c)" "of_nat (nat \<lceil>N / of_nat c\<rceil> * c) < N + of_nat c"
proof -
  define k where "k = \<lceil>N / of_nat c\<rceil>"
  have c: "0 < (of_nat c :: rat)" using assms by simp
  then have "0 < N / of_nat c" using assms by simp
  then have k: "0 < k" by (simp add: k_def)
  have "N / of_nat c \<le> of_int k" "of_int k - 1 < N / of_nat c" unfolding k_def by linarith+
  then have "N \<le> of_int k * of_nat c" "(of_int k - 1) * of_nat c < N"
    using c by (simp_all only: pos_divide_le_eq pos_less_divide_eq)
  moreover have "(of_nat (nat k * c) :: rat) = of_int k * of_nat c" using k by simp
  ultimately show "N \<le> of_nat (nat \<lceil>N / of_nat c\<rceil> * c)"
    "of_nat (nat \<lceil>N / of_nat c\<rceil> * c) < N + of_nat c"
    unfolding k_def [symmetric] by (simp_all only: left_diff_distrib)
qed

text \<open>The floats near a rational: multiples of a unit \<open>2 ^ s\<close> that is small against it.\<close>

lemma unit_near:
  fixes r :: rat
  assumes "1 / 2 ^ 30 \<le> r" "r \<le> 2 ^ 30"
  obtains s k :: nat where "s < 2045" "k \<le> 2 ^ 52" "r * of_nat f_scale \<le> of_nat (k * 2 ^ s)"
    "of_nat (k * 2 ^ s) < r * of_nat f_scale + of_nat (2 ^ s)" "2 * of_nat (2 ^ s) \<le> r * of_nat f_scale / 2 ^ 50"
proof -
  define N :: rat where "N = r * of_nat f_scale"
  define e where "e = bit_length (nat \<lfloor>N\<rfloor>)"
  have sc: "(of_nat f_scale :: rat) = 2 ^ 30 * 2 ^ 1044"
    by (simp only: f_scale_def of_nat_power of_nat_numeral power_add [symmetric]) simp
  have "1 / 2 ^ 30 * of_nat f_scale \<le> N" "N \<le> 2 ^ 30 * of_nat f_scale"
    unfolding N_def using assms(1,2) by (intro mult_right_mono; simp)+
  then have N: "2 ^ 1044 \<le> N" "N \<le> 2 ^ 1104"
    unfolding sc by (simp_all only: power_add [symmetric] mult.assoc [symmetric]) simp_all
  have N0: "0 < N" using N(1) by (rule less_le_trans [rotated]) simp
  define n where "n = nat \<lfloor>N\<rfloor>"
  have n: "of_nat n \<le> N" "N < of_nat n + 1"
    unfolding n_def using N0 floor_correct [of N] by (simp_all add: of_nat_nat)
  have "(2::rat) ^ 1044 < of_nat n + 1" "of_nat n \<le> (2::rat) ^ 1104" using N n by linarith+
  then have "of_nat (2 ^ 1044) < (of_nat (n + 1) :: rat)" "of_nat n \<le> (of_nat (2 ^ 1104) :: rat)"
    unfolding of_nat_add of_nat_power of_nat_numeral by (simp_all only: of_nat_1)
  then have n': "2 ^ 1044 \<le> n" "n \<le> 2 ^ 1104"
    unfolding of_nat_less_iff of_nat_le_iff by linarith+
  have e: "n < 2 ^ e" unfolding e_def n_def [symmetric] by (rule bit_length_upper)
  have "1044 < e"
    using n'(1) e power_le_imp_le_exp [of "2::nat" e 1044] by (metis leI le_less_trans less_irrefl power_increasing one_le_numeral order_trans)
  moreover have "n < 2 ^ 1105" using n'(2) by (rule le_less_trans) simp
  then have "e \<le> 1105" unfolding e_def n_def [symmetric] bit_length_le_iff .
  moreover have "2 ^ (e - 1) \<le> n"
    using \<open>1044 < e\<close> unfolding e_def n_def [symmetric] by (intro bit_length_lower) simp
  moreover define s where "s = e - 52"
  ultimately have s: "s < 2045" "e = s + 52" "2 ^ (s + 51) \<le> n" by (auto simp: s_def)
  let ?c = "2 ^ s :: nat" and ?k = "nat \<lceil>N / of_nat (2 ^ s)\<rceil>"
  have k: "N \<le> of_nat (?k * ?c)" "of_nat (?k * ?c) < N + of_nat ?c"
    using ceiling_scaled [of ?c N] N0 by simp_all
  have "of_nat (n + 1) \<le> (of_nat (2 ^ 52 * ?c) :: rat)"
    unfolding of_nat_le_iff using e s(2) by (simp add: power_add)
  then have "N \<le> 2 ^ 52 * of_nat ?c" using n(2) by simp
  then have "N / of_nat ?c \<le> 2 ^ 52" by (subst pos_divide_le_eq) simp_all
  then have "\<lceil>N / of_nat ?c\<rceil> \<le> 2 ^ 52" by (simp add: ceiling_le_iff)
  then have k52: "?k \<le> 2 ^ 52" unfolding nat_le_iff by simp
  have "of_nat (2 ^ 51 * ?c) \<le> (of_nat n :: rat)"
    unfolding of_nat_le_iff using s(3) by (simp add: power_add)
  then have "2 ^ 51 * of_nat ?c \<le> N" using n(1) by simp
  then have c: "2 * of_nat ?c \<le> N / 2 ^ 50" by simp
  show thesis using that [of s ?k] s(1) k52 k c unfolding N_def by blast
qed

lemma rnd_separated:
  assumes "1 / 2 ^ 30 \<le> r" "r \<le> 2 ^ 30" "r + r / 2 ^ 50 \<le> r'"
  shows "rnd r < rnd r'"
proof -
  obtain s k :: nat where sk: "s < 2045" "k \<le> 2 ^ 52" "r * of_nat f_scale \<le> of_nat (k * 2 ^ s)"
    "of_nat (k * 2 ^ s) < r * of_nat f_scale + of_nat (2 ^ s)" "2 * of_nat (2 ^ s) \<le> r * of_nat f_scale / 2 ^ 50"
    using unit_near [OF assms(1,2)] by blast
  have "(r + r / 2 ^ 50) * of_nat f_scale \<le> r' * of_nat f_scale"
    using assms(3) by (intro mult_right_mono) simp_all
  then have N': "r * of_nat f_scale + r * of_nat f_scale / 2 ^ 50 \<le> r' * of_nat f_scale" by (simp add: field_simps)
  show ?thesis
  proof (rule rnd_between)
    show "representable (of_nat (k * 2 ^ s) / of_nat f_scale)" "representable (of_nat (Suc k * 2 ^ s) / of_nat f_scale)"
      using sk(1,2) by (intro representable_units; auto)+
    show "r \<le> of_nat (k * 2 ^ s) / of_nat f_scale"
      using sk(3) by (subst pos_le_divide_eq) simp_all
    show "of_nat (k * 2 ^ s) / of_nat f_scale < (of_nat (Suc k * 2 ^ s) / of_nat f_scale :: rat)"
      by (intro divide_strict_right_mono) simp_all
    have "of_nat (Suc k * 2 ^ s) \<le> r * of_nat f_scale + 2 * of_nat (2 ^ s)" using sk(4) by simp
    then have "of_nat (Suc k * 2 ^ s) \<le> r' * of_nat f_scale" using sk(5) N' by linarith
    then show "of_nat (Suc k * 2 ^ s) / of_nat f_scale \<le> r'" by (subst pos_divide_le_eq) simp_all
  qed
qed


lemma rnd_pos:
  assumes "1 / 2 ^ 30 \<le> r"
  shows "0 < rnd r"
proof -
  have e: "(of_nat (1 * 2 ^ 1044) / of_nat f_scale :: rat) = 1 / 2 ^ 30"
    by (simp add: f_scale_def)
  have "representable (of_nat (1 * 2 ^ 1044) / of_nat f_scale)" by (rule representable_units) simp_all
  then have "representable (1 / 2 ^ 30)" by (simp only: e)
  moreover have "representable 0" using representable_of_int [of 0] by simp
  ultimately have "rnd 0 < rnd r" using assms by (intro rnd_between [of 0 "1 / 2 ^ 30"]) auto
  then show ?thesis by simp
qed

section \<open>Quotients of small integers\<close>

lemma quot_separated:
  assumes "0 < a" "0 < b" "0 < c" "0 < d" "a \<le> 2 ^ 25" "b \<le> 2 ^ 25" "c \<le> 2 ^ 25" "d \<le> 2 ^ 25"
    and "a * d < c * b"
  shows "rnd (of_int a / of_int b) < rnd (of_int c / of_int d)"
proof (rule rnd_separated)
  have r: "(0::rat) < of_int a" "(0::rat) < of_int b" "(0::rat) < of_int d" "(1::rat) \<le> of_int a" "(1::rat) \<le> of_int b"
    "of_int a \<le> (2 ^ 25 :: rat)" "of_int b \<le> (2 ^ 25 :: rat)" "of_int d \<le> (2 ^ 25 :: rat)"
    using assms by simp_all
  show "1 / 2 ^ 30 \<le> (of_int a / of_int b :: rat)"
    using r by (simp add: pos_le_divide_eq)
  show "of_int a / of_int b \<le> (2 ^ 30 :: rat)"
    using r by (simp add: pos_divide_le_eq)
  have "a * d \<le> 2 ^ 25 * 2 ^ 25" using assms by (intro mult_mono) auto
  then have "a * d * (2 ^ 50 + 1) \<le> (a * d + 1) * 2 ^ 50" by simp
  also have "\<dots> \<le> c * b * 2 ^ 50" using assms(9) by simp
  finally have "(of_int (a * d * (2 ^ 50 + 1)) :: rat) \<le> of_int (c * b * 2 ^ 50)"
    unfolding of_int_le_iff .
  then show "of_int a / of_int b + of_int a / of_int b / 2 ^ 50 \<le> (of_int c / of_int d :: rat)"
    using r by (simp add: field_simps)
qed

lemma quot_pos:
  assumes "0 < a" "0 < b" "b \<le> 2 ^ 25"
  shows "0 < rnd (of_int a / of_int b)"
proof (rule rnd_pos)
  have r: "(1::rat) \<le> of_int a" "(0::rat) < of_int b" "of_int b \<le> (2 ^ 25 :: rat)"
    using assms by simp_all
  then show "1 / 2 ^ 30 \<le> (of_int a / of_int b :: rat)"
    by (simp add: pos_le_divide_eq)
qed

lemma quot_less_pos:
  assumes "0 < b" "0 < d" "\<bar>a\<bar> \<le> 2 ^ 25" "b \<le> 2 ^ 25" "\<bar>c\<bar> \<le> 2 ^ 25" "d \<le> 2 ^ 25"
    and less: "a * d < c * b"
  shows "rnd (of_int a / of_int b) < rnd (of_int c / of_int d)"
proof -
  consider (pos) "0 < a" | (neg) "c < 0" | (mixed) "a \<le> 0" "0 \<le> c" by linarith
  then show ?thesis
  proof cases
    case pos
    then have "0 < a * d" using assms by simp
    then have "0 < c * b" using less by linarith
    then have "0 < c" using assms(1) by (simp add: zero_less_mult_iff)
    then show ?thesis using pos assms by (intro quot_separated) auto
  next
    case neg
    then have "c * b < 0" using assms by (simp add: mult_less_0_iff)
    then have "a * d < 0" using less by linarith
    then have "a < 0" using assms(2) by (simp add: mult_less_0_iff)
    then have "rnd (of_int (- c) / of_int d) < rnd (of_int (- a) / of_int b)"
      using neg assms by (intro quot_separated) auto
    then show ?thesis by (simp add: rnd_uminus)
  next
    case mixed
    have a: "rnd (of_int a / of_int b) \<le> 0 \<and> (a < 0 \<longrightarrow> rnd (of_int a / of_int b) < 0)"
      using mixed(1) quot_pos [of "- a" b] assms by (cases "a = 0") (auto simp: rnd_uminus)
    have c: "0 \<le> rnd (of_int c / of_int d) \<and> (0 < c \<longrightarrow> 0 < rnd (of_int c / of_int d))"
      using mixed(2) quot_pos [of c d] assms by (cases "c = 0") auto
    have "a < 0 \<or> 0 < c" using less mixed by (cases "a = 0"; cases "c = 0") auto
    then show ?thesis using a c by linarith
  qed
qed

lemma quot_sgn: "b \<noteq> 0 \<Longrightarrow> (of_int a / of_int b :: rat) = of_int (a * sgn b) / of_int \<bar>b\<bar>"
  by (cases "0 < b") (auto simp: sgn_if)

lemma quot_less_iff:
  assumes "b \<noteq> 0" "d \<noteq> 0" "\<bar>a\<bar> \<le> 2 ^ 25" "\<bar>b\<bar> \<le> 2 ^ 25" "\<bar>c\<bar> \<le> 2 ^ 25" "\<bar>d\<bar> \<le> 2 ^ 25"
  shows "rnd (of_int a / of_int b) < rnd (of_int c / of_int d) \<longleftrightarrow>
    (of_int a / of_int b :: rat) < of_int c / of_int d"
proof
  assume "(of_int a / of_int b :: rat) < of_int c / of_int d"
  then have "(of_int (a * sgn b) / of_int \<bar>b\<bar> :: rat) < of_int (c * sgn d) / of_int \<bar>d\<bar>"
    unfolding quot_sgn [OF assms(1), of a, symmetric] quot_sgn [OF assms(2), of c, symmetric] .
  then have "(of_int (a * sgn b * \<bar>d\<bar>) :: rat) < of_int (c * sgn d * \<bar>b\<bar>)"
    using assms(1,2) by (simp add: divide_less_eq pos_less_divide_eq)
  then have "a * sgn b * \<bar>d\<bar> < c * sgn d * \<bar>b\<bar>" unfolding of_int_less_iff .
  moreover have "\<bar>a * sgn b\<bar> = \<bar>a\<bar>" "\<bar>c * sgn d\<bar> = \<bar>c\<bar>"
    using assms(1,2) by (simp_all add: abs_mult)
  ultimately show "rnd (of_int a / of_int b) < rnd (of_int c / of_int d)"
    unfolding quot_sgn [OF assms(1)] quot_sgn [OF assms(2)]
    using assms by (intro quot_less_pos) simp_all
qed (rule rnd_less)

lemma fint_div:
  assumes "fint x a" "fint y b" "b \<noteq> 0"
  shows "\<not> is_nan (x / y)" "fkey (x / y) = rnd (of_int a / of_int b)"
proof -
  have "fval y \<noteq> 0" using assms(2,3) by (auto simp: fint_def rval_def)
  then show "\<not> is_nan (x / y)" "fkey (x / y) = rnd (of_int a / of_int b)"
    using fdiv_fin [of x y] assms(1,2) by (simp_all add: fint_def)
qed

lemma fint_div_cmp:
  assumes "fint x a" "fint y b" "fint z c" "fint w d" "b \<noteq> 0" "d \<noteq> 0"
    and "\<bar>a\<bar> \<le> 2 ^ 25" "\<bar>b\<bar> \<le> 2 ^ 25" "\<bar>c\<bar> \<le> 2 ^ 25" "\<bar>d\<bar> \<le> 2 ^ 25"
  shows "x / y \<le> z / w \<longleftrightarrow> (of_int a / of_int b :: rat) \<le> of_int c / of_int d"
    and "feq (x / y) (z / w) \<longleftrightarrow> (of_int a / of_int b :: rat) = of_int c / of_int d"
proof -
  note less = quot_less_iff [of b d a c] quot_less_iff [of d b c a]
  show "x / y \<le> z / w \<longleftrightarrow> (of_int a / of_int b :: rat) \<le> of_int c / of_int d"
    using less(2) assms by (simp add: less_eq_f64_def fint_div not_less [symmetric])
  show "feq (x / y) (z / w) \<longleftrightarrow> (of_int a / of_int b :: rat) = of_int c / of_int d"
    using less assms by (simp add: feq_def fint_div) (metis less_irrefl neqE)
qed

text \<open>A quotient by zero is an infinity or a NaN, a quotient of small integers is finite.\<close>

lemma fint_div_0: "fint x a \<Longrightarrow> fint y 0 \<Longrightarrow> \<not> is_fin (x / y) \<and> (a = 0 \<longrightarrow> is_nan (x / y))"
proof -
  assume x: "fint x a" and y: "fint y 0"
  have "f_mag y = 0" using y by (simp add: fint_def rval_def fval_0_iff)
  moreover have "\<not> f_mag f_nan < inf_mag"
    using is_nan_f_nan unfolding is_nan_def by simp
  moreover have "f_mag x = 0 \<longleftrightarrow> a = 0"
    using x by (auto simp: fint_def rval_def simp flip: fval_0_iff)
  ultimately show ?thesis
    using x y by (auto simp: divide_f64_def fdiv_def fint_def f_class(1,3) is_fin_def)
qed

lemma fint_div_fin:
  assumes "fint x a" "fint y b" "b \<noteq> 0" "\<bar>a\<bar> \<le> 2 ^ 25"
  shows "is_fin (x / y)"
proof -
  have "\<bar>a\<bar> * 1 \<le> 2 ^ 25 * \<bar>b\<bar>" using assms(3,4) by (intro mult_mono) auto
  then have "(of_int \<bar>a\<bar> :: rat) \<le> of_int (2 ^ 25 * \<bar>b\<bar>)" unfolding of_int_le_iff by simp
  then have "\<bar>of_int a / of_int b :: rat\<bar> \<le> 2 ^ 25"
    using assms(3) by (simp add: abs_divide pos_divide_le_eq)
  then have "rnd (of_int a / of_int b) \<le> rnd (of_int (2 ^ 25))" "rnd (of_int (- (2 ^ 25))) \<le> rnd (of_int a / of_int b)"
    unfolding abs_le_iff by (auto intro!: rnd_mono)
  moreover have "\<bar>rnd (of_int k)\<bar> < int inf_mag" if "\<bar>k\<bar> < 2 ^ 53" for k
    using fint_f_of_int [OF that] rnd_rval [of "f_of_int k"] by (simp add: fint_def is_fin_key)
  from this [of "2 ^ 25"] this [of "- (2 ^ 25)"]
  have "\<bar>rnd (of_int (2 ^ 25))\<bar> < int inf_mag" "\<bar>rnd (of_int (- (2 ^ 25)))\<bar> < int inf_mag" by simp_all
  ultimately show ?thesis
    unfolding is_fin_key fint_div(2) [OF assms(1-3)] by linarith
qed

section \<open>The rounding error\<close>

lemma round_mag_error:
  assumes "0 < d" "2 ^ 53 * d \<le> n" "round_mag n d < inf_mag"
  shows "2 ^ 53 * n \<le> 2 ^ 53 * (f_units (round_mag n d) * d) + n"
    "2 ^ 53 * (f_units (round_mag n d) * d) \<le> 2 ^ 53 * n + n"
proof -
  define s where "s = round_shift n d"
  define q where "q = rne n (d * 2 ^ s)"
  have "2 ^ 53 \<le> n div d" using assms(1,2) by (simp add: less_eq_div_iff_mult_less_eq)
  then have "\<not> bit_length (n div d) \<le> 53" unfolding bit_length_le_iff by simp
  then have s: "0 < s" by (simp add: s_def round_shift_def)
  have q: "2 ^ 52 \<le> q" "q \<le> 2 ^ 53"
    using round_raw_rne [OF assms(1), of n] s unfolding q_def s_def by auto
  have "round_mag n d = s * 2 ^ 52 + q"
    using assms(3) unfolding round_mag_def q_def s_def by linarith
  then have u: "f_units (round_mag n d) = q * 2 ^ s" using q by (simp only: f_units_scaled)
  have "0 < d * 2 ^ s" using assms(1) by simp
  note b = rne_bounds(1,2) [OF this, of n, folded q_def]
  have l: "2 ^ 52 * (d * 2 ^ s) \<le> n" using round_shift_lower [OF assms(1)] s unfolding s_def by blast
  have e: "f_units (round_mag n d) * d = q * (d * 2 ^ s)" by (simp add: u)
  show "2 ^ 53 * n \<le> 2 ^ 53 * (f_units (round_mag n d) * d) + n"
    "2 ^ 53 * (f_units (round_mag n d) * d) \<le> 2 ^ 53 * n + n"
    unfolding e using b l by simp_all
qed

lemma rnd_fin:
  assumes "\<not> is_nan z" "fkey z = rnd r" "\<bar>r\<bar> \<le> of_int k" "k < 2 ^ 53"
  shows "is_fin z"
proof -
  have "r \<le> of_int k" "of_int (- k) \<le> r" "0 \<le> (of_int k :: rat)" using assms(3) by auto
  then have "rnd r \<le> rnd (of_int k)" "rnd (of_int (- k)) \<le> rnd r" "0 \<le> k" by (auto intro: rnd_mono)
  moreover have "rnd (of_int k) = fkey (f_of_int k)" "is_fin (f_of_int k)"
    using fint_f_of_int [of k] rnd_rval [of "f_of_int k"] assms(4) \<open>0 \<le> k\<close> by (auto simp: fint_def)
  moreover have "rnd (of_int (- k)) = - rnd (of_int k)" by (simp add: rnd_uminus)
  ultimately show ?thesis using assms(2) by (simp add: is_fin_key)
qed

lemma rnd_error:
  assumes "1 / 2 ^ 60 \<le> r" "is_fin z" "fkey z = rnd r"
  shows "r - r / 2 ^ 53 \<le> rval z" "rval z \<le> r + r / 2 ^ 53"
proof -
  obtain a b where q: "quotient_of (r * of_nat f_scale) = (a, b)" by fastforce
  have b: "0 < b" and e: "r * of_nat f_scale = of_int a / of_int b"
    using q by (auto intro: quotient_of_denom_pos quotient_of_div)
  have r: "0 < r" using assms(1) by (rule less_le_trans [rotated]) simp
  then have "0 < r * of_nat f_scale" by simp
  then have a: "0 < a" using b unfolding e by (simp add: zero_less_divide_iff)
  define n d where "n = nat a" and "d = nat b"
  have nd: "0 < d" "0 < n" "a = int n" "b = int d" using a b by (auto simp: n_def d_def)
  have e: "r * of_nat f_scale = of_nat n / of_nat d" using e by (simp add: nd)
  have m: "rnd r = int (round_mag n d)" using q a by (simp add: rnd_def nd)
  then have "f_mag z = round_mag n d" using fkey_abs [of z] assms(3) by simp
  moreover have "fkey z \<ge> 0" using m assms(3) by simp
  ultimately have z: "rval z = of_nat (f_units (round_mag n d)) / of_nat f_scale" "round_mag n d < inf_mag"
    using assms(2) by (auto simp: rval_def fval_def fkey_def is_fin_def split: if_splits)
  have "1 / 2 ^ 60 * of_nat f_scale \<le> r * of_nat f_scale"
    using assms(1) by (intro mult_right_mono) simp_all
  then have "1 / 2 ^ 60 * of_nat f_scale * of_nat d \<le> (of_nat n :: rat)"
    using nd(1) unfolding e by (simp add: pos_le_divide_eq)
  moreover have "(2 ^ 53 :: rat) \<le> 1 / 2 ^ 60 * of_nat f_scale" by (simp add: f_scale_def)
  then have "2 ^ 53 * of_nat d \<le> 1 / 2 ^ 60 * of_nat f_scale * (of_nat d :: rat)" by (rule mult_right_mono) simp
  ultimately have "2 ^ 53 * of_nat d \<le> (of_nat n :: rat)" by linarith
  then have "of_nat (2 ^ 53 * d) \<le> (of_nat n :: rat)" by simp
  then have "2 ^ 53 * d \<le> n" unfolding of_nat_le_iff .
  note err = round_mag_error [OF nd(1) this z(2)]
  let ?u = "f_units (round_mag n d)"
  have "(of_nat (2 ^ 53 * n) :: rat) \<le> of_nat (2 ^ 53 * (?u * d) + n)"
    "(of_nat (2 ^ 53 * (?u * d)) :: rat) \<le> of_nat (2 ^ 53 * n + n)"
    using err unfolding of_nat_le_iff by blast+
  then have "2 ^ 53 * (of_nat n / of_nat d) \<le> 2 ^ 53 * (of_nat ?u) + of_nat n / (of_nat d :: rat)"
    "2 ^ 53 * (of_nat ?u) \<le> 2 ^ 53 * (of_nat n / of_nat d) + of_nat n / (of_nat d :: rat)"
    using nd(1) by (simp_all add: field_simps)
  then have "2 ^ 53 * (r * of_nat f_scale) \<le> 2 ^ 53 * (rval z * of_nat f_scale) + r * of_nat f_scale"
    "2 ^ 53 * (rval z * of_nat f_scale) \<le> 2 ^ 53 * (r * of_nat f_scale) + r * of_nat f_scale"
    unfolding e z(1) by simp_all
  then have "(2 ^ 53 * r) * of_nat f_scale \<le> (2 ^ 53 * rval z + r) * of_nat f_scale"
    "(2 ^ 53 * rval z) * of_nat f_scale \<le> (2 ^ 53 * r + r) * of_nat f_scale"
    by (simp_all only: distrib_right mult.assoc)
  then have "2 ^ 53 * r \<le> 2 ^ 53 * rval z + r" "2 ^ 53 * rval z \<le> 2 ^ 53 * r + r"
    by (simp_all only: mult_le_cancel_right) (simp_all add: f_scale_def)
  then show "r - r / 2 ^ 53 \<le> rval z" "rval z \<le> r + r / 2 ^ 53" by simp_all
qed

section \<open>A ratio through the reciprocal\<close>

text \<open>Half a unit above one is a tie, and ties go to the even side.\<close>

lemma rnd_tie: "rnd (1 + 1 / 2 ^ 53) = rnd 1"
proof -
  define n one where "n = (2 ^ 53 + 1) * (2 ^ 1021 :: nat)" and "one = 2 ^ 52 * (2 ^ 1022 :: nat)"
  have "bit_length n \<le> 1075" "\<not> bit_length n \<le> 1074" "bit_length one \<le> 1075" "\<not> bit_length one \<le> 1074"
    unfolding bit_length_le_iff n_def one_def by simp_all
  then have shift: "round_shift n 1 = 1022" "round_shift one 1 = 1022" by (simp_all add: round_shift_def)
  have "1 * 2 ^ 1022 = 2 * (2 ^ 1021 :: nat)" by simp
  then have "rne n (1 * 2 ^ 1022) = rne (2 ^ 53 + 1) 2" unfolding n_def by (simp only:) (rule rne_scale, simp)
  also have "\<dots> = 2 ^ 52" by (simp add: rne_def)
  finally have n: "rne n (1 * 2 ^ 1022) = 2 ^ 52" .
  have one: "rne one (1 * 2 ^ 1022) = 2 ^ 52" unfolding one_def mult_1 by (rule rne_exact) simp
  have r: "(of_nat f_scale :: rat) = 2 ^ 1074" by (simp only: f_scale_def of_nat_power of_nat_numeral)
  have e: "int n = 2 ^ 1074 + 2 ^ 1021" "int one = 2 ^ 1074" by (simp_all add: n_def one_def)
  have "(1 + 1 / 2 ^ 53) * of_nat f_scale = (of_int (int n) / of_int 1 :: rat)" unfolding e r by simp
  then have "rnd (1 + 1 / 2 ^ 53) = sgn (int n) * int (round_mag (nat \<bar>int n\<bar>) (nat 1))"
    by (intro rnd_of_int_div) simp_all
  moreover have "1 * of_nat f_scale = (of_int (int one) / of_int 1 :: rat)" unfolding e r by simp
  then have "rnd 1 = sgn (int one) * int (round_mag (nat \<bar>int one\<bar>) (nat 1))"
    by (intro rnd_of_int_div) simp_all
  moreover have "0 < n" "0 < one" by (simp_all add: n_def one_def)
  moreover have "round_mag n 1 = round_mag one 1" unfolding round_mag_def shift n one ..
  ultimately show ?thesis by simp
qed

lemma representable_above_1: "representable (1 + 1 / 2 ^ 52)"
proof -
  have "representable (of_nat ((2 ^ 52 + 1) * 2 ^ 1022) / of_nat f_scale)"
    by (rule representable_units) simp_all
  moreover have "(of_nat ((2 ^ 52 + 1) * 2 ^ 1022) / of_nat f_scale :: rat) = 1 + 1 / 2 ^ 52"
    by (simp add: f_scale_def)
  ultimately show ?thesis by (simp only:)
qed

lemma rnd_neg: "r \<le> - (1 / 2 ^ 60) \<Longrightarrow> rnd r < 0"
proof -
  assume r: "r \<le> - (1 / 2 ^ 60)"
  have "representable (of_nat (1 * 2 ^ 1014) / of_nat f_scale)" by (rule representable_units) simp_all
  moreover have "(of_nat (1 * 2 ^ 1014) / of_nat f_scale :: rat) = 1 / 2 ^ 60" by (simp add: f_scale_def)
  ultimately have "representable (1 / 2 ^ 60)" by (simp only:)
  then have "rnd 0 < rnd (- r)"
    using r representable_of_int [of 0] by (intro rnd_between [of 0 "1 / 2 ^ 60"]) auto
  then show ?thesis by (simp add: rnd_uminus)
qed

text \<open>
  The reciprocal of a positive integer of at most 51 bits, times another integer: the product is in the
  unit interval exactly if the exact quotient is.
\<close>

lemma reciprocal_test:
  assumes "0 < k" "k \<le> 2 ^ 51" and z: "is_fin z" "fkey z = rnd (1 / of_int k)"
  shows "0 \<le> rnd (of_int a * rval z) \<longleftrightarrow> 0 \<le> a" "rnd (of_int a * rval z) \<le> rnd 1 \<longleftrightarrow> a \<le> k"
proof -
  let ?k = "of_int k :: rat"
  have k: "1 \<le> ?k" "?k \<le> 2 ^ 51" using assms(1,2) by simp_all
  then have k0: "0 < ?k" by linarith
  have "1 / 2 ^ 60 \<le> 1 / ?k" using k k0 by (simp add: divide_le_cancel frac_le)
  note err = rnd_error [OF this z]
  have lo: "(1 - 1 / 2 ^ 53) / ?k \<le> rval z" and hi: "rval z \<le> (1 + 1 / 2 ^ 53) / ?k"
    using err by (simp_all add: diff_divide_distrib add_divide_distrib)
  have "1 / 2 ^ 60 \<le> (1 - 1 / 2 ^ 53) / ?k" using k k0 by (simp add: pos_le_divide_eq)
  then have small: "1 / 2 ^ 60 \<le> rval z" using lo by linarith
  then have pos: "0 < rval z" by (rule less_le_trans [rotated]) simp
  show "0 \<le> rnd (of_int a * rval z) \<longleftrightarrow> 0 \<le> a"
  proof (cases "0 \<le> a")
    case True
    then show ?thesis using pos by (simp add: rnd_nonneg)
  next
    case False
    then have "of_int a \<le> (- 1 :: rat)" by simp
    then have "of_int a * rval z \<le> - 1 * rval z" using pos by (intro mult_right_mono) simp_all
    then have "of_int a * rval z \<le> - (1 / 2 ^ 60)" using small by linarith
    then show ?thesis using rnd_neg False by fastforce
  qed
  show "rnd (of_int a * rval z) \<le> rnd 1 \<longleftrightarrow> a \<le> k"
  proof (cases "a \<le> k")
    case True
    then have "of_int a \<le> ?k" by simp
    then have "of_int a * rval z \<le> ?k * rval z" using pos by (intro mult_right_mono) simp_all
    also have "?k * rval z \<le> 1 + 1 / 2 ^ 53" using hi k0 by (simp add: pos_le_divide_eq mult.commute)
    finally have "rnd (of_int a * rval z) \<le> rnd (1 + 1 / 2 ^ 53)" by (rule rnd_mono)
    then show ?thesis using True unfolding rnd_tie by simp
  next
    case False
    then have "k + 1 \<le> a" by simp
    then have "?k + 1 \<le> of_int a" by (metis of_int_1 of_int_add of_int_le_iff)
    then have "(?k + 1) * ((1 - 1 / 2 ^ 53) / ?k) \<le> of_int a * rval z"
      using lo k by (intro mult_mono) auto
    moreover have "1 + 1 / 2 ^ 52 \<le> (?k + 1) * ((1 - 1 / 2 ^ 53) / ?k)"
      using k k0 by (simp add: pos_le_divide_eq field_simps)
    ultimately have "1 + 1 / 2 ^ 52 \<le> of_int a * rval z" by (rule order_trans [rotated])
    moreover have "representable 1" using representable_of_int [of 1] by simp
    ultimately have "rnd 1 < rnd (of_int a * rval z)"
      using representable_above_1 by (intro rnd_between [of 1 "1 + 1 / 2 ^ 52"]) simp_all
    then show ?thesis using False by simp
  qed
qed

lemma fint_ratio_test:
  assumes "fint x a" "fint y k" "k \<noteq> 0" "\<bar>k\<bar> \<le> 2 ^ 51"
  shows "0 \<le> x * (1 / y) \<longleftrightarrow> 0 \<le> a * sgn k" "x * (1 / y) \<le> 1 \<longleftrightarrow> a * sgn k \<le> \<bar>k\<bar>"
proof -
  let ?z = "1 / y" and ?w = "if 0 < k then 1 / y else - (1 / y)"
  note z = fint_div [OF fint_1 assms(2,3)]
  have "\<bar>1 / of_int k :: rat\<bar> \<le> of_int 1" using assms(3) by (simp add: abs_divide divide_le_eq_1)
  then have "is_fin ?z" using rnd_fin [OF z(1), of "1 / of_int k" 1] z(2) by simp
  have "fkey ?w = rnd (1 / of_int \<bar>k\<bar>)"
    using z(2) assms(3) rnd_uminus [of "1 / of_int k"] by (auto simp: not_less)
  then have t: "0 \<le> rnd (of_int b * rval ?w) \<longleftrightarrow> 0 \<le> b" "rnd (of_int b * rval ?w) \<le> rnd 1 \<longleftrightarrow> b \<le> \<bar>k\<bar>" for b
    using reciprocal_test [of "\<bar>k\<bar>" ?w b] assms(3,4) \<open>is_fin ?z\<close> by auto
  have "rval x * rval ?z = of_int (a * sgn k) * rval ?w"
    using assms(1,3) by (auto simp: fint_def sgn_if)
  then have "\<not> is_nan (x * ?z)" "fkey (x * ?z) = rnd (of_int (a * sgn k) * rval ?w)"
    using fmul_fin [of x ?z] assms(1) \<open>is_fin ?z\<close> by (simp_all add: fint_def)
  moreover have "fkey 1 = rnd 1" "\<not> is_nan 1" using fint_1 rnd_rval [of 1] by (auto simp: fint_def f_class(1))
  ultimately show "0 \<le> x * (1 / y) \<longleftrightarrow> 0 \<le> a * sgn k" "x * (1 / y) \<le> 1 \<longleftrightarrow> a * sgn k \<le> \<bar>k\<bar>"
    using t [of "a * sgn k"] by (simp_all add: less_eq_f64_def)
qed

end
