(* ===== verification/Raycast_Grid.thy ===== *)
theory Raycast_Grid
  imports Raycasting Float_Quotients
begin

text \<open>
  What the ray cast computes: the loop that moves the ray ends for finite ordinates and never for
  an infinite one, and on a grid of integers of 25 bits \<open>Raycast\<close> is exact: \<open>On\<close> says that the point
  is on the segment, \<open>In\<close> that the horizontal ray to the right crosses it, where a segment counts
  with its lower end and without its upper one.
\<close>

section \<open>The loop that moves the ray\<close>

lemma nudge_off: "\<not> feq p a \<Longrightarrow> \<not> feq p b \<Longrightarrow> nudge a b p = Some p"
  by (simp add: nudge.simps [of a b p])

lemma nudge_on: "feq p a \<or> feq p b \<Longrightarrow> nudge a b p = nudge a b (nextafter p (f_inf False))"
  by (simp add: nudge.simps [of a b p])

lemma nudge_total:
  assumes "is_fin a" "is_fin b"
  shows "\<exists>y. nudge a b p = Some y"
proof (cases "is_nan p")
  case True
  then show ?thesis by (auto simp: nudge_off feq_def)
next
  case False
  then show ?thesis
  proof (induction "nat (int inf_mag - fkey p)" arbitrary: p rule: less_induct)
    case less
    let ?q = "nextafter p (f_inf False)"
    show ?case
    proof (cases "feq p a \<or> feq p b")
      case True
      then have "fkey p < int inf_mag" using assms by (auto simp: feq_def is_fin_key)
      then have "\<not> is_nan ?q" "fkey ?q = fkey p + 1"
        using nextafter_inf [of p] less.prems by (auto simp: feq_def)
      then show ?thesis using less.hyps [of ?q] \<open>fkey p < int inf_mag\<close> True by (simp add: nudge_on)
    qed (auto simp: nudge_off)
  qed
qed

lemma nudge_diverges:
  assumes "feq (f_inf False) a \<or> feq (f_inf False) b"
  shows "nudge a b (f_inf False) = None"
proof -
  have stay: "nextafter (f_inf False) (f_inf False) = f_inf False"
    by (simp add: nextafter_def feq_def)
  have "p = f_inf False \<longrightarrow> \<not> (feq p a \<or> feq p b)" if "nudge a b p = Some y" for p y
    using that by (rule nudge.raw_induct [rotated]) (auto simp: stay split: if_splits)
  then show ?thesis using assms by (cases "nudge a b (f_inf False)") auto
qed

section \<open>One step off an integer\<close>

lemma nextafter_grid:
  assumes "fint x i" "\<bar>i\<bar> \<le> 2 ^ 24"
  defines "y \<equiv> nextafter x (f_inf False)"
  shows "is_fin y" "of_int i < rval y" "rval y \<le> of_int i + 1 / 2 ^ 28"
proof -
  define k where "k = i * 2 ^ 28 + 1"
  have "\<bar>k\<bar> < 2 ^ 53" using assms(2) by (auto simp: k_def abs_le_iff abs_less_iff)
  then have "representable (of_nat (nat \<bar>k\<bar> * 2 ^ 1046) / of_nat f_scale)"
    by (intro representable_units) auto
  moreover have e: "(of_nat (nat \<bar>k\<bar> * 2 ^ 1046) / of_nat f_scale :: rat) = of_int \<bar>k\<bar> / 2 ^ 28"
    by (simp add: f_scale_def)
  ultimately have "representable (of_int \<bar>k\<bar> / 2 ^ 28)" by (simp only: e)
  then have "representable (of_int k / 2 ^ 28)"
    using representable_uminus [of "of_int \<bar>k\<bar> / 2 ^ 28"] by (cases "0 \<le> k") auto
  moreover have "of_int k / 2 ^ 28 = (of_int i + 1 / 2 ^ 28 :: rat)" by (simp add: k_def add_divide_distrib)
  ultimately obtain z where z: "is_fin z" "rval z = of_int i + 1 / 2 ^ 28"
    by (auto simp: representable_def)
  have x: "is_fin x" "rval x = of_int i" using assms(1) by (auto simp: fint_def)
  then have "fkey x < fkey z" using z by (simp flip: rval_less_iff)
  moreover have y: "fkey y = fkey x + 1"
    using x(1) nextafter_inf(2) [of x] by (auto simp: y_def feq_def is_fin_key is_nan_key)
  ultimately have le: "fkey y \<le> fkey z" by simp
  then show "is_fin y" using y x(1) z(1) by (auto simp: is_fin_key)
  show "of_int i < rval y" using y x by (simp add: rval_less_iff flip: x(2))
  show "rval y \<le> of_int i + 1 / 2 ^ 28" using le unfolding z(2) [symmetric] rval_le_iff .
qed


lemma representable_small: "s \<le> 1000 \<Longrightarrow> representable (1 / 2 ^ s)"
proof -
  assume s: "s \<le> 1000"
  have "representable (of_nat (1 * 2 ^ (1074 - s)) / of_nat f_scale)"
    by (rule representable_units) (use s in auto)
  moreover have "(of_nat f_scale :: rat) = 2 ^ (1074 - s) * 2 ^ s"
    using s by (simp only: f_scale_def of_nat_power of_nat_numeral power_add [symmetric]) simp
  then have "(of_nat (1 * 2 ^ (1074 - s)) / of_nat f_scale :: rat) = 1 / 2 ^ s"
    by (simp only:) simp
  ultimately show ?thesis by (simp only:)
qed

lemma nudge_grid:
  assumes "fint aY ay" "fint bY by" "fint pY py" "\<bar>ay\<bar> \<le> 2 ^ 24" "\<bar>by\<bar> \<le> 2 ^ 24" "py = ay \<or> py = by"
  shows "nudge aY bY pY = Some (nextafter pY (f_inf False))"
proof -
  let ?q = "nextafter pY (f_inf False)"
  have py: "\<bar>py\<bar> \<le> 2 ^ 24" using assms by auto
  note q = nextafter_grid [OF assms(3) py]
  have off: "\<not> feq ?q z" if z: "fint z k" for z k
  proof
    assume "feq ?q z"
    then have "rval ?q = of_int k" using z q(1) by (simp add: feq_rval fint_def)
    then have "(of_int py :: rat) < of_int k" "(of_int k :: rat) \<le> of_int py + 1 / 2 ^ 28"
      using q by auto
    then have "py < k" "(of_int k :: rat) < of_int (py + 1)" by simp_all
    then show False unfolding of_int_less_iff by simp
  qed
  have "feq pY aY \<or> feq pY bY" using assms by (auto simp: fint_cmp)
  then show ?thesis using off assms(1,2) by (simp add: nudge_on nudge_off)
qed

text \<open>The step to the next float above is tiny.\<close>

lemma tiny_step:
  assumes x: "fint x i" "\<bar>i\<bar> \<le> 2 ^ 24"
  defines "h \<equiv> nextafter x (f_inf False) - x"
  shows "is_fin h" "0 \<le> rval h" "rval h \<le> 1 / 2 ^ 28"
proof -
  let ?y = "nextafter x (f_inf False)"
  note y = nextafter_grid [OF x]
  have fin: "is_fin x" "rval x = of_int i" using x(1) by (auto simp: fint_def)
  obtain u where u: "is_fin u" "rval u = 1 / 2 ^ 28"
    using representable_small [of 28] by (auto simp: representable_def)
  have "fkey h = rnd (rval ?y - rval x)" unfolding h_def by (rule fsub_fin(2) [OF y(1) fin(1)])
  moreover have "0 \<le> rnd (rval ?y - rval x)" "rnd (rval ?y - rval x) \<le> rnd (rval u)"
    using y fin u by (auto intro!: rnd_nonneg rnd_mono)
  ultimately have h: "0 \<le> fkey h" "fkey h \<le> fkey u" using rnd_rval [OF u(1)] by simp_all
  then show "is_fin h" using u(1) by (auto simp: is_fin_key)
  show "0 \<le> rval h" using h(1) rval_le_iff [of 0 h] fint_0 by (simp add: fint_def)
  show "rval h \<le> 1 / 2 ^ 28" using h(2) unfolding u(2) [symmetric] rval_le_iff .
qed

text \<open>The slope to a point just above the lower end of a segment.\<close>

lemma slope_step:
  assumes x: "fint x i" "\<bar>i\<bar> \<le> 2 ^ 24" and z: "fint z d" "fint c k" "fint w e"
    and "0 < k" "\<bar>e\<bar> \<le> 2 ^ 25" "0 < d \<longleftrightarrow> 0 < e" "d \<noteq> 0" "e \<noteq> 0"
  shows "c / w \<le> (nextafter x (f_inf False) - x) / z \<longleftrightarrow> d < 0"
proof -
  let ?h = "nextafter x (f_inf False) - x"
  note h_fin = tiny_step(1) [OF x] and h_bounds = tiny_step(2,3) [OF x]
  have "fval z \<noteq> 0" using z(1) assms(9) by (auto simp: fint_def rval_def)
  then have q: "\<not> is_nan (?h / z)" "fkey (?h / z) = rnd (rval ?h / of_int d)"
    using fdiv_fin [OF h_fin, of z] z(1) by (simp_all add: fint_def)
  note cw = fint_div [OF z(2,3) assms(10)]
  have r: "(1::rat) \<le> of_int k" "of_int \<bar>e\<bar> \<le> (2 ^ 25 :: rat)" "(1::rat) \<le> of_int \<bar>d\<bar>" 
    using assms(6,7,9) by (simp_all del: of_int_abs)
  show ?thesis
  proof (cases "0 < d")
    case True
    then have "0 < e" using assms by simp
    have "rnd (rval ?h / of_int d) < rnd (of_int k / of_int e)"
    proof (rule rnd_between [of "1 / 2 ^ 28" "1 / 2 ^ 25"])
      have "rval ?h * 1 \<le> 1 / 2 ^ 28 * of_int d"
        using r(3) True h_bounds by (intro mult_mono) auto
      then show "rval ?h / of_int d \<le> 1 / 2 ^ 28" using True by (subst pos_divide_le_eq) auto
      show "1 / 2 ^ 25 \<le> (of_int k / of_int e :: rat)"
        using \<open>0 < e\<close> r(1,2) by (subst pos_le_divide_eq) auto
      show "representable (1 / 2 ^ 28)" "representable (1 / 2 ^ 25)"
        by (rule representable_small, simp)+
    qed simp
    then show ?thesis using True q cw by (simp add: less_eq_f64_def)
  next
    case False
    then have d: "d < 0" "e < 0" using assms by auto
    have "of_int k / of_int e \<le> rval ?h / of_int d"
    proof -
      have "rval ?h * 1 \<le> 1 / 2 ^ 28 * of_int (- d)"
        using r(3) d h_bounds by (intro mult_mono) auto
      then have "rval ?h / of_int (- d) \<le> 1 / 2 ^ 28" using d by (subst pos_divide_le_eq) auto
      also have "\<dots> \<le> of_int k / of_int (- e)"
        using d r(1,2) by (subst pos_le_divide_eq) auto
      finally show ?thesis by simp
    qed
    then show ?thesis using d q cw by (simp add: less_eq_f64_def rnd_mono)
  qed
qed

section \<open>The ray cast on a grid\<close>

definition grid :: "int \<Rightarrow> bool" where
  "grid k \<longleftrightarrow> \<bar>k\<bar> \<le> 2 ^ 24"

lemma grid_f [simp]: "grid k \<Longrightarrow> \<bar>k\<bar> < 9007199254740992"
  by (simp add: grid_def)

lemma grid_fint: "grid k \<Longrightarrow> fint (f_of_int k) k"
  by (rule fint_f_of_int) simp

lemma grid_diff: "grid i \<Longrightarrow> grid j \<Longrightarrow> fint (f_of_int i - f_of_int j) (i - j) \<and> \<bar>i - j\<bar> \<le> 2 ^ 25"
  using fint_sub [OF grid_fint grid_fint, of i j] by (simp add: grid_def)

lemma grid_cmp:
  assumes "grid i" "grid j"
  shows "f_of_int i < f_of_int j \<longleftrightarrow> i < j" "f_of_int i \<le> f_of_int j \<longleftrightarrow> i \<le> j"
    "feq (f_of_int i) (f_of_int j) \<longleftrightarrow> i = j"
  using assms by simp_all

lemma feq_fin: "feq x y \<Longrightarrow> is_fin x \<longleftrightarrow> is_fin y"
  by (simp add: feq_def is_fin_key)

text \<open>The quotient test of \<open>Raycast\<close> is the cross product test.\<close>

lemma collinear_test:
  assumes "grid ax" "grid ay" "grid bx" "grid by" "grid px" "grid py" "\<not> (ax = bx \<and> ay = by)"
  shows "feq ((f_of_int px - f_of_int ax) / (f_of_int bx - f_of_int ax))
      ((f_of_int py - f_of_int ay) / (f_of_int by - f_of_int ay)) \<longleftrightarrow>
    ax \<noteq> bx \<and> ay \<noteq> by \<and> (px - ax) * (by - ay) = (py - ay) * (bx - ax)"
proof -
  note d = grid_diff [OF assms(5,1)] grid_diff [OF assms(3,1)] grid_diff [OF assms(6,2)]
    grid_diff [OF assms(4,2)]
  consider "ax = bx" "ay \<noteq> by" | "ax \<noteq> bx" "ay = by" | "ax \<noteq> bx" "ay \<noteq> by" using assms(7) by blast
  then show ?thesis
  proof cases
    case 1
    then show ?thesis
      using d feq_fin fint_div_0 [of _ "px - ax" "f_of_int bx - f_of_int ax"]
        fint_div_fin [of _ "py - ay" _ "by - ay"] by fastforce
  next
    case 2
    then show ?thesis
      using d feq_fin fint_div_0 [of _ "py - ay" "f_of_int by - f_of_int ay"]
        fint_div_fin [of _ "px - ax" _ "bx - ax"] by fastforce
  next
    case 3
    have "(of_int (px - ax) / of_int (bx - ax) :: rat) = of_int (py - ay) / of_int (by - ay) \<longleftrightarrow>
        (of_int ((px - ax) * (by - ay)) :: rat) = of_int ((py - ay) * (bx - ax))"
      using 3 by (subst frac_eq_eq) simp_all
    then have "(of_int (px - ax) / of_int (bx - ax) :: rat) = of_int (py - ay) / of_int (by - ay) \<longleftrightarrow>
        (px - ax) * (by - ay) = (py - ay) * (bx - ax)" unfolding of_int_eq_iff .
    then show ?thesis
      using fint_div_cmp(2) [of _ "px - ax" _ "bx - ax" _ "py - ay" _ "by - ay"] d 3 by simp
  qed
qed

lemma slope_test:
  assumes "grid ax" "grid ay" "grid bx" "grid by" "grid px" "grid py"
    and same: "0 < (px - ax) * (bx - ax)"
  shows "(f_of_int by - f_of_int ay) / (f_of_int bx - f_of_int ax) \<le>
      (f_of_int py - f_of_int ay) / (f_of_int px - f_of_int ax) \<longleftrightarrow>
    (by - ay) * (px - ax) \<le> (py - ay) * (bx - ax)"
proof -
  note d = grid_diff [OF assms(5,1)] grid_diff [OF assms(3,1)] grid_diff [OF assms(6,2)]
    grid_diff [OF assms(4,2)]
  have nz: "px - ax \<noteq> 0" "bx - ax \<noteq> 0" using same by auto
  have "(of_int (by - ay) / of_int (bx - ax) :: rat) \<le> of_int (py - ay) / of_int (px - ax) \<longleftrightarrow>
      (of_int ((by - ay) * (px - ax)) :: rat) \<le> of_int ((py - ay) * (bx - ax))"
  proof -
    have "0 < (of_int ((px - ax) * (bx - ax)) :: rat)" using same by (simp only: of_int_0_less_iff)
    then show ?thesis
      using nz by (subst frac_le_eq) (auto simp: divide_le_0_iff mult.commute)
  qed
  then have "(of_int (by - ay) / of_int (bx - ax) :: rat) \<le> of_int (py - ay) / of_int (px - ax) \<longleftrightarrow>
      (by - ay) * (px - ax) \<le> (py - ay) * (bx - ax)" unfolding of_int_le_iff .
  then show ?thesis
    using fint_div_cmp(1) [of _ "by - ay" _ "bx - ax" _ "py - ay" _ "px - ax"] d nz by simp
qed

text \<open>
  On the grid: the point is on the segment, and the ray from the point to the right crosses the
  segment from its lower end \<open>(lx, ly)\<close> to its upper end \<open>(ux, uy)\<close>.
\<close>

definition on_seg :: "int \<Rightarrow> int \<Rightarrow> int \<Rightarrow> int \<Rightarrow> int \<Rightarrow> int \<Rightarrow> bool" where
  "on_seg ax ay bx by px py \<longleftrightarrow> (px - ax) * (by - ay) = (py - ay) * (bx - ax) \<and>
     min ax bx \<le> px \<and> px \<le> max ax bx \<and> min ay by \<le> py \<and> py \<le> max ay by"

definition crosses_up :: "int \<Rightarrow> int \<Rightarrow> int \<Rightarrow> int \<Rightarrow> int \<Rightarrow> int \<Rightarrow> bool" where
  "crosses_up lx ly ux uy px py \<longleftrightarrow>
     ly \<le> py \<and> py < uy \<and> (uy - ly) * (px - lx) < (py - ly) * (ux - lx)"

definition crosses :: "int \<Rightarrow> int \<Rightarrow> int \<Rightarrow> int \<Rightarrow> int \<Rightarrow> int \<Rightarrow> bool" where
  "crosses ax ay bx by px py \<longleftrightarrow>
     crosses_up ax ay bx by px py \<or> crosses_up bx by ax ay px py"

lemma on_seg_sym: "on_seg bx by ax ay px py = on_seg ax ay bx by px py"
proof -
  have "(px - bx) * (ay - by) - (py - by) * (ax - bx) = (px - ax) * (ay - by) - (py - ay) * (ax - bx)"
    by (simp add: algebra_simps)
  then show ?thesis by (auto simp: on_seg_def min.commute max.commute algebra_simps)
qed

text \<open>On the line and between the ordinates is between the abscissas.\<close>

lemma between_scaled:
  fixes u v e D :: int
  assumes "0 < v" "0 \<le> u" "u \<le> v" "e * v = u * D"
  shows "min 0 D \<le> e" "e \<le> max 0 D"
proof -
  show "min 0 D \<le> e"
  proof (cases "0 \<le> D")
    case True
    then have "0 \<le> e * v" using assms by simp
    then show ?thesis using assms(1) True by (simp add: zero_le_mult_iff)
  next
    case False
    then have "v * D \<le> u * D" using assms(3) by (simp add: mult_right_mono_neg)
    then have "D * v \<le> e * v" using assms(4) by (simp add: mult.commute)
    then show ?thesis using assms(1) False by simp
  qed
  show "e \<le> max 0 D"
  proof (cases "0 \<le> D")
    case True
    then have "u * D \<le> v * D" using assms(3) by (simp add: mult_right_mono)
    then have "e * v \<le> D * v" using assms(4) by (simp add: mult.commute)
    then show ?thesis using assms(1) True by simp
  next
    case False
    then have "e * v \<le> 0" using assms by (simp add: mult_le_0_iff)
    then show ?thesis using assms(1) False by (simp add: mult_le_0_iff)
  qed
qed

lemma on_seg_slanted:
  assumes "ay \<noteq> by" "min ay by \<le> py" "py \<le> max ay by"
  shows "on_seg ax ay bx by px py \<longleftrightarrow> (px - ax) * (by - ay) = (py - ay) * (bx - ax)"
proof (cases "ay < by")
  case True
  then show ?thesis
    using between_scaled [of "by - ay" "py - ay" "px - ax" "bx - ax"] assms
    by (auto simp: on_seg_def min_def max_def split: if_splits)
next
  case False
  then have "ay > by" using assms by simp
  then show ?thesis
    using between_scaled [of "ay - by" "ay - py" "px - ax" "bx - ax"] assms
    by (auto simp: on_seg_def min_def max_def algebra_simps split: if_splits)
qed

lemma raycast_cross_swap:
  assumes "grid ax" "grid ay" "grid bx" "grid by" "ay \<noteq> by"
  shows "raycast_cross (ipoint bx by) (ipoint ax ay) pX pY = raycast_cross (ipoint ax ay) (ipoint bx by) pX pY"
proof -
  have "ay < by \<or> by < ay" using assms(5) by linarith
  then show ?thesis
    using assms by (cases "ax = bx") (auto simp: raycast_cross_def Let_def grid_cmp)
qed

text \<open>The moved ordinate on the height of the point.\<close>

definition moved :: "int \<Rightarrow> int \<Rightarrow> int \<Rightarrow> f64" where
  "moved ay by py = (if py = ay \<or> py = by then nextafter (f_of_int py) (f_inf False) else f_of_int py)"

lemma nudge_moved:
  assumes "grid ay" "grid by" "grid py"
  shows "nudge (f_of_int ay) (f_of_int by) (f_of_int py) = Some (moved ay by py)"
  using assms nudge_grid [OF grid_fint grid_fint grid_fint, of ay "by" py]
  by (auto simp: moved_def grid_cmp intro!: nudge_off) (auto simp: grid_def)

lemma moved_cmp:
  assumes "grid ay" "grid by" "grid py" "grid k"
  shows "moved ay by py < f_of_int k \<longleftrightarrow> py < k"
    and "f_of_int k < moved ay by py \<longleftrightarrow> (if py = ay \<or> py = by then k \<le> py else k < py)"
proof -
  let ?q = "nextafter (f_of_int py) (f_inf False)"
  have "\<bar>py\<bar> \<le> 2 ^ 24" using assms by (simp add: grid_def)
  note q = nextafter_grid [OF grid_fint [OF assms(3)] this]
  have k: "is_fin (f_of_int k)" "rval (f_of_int k) = of_int k"
    using grid_fint [OF assms(4)] by (auto simp: fint_def)
  have "rval ?q < of_int k \<longleftrightarrow> py < k"
  proof
    assume "rval ?q < of_int k"
    then have "(of_int py :: rat) < of_int k" using q(2) by simp
    then show "py < k" by simp
  next
    assume "py < k"
    then have "(of_int (py + 1) :: rat) \<le> of_int k" unfolding of_int_le_iff by simp
    then show "rval ?q < of_int k" using q(3) by simp
  qed
  moreover have "of_int k < rval ?q \<longleftrightarrow> k \<le> py"
  proof
    assume "of_int k < rval ?q"
    then have "(of_int k :: rat) < of_int (py + 1)" using q(3) by simp
    then show "k \<le> py" unfolding of_int_less_iff by simp
  next
    assume "k \<le> py"
    then have "(of_int k :: rat) \<le> of_int py" by simp
    then show "of_int k < rval ?q" using q(2) by simp
  qed
  ultimately have "?q < f_of_int k \<longleftrightarrow> py < k" "f_of_int k < ?q \<longleftrightarrow> k \<le> py"
    using q(1) k by (simp_all add: f64_less_rval)
  then show "moved ay by py < f_of_int k \<longleftrightarrow> py < k"
    and "f_of_int k < moved ay by py \<longleftrightarrow> (if py = ay \<or> py = by then k \<le> py else k < py)"
    using assms by (auto simp: moved_def grid_cmp)
qed

lemma slope_moved:
  assumes g: "grid ax" "grid ay" "grid bx" "grid by" "grid px" "grid py"
    and "ay \<le> py" "py < by" "0 < (px - ax) * (bx - ax)"
    and off: "(px - ax) * (by - ay) \<noteq> (py - ay) * (bx - ax)"
  shows "(f_of_int by - f_of_int ay) / (f_of_int bx - f_of_int ax) \<le>
      (moved ay by py - f_of_int ay) / (f_of_int px - f_of_int ax) \<longleftrightarrow>
    (by - ay) * (px - ax) < (py - ay) * (bx - ax)"
proof (cases "py = ay")
  case False
  then show ?thesis
    using slope_test [OF g assms(9)] assms(8) off by (auto simp: moved_def mult.commute)
next
  case True
  have "0 < px - ax \<longleftrightarrow> 0 < bx - ax" "px - ax \<noteq> 0" "bx - ax \<noteq> 0"
    using assms(9) by (auto simp: zero_less_mult_iff)
  then have "(f_of_int by - f_of_int ay) / (f_of_int bx - f_of_int ax) \<le>
      (nextafter (f_of_int ay) (f_inf False) - f_of_int ay) / (f_of_int px - f_of_int ax) \<longleftrightarrow>
    px - ax < 0"
    using grid_diff [OF g(5,1)] grid_diff [OF g(3,1)] grid_diff [OF g(4,2)] g assms(8) True
    by (intro slope_step [OF grid_fint [OF g(2)]]) (auto simp: grid_def)
  then show ?thesis using True assms(8) by (simp add: moved_def mult_less_0_iff)
qed

lemma raycast_cross_up:
  assumes g: "grid ax" "grid ay" "grid bx" "grid by" "grid px" "grid py"
    and y: "ay < by" "ay \<le> py" "py \<le> by" and off: "\<not> on_seg ax ay bx by px py"
  shows "raycast_cross (ipoint ax ay) (ipoint bx by) (f_of_int px) (moved ay by py) =
    mk_raycast (crosses_up ax ay bx by px py) False"
proof (cases "py = by")
  case True
  then show ?thesis
    using g y by (simp add: raycast_cross_def grid_cmp moved_cmp crosses_up_def Let_def)
next
  case False
  have off': "(px - ax) * (by - ay) \<noteq> (py - ay) * (bx - ax)"
    using off y by (subst (asm) on_seg_slanted) auto
  let ?u = "py - ay" and ?v = "by - ay" and ?e = "px - ax" and ?D = "bx - ax"
  have uv: "0 \<le> ?u" "?u < ?v" using y False by auto
  consider (right) "max ax bx \<le> px" | (left) "px \<le> min ax bx" "\<not> max ax bx \<le> px"
    | (between) "\<not> max ax bx \<le> px" "\<not> px \<le> min ax bx" by blast
  then show ?thesis
  proof cases
    case between
    then have "0 < ?e * ?D" by (auto simp: zero_less_mult_iff)
    then show ?thesis
      using g y False slope_moved [OF g y(2) _ _ off'] between
      by (auto simp: raycast_cross_def grid_cmp moved_cmp crosses_up_def Let_def)
  next
    case right
    have "?u * ?D \<le> ?v * max 0 ?D" using uv by (auto simp: max_def mult_right_mono mult_le_0_iff)
    also have "\<dots> \<le> ?v * ?e" using uv right by (intro mult_left_mono) auto
    finally show ?thesis
      using g y False right
      by (auto simp: raycast_cross_def grid_cmp moved_cmp crosses_up_def Let_def)
  next
    case left
    have "?v * ?e \<le> ?v * min 0 ?D" using uv left by (intro mult_left_mono) auto
    also have "\<dots> \<le> ?u * ?D" using uv by (auto simp: min_def mult_right_mono_neg)
    finally have "?v * ?e < ?u * ?D" using off' by (simp add: mult.commute)
    then show ?thesis
      using g y False left
      by (auto simp: raycast_cross_def grid_cmp moved_cmp crosses_up_def Let_def)
  qed
qed

lemma raycast_cross_slanted:
  assumes g: "grid ax" "grid ay" "grid bx" "grid by" "grid px" "grid py"
    and y: "ay \<noteq> by" "min ay by \<le> py" "py \<le> max ay by" and off: "\<not> on_seg ax ay bx by px py"
  shows "raycast_cross (ipoint ax ay) (ipoint bx by) (f_of_int px) (moved ay by py) =
    mk_raycast (crosses ax ay bx by px py) False"
proof (cases "ay < by")
  case True
  then have "\<not> crosses_up bx by ax ay px py" by (auto simp: crosses_up_def)
  then show ?thesis using raycast_cross_up [OF g True _ _ off] y True by (simp add: crosses_def)
next
  case False
  then have l: "by < ay" using y by simp
  then have "\<not> crosses_up ax ay bx by px py" by (auto simp: crosses_up_def)
  moreover have "moved ay by py = moved by ay py" by (auto simp: moved_def)
  ultimately show ?thesis
    using raycast_cross_up [OF g(3,4,1,2,5,6) l] raycast_cross_swap [OF g(3,4,1,2)] y l off
    by (simp add: crosses_def on_seg_sym)
qed

lemma seg_Raycast_slanted:
  assumes g: "grid ax" "grid ay" "grid bx" "grid by" "grid px" "grid py"
    and y: "ay \<noteq> by" "min ay by \<le> py" "py \<le> max ay by"
  shows "seg_Raycast (iseg ax ay bx by) (ipoint px py) =
    Inr (if on_seg ax ay bx by px py then mk_raycast False True
         else mk_raycast (crosses ax ay bx by px py) False)"
proof -
  have in_range: "\<not> (ay < by \<and> (py < ay \<or> by < py))" "\<not> (by < ay \<and> (py < by \<or> ay < py))"
    using y by auto
  have vert: "(if ay < by then ay \<le> py \<and> py \<le> by else by \<le> py \<and> py \<le> ay)" using y by auto
  have on: "on_seg ax ay bx by px py \<longleftrightarrow> (px - ax) * (by - ay) = (py - ay) * (bx - ax)"
    by (rule on_seg_slanted [OF y])
  show ?thesis
  proof (cases "ax = bx \<and> px = bx")
    case True
    then show ?thesis
      using g in_range vert on y(1) by (auto simp: seg_Raycast_def Let_def grid_cmp)
  next
    case False
    then have "on_seg ax ay bx by px py \<longleftrightarrow>
        ax \<noteq> bx \<and> ay \<noteq> by \<and> (px - ax) * (by - ay) = (py - ay) * (bx - ax)"
      using on y(1) by auto
    then have "seg_Raycast (iseg ax ay bx by) (ipoint px py) =
        Inr (if on_seg ax ay bx by px py then mk_raycast False True
             else raycast_cross (ipoint ax ay) (ipoint bx by) (f_of_int px) (moved ay by py))"
      using g in_range y(1) False collinear_test [OF g]
      by (auto simp: seg_Raycast_def Let_def grid_cmp nudge_moved)
    then show ?thesis using raycast_cross_slanted [OF g y] by simp
  qed
qed

lemma seg_Raycast_flat:
  assumes g: "grid ax" "grid ay" "grid bx" "grid px" "grid py"
  shows "seg_Raycast (iseg ax ay bx ay) (ipoint px py) =
    Inr (mk_raycast False (on_seg ax ay bx ay px py))"
proof -
  have on: "on_seg ax ay bx ay px py \<longleftrightarrow> py = ay \<and> min ax bx \<le> px \<and> px \<le> max ax bx"
    by (auto simp: on_seg_def)
  show ?thesis
  proof (cases "ax = bx")
    case True
    then have "on_seg ax ay bx ay px py \<longleftrightarrow> px = ax \<and> py = ay" using on by auto
    then show ?thesis using g True
      by (cases "px = ax \<and> py = ay") (auto simp: seg_Raycast_def Let_def grid_cmp point_eq_def)
  next
    case False
    have "raycast_cross (ipoint ax ay) (ipoint bx ay) (f_of_int px) (moved ay ay py) = mk_raycast False False"
      using g by (auto simp: raycast_cross_def grid_cmp moved_cmp Let_def)
    then show ?thesis
      using g on False collinear_test [OF g(1,2,3,2,4,5)]
      by (auto simp: seg_Raycast_def Let_def grid_cmp nudge_moved)
  qed
qed

lemma seg_Raycast_grid:
  assumes g: "grid ax" "grid ay" "grid bx" "grid by" "grid px" "grid py"
  shows "seg_Raycast (iseg ax ay bx by) (ipoint px py) =
    Inr (mk_raycast (\<not> on_seg ax ay bx by px py \<and> crosses ax ay bx by px py)
                    (on_seg ax ay bx by px py))"
proof -
  consider (flat) "ay = by" | (out) "ay \<noteq> by" "py < min ay by \<or> max ay by < py"
    | (slanted) "ay \<noteq> by" "min ay by \<le> py" "py \<le> max ay by" by linarith
  then show ?thesis
  proof cases
    case flat
    then have "\<not> crosses ax ay bx by px py" by (auto simp: crosses_def crosses_up_def)
    then show ?thesis using flat seg_Raycast_flat [OF g(1,2,3,5,6)] by simp
  next
    case out
    then have "\<not> on_seg ax ay bx by px py" "\<not> crosses ax ay bx by px py"
      by (auto simp: on_seg_def crosses_def crosses_up_def)
    moreover have "seg_Raycast (iseg ax ay bx by) (ipoint px py) = Inr (mk_raycast False False)"
      using g out by (auto simp: seg_Raycast_def Let_def grid_cmp min_def max_def split: if_splits)
    ultimately show ?thesis by simp
  next
    case slanted
    then show ?thesis using seg_Raycast_slanted [OF g slanted] by simp
  qed
qed

text \<open>
  C3: on the grid of integers of at most 2 ^ 24 the ray cast is exact, in spite of its divisions in
  floating point and of the ray that it moves by one unit in the last place: \<open>On\<close> says that the
  point lies on the segment, \<open>In\<close> that the ray to the right crosses the segment, which counts with
  its lower end and without its upper end.
\<close>

theorem seg_Raycast_exact:
  assumes "\<bar>ax\<bar> \<le> 2 ^ 24" "\<bar>ay\<bar> \<le> 2 ^ 24" "\<bar>bx\<bar> \<le> 2 ^ 24" "\<bar>by\<bar> \<le> 2 ^ 24" "\<bar>px\<bar> \<le> 2 ^ 24" "\<bar>py\<bar> \<le> 2 ^ 24"
  shows "seg_Raycast (iseg ax ay bx by) (ipoint px py) =
    Inr (mk_raycast (\<not> on_seg ax ay bx by px py \<and> crosses ax ay bx by px py)
                    (on_seg ax ay bx by px py))"
  using assms by (intro seg_Raycast_grid) (simp_all add: grid_def)

theorem seg_Raycast_exact_witness:
  "seg_Raycast (iseg 0 0 4 4) (ipoint 2 3) = Inr (mk_raycast True False)"
  using seg_Raycast_exact [of 0 0 4 4 2 3] by (simp add: on_seg_def crosses_def crosses_up_def)

lemma seg_Raycast_total:
  assumes "is_fin (Y (SegA seg))" "is_fin (Y (SegB seg))"
  shows "\<exists>r. seg_Raycast seg point = Inr r"
  using nudge_total [OF assms, of "Y point"] by (auto simp: seg_Raycast_def Let_def)

text \<open>
  C31: the ray cast returns for every segment with finite ordinates and every point, also where the
  loop moves the ray; that loop makes the point's ordinate differ from both ends.
\<close>

theorem seg_Raycast_terminates:
  assumes "is_fin (Y (SegA seg))" "is_fin (Y (SegB seg))"
  shows "\<exists>r. seg_Raycast seg point = Inr r"
  using seg_Raycast_total [OF assms] .

theorem seg_Raycast_terminates_witness:
  "\<exists>r. seg_Raycast (iseg 0 0 4 4) (mk_point 0 (f_inf False)) = Inr r"
  using seg_Raycast_terminates [of "iseg 0 0 4 4"] by simp

lemma inf_minus_fin:
  assumes "is_fin y"
  shows "f_inf False - y = f_inf False"
  using assms by (simp add: minus_f64_def fadd_def fneg_def f_inf_def inf_mag_def is_inf_def is_nan_def is_fin_def)

text \<open>
  C40: the ray cast never returns where the point and one end of a segment are both at positive
  infinity, whichever end that is, the other end is finite, and the segment and the point are not on one vertical
  line: the next float above positive infinity is positive infinity again.
\<close>

theorem seg_Raycast_diverges:
  assumes "Y point = f_inf False"
    and "Y (SegA seg) = f_inf False \<and> is_fin (Y (SegB seg)) \<or> is_fin (Y (SegA seg)) \<and> Y (SegB seg) = f_inf False"
    and "\<not> (feq (X (SegA seg)) (X (SegB seg)) \<and> feq (X point) (X (SegB seg)))"
  shows "seg_Raycast seg point = Inl Diverges"
proof -
  let ?a = "Y (SegA seg)" and ?b = "Y (SegB seg)"
  have "f_inf False - f_inf False = f_nan"
    by (simp add: minus_f64_def fadd_def fneg_def f_inf_def inf_mag_def is_inf_def is_nan_def)
  moreover have "is_nan (f_nan / z)" for z by (simp add: divide_f64_def fdiv_def)
  moreover have "f_inf False / f_inf False = f_nan" by (simp add: divide_f64_def fdiv_def f_inf_def inf_mag_def is_inf_def is_nan_def)
  moreover have "is_nan f_nan" by (simp add: f_nan_def is_nan_def f_mag_def inf_mag_def)
  ultimately have nan: "is_nan ((Y point - ?a) / (?b - ?a))" using assms(1,2) inf_minus_fin [of ?a] by auto
  have none: "nudge ?a ?b (Y point) = None"
    unfolding assms(1) using assms(2) by (intro nudge_diverges) (auto simp: feq_def)
  have key: "fkey (f_inf False) = int inf_mag" "\<not> is_nan (f_inf False)" by (simp_all add: f_inf_def fkey_f_mk is_nan_key)
  have fin: "\<not> is_nan z \<and> fkey z < int inf_mag" if "is_fin z" for z using that by (auto simp: is_fin_key is_nan_key)
  have place: "\<not> feq ?a ?b \<and> \<not> (?a < ?b \<and> (Y point < ?a \<or> Y point > ?b)) \<and> \<not> (?a > ?b \<and> (Y point < ?b \<or> Y point > ?a))"
    using assms(2)
  proof
    assume "?a = f_inf False \<and> is_fin ?b"
    then show ?thesis using fin [of ?b] key by (simp add: assms(1) f64_order feq_def)
  next
    assume "is_fin ?a \<and> ?b = f_inf False"
    then show ?thesis using fin [of ?a] key by (simp add: assms(1) f64_order feq_def)
  qed
  have ratio: "\<not> feq z ((Y point - ?a) / (?b - ?a))" for z using nan by (simp add: feq_def)
  show ?thesis unfolding seg_Raycast_def Let_def using place ratio none assms(3) by auto
qed
theorem seg_Raycast_diverges_witness:
  "seg_Raycast (mk_segment (ipoint 1 0) (mk_point 0 (f_inf False))) (mk_point 0 (f_inf False)) = Inl Diverges"
  using seg_Raycast_diverges [of "mk_point 0 (f_inf False)" "mk_segment (ipoint 1 0) (mk_point 0 (f_inf False))"]
    fint_feq [OF fint_f_of_int [of 1] fint_0] by simp

end
