(* ===== verification/Ring_Points.thy ===== *)
theory Ring_Points
  imports Ring Series_Search Raycast_Grid
begin

text \<open>
  The point-in-ring test: \<open>ringContainsPoint\<close> counts the crossings of a ray and stops at an edge that
  the point is on, whatever the order in which the index hands it the segments. On a grid of
  integers that is the even-odd rule, and a rectangle as a ring contains a point exactly if
  \<open>Rect.ContainsPoint\<close> says so.
\<close>

section \<open>Crossing parity\<close>

text \<open>Segments with finite ordinates, on which the ray cast returns.\<close>

definition ring_ok :: "Ring \<Rightarrow> bool" where
  "ring_ok ring \<longleftrightarrow> s_ok ring \<and> (\<forall>i \<in> set [0..sNumSegments ring - 1].
     is_fin (Y (SegA (s_seg ring i))) \<and> is_fin (Y (SegB (s_seg ring i))))"

definition ray :: "Segment \<Rightarrow> Point \<Rightarrow> RaycastResult" where
  "ray seg p = projr (seg_Raycast seg p)"

text \<open>The segments that the horizontal line through the point meets.\<close>

definition at_height :: "Ring \<Rightarrow> Point \<Rightarrow> int list" where
  "at_height ring p =
     filter (\<lambda>i. rect_IntersectsRect (seg_Rect (s_seg ring i)) (ray_rect p)) [0..sNumSegments ring - 1]"

lemma at_height_hits: "s_search.hit_indices ring (ray_rect p) = at_height ring p"
  by (simp add: s_search.hit_indices_def at_height_def)

lemma ring_ok_ray:
  assumes "ring_ok ring" "i \<in> set [0..sNumSegments ring - 1]"
  shows "seg_Raycast (s_seg ring i) p = Inr (ray (s_seg ring i) p)"
proof -
  have "is_fin (Y (SegA (s_seg ring i)))" "is_fin (Y (SegB (s_seg ring i)))"
    using assms by (auto simp: ring_ok_def)
  then obtain r where "seg_Raycast (s_seg ring i) p = Inr r"
    using seg_Raycast_total by blast
  then show ?thesis by (simp add: ray_def)
qed

lemma fold_toggle:
  "fold (\<lambda>i (idx, inside). (idx, inside \<noteq> P i)) is (idx, inside) =
     (idx, inside \<noteq> odd (length (filter P is)))"
  by (induction "is" arbitrary: inside) auto

lemma ringContainsPoint_search:
  "ringContainsPoint ring point allowOnEdge =
     rbind (sSearch ring (ray_rect point) (containsPointSearcher point allowOnEdge) (- 1, False))
       (\<lambda>(idx, inside). Inr \<lparr>hit = inside, rr_idx = idx\<rparr>)"
  by (cases ring) (auto simp: ringContainsPoint_def ringContainsPointBaseSeries_def
      ringContainsPointGeneric_def rbind_assoc split: prod.split intro!: rbind_cong)

lemma ringContainsPoint_parity:
  assumes "ring_ok ring"
  shows "\<exists>idx. ringContainsPoint ring p allowOnEdge = Inr \<lparr>hit =
      (if \<exists>i \<in> set (at_height ring p). On (ray (s_seg ring i) p) then allowOnEdge
       else odd (length (filter (\<lambda>i. In (ray (s_seg ring i) p)) (at_height ring p)))), rr_idx = idx\<rparr> \<and>
    (if \<exists>i \<in> set (at_height ring p). On (ray (s_seg ring i) p)
     then idx \<in> set (at_height ring p) \<and> On (ray (s_seg ring idx) p) else idx = - 1)"
proof -
  have ok: "s_ok ring" using assms by (simp add: ring_ok_def)
  have step: "containsPointSearcher p allowOnEdge (s_seg ring i) i s =
      Inr (if On (ray (s_seg ring i) p) then (False, (i, allowOnEdge))
           else (True, (\<lambda>(idx, inside). (idx, inside \<noteq> In (ray (s_seg ring i) p))) s))"
    if "i \<in> set (s_search.hit_indices ring (ray_rect p))" for i s
    using ring_ok_ray [OF assms, of i p] that
    by (cases s) (auto simp: containsPointSearcher_def at_height_hits at_height_def)
  have "if \<exists>i \<in> set (at_height ring p). On (ray (s_seg ring i) p)
    then \<exists>i \<in> set (at_height ring p). On (ray (s_seg ring i) p) \<and>
      sSearch ring (ray_rect p) (containsPointSearcher p allowOnEdge) (- 1, False) = Inr (i, allowOnEdge)
    else sSearch ring (ray_rect p) (containsPointSearcher p allowOnEdge) (- 1, False) =
      Inr (fold (\<lambda>i (idx, inside). (idx, inside \<noteq> In (ray (s_seg ring i) p))) (at_height ring p) (- 1, False))"
    unfolding at_height_hits [symmetric]
    by (rule s_search.search_until [where g = "\<lambda>i. (i, allowOnEdge)" and stop = "\<lambda>i. On (ray (s_seg ring i) p)"
          and iter = "containsPointSearcher p allowOnEdge"
          and f = "\<lambda>i (idx, inside). (idx, inside \<noteq> In (ray (s_seg ring i) p))", OF ok])
      (auto simp: fun_eq_iff step)
  then show ?thesis
    unfolding fold_toggle by (auto simp: ringContainsPoint_search split: if_splits)
qed

lemmas rect_sides = rect_South_def rect_East_def rect_North_def rect_West_def
  rect_SW_def rect_SE_def rect_NE_def rect_NW_def

lemma rect_ring_segs:
  "[0..sNumSegments (RectSeries r) - 1] = [0, 1, 2, 3]"
  "rect_seg r 0 = rect_South r" "rect_seg r 1 = rect_East r" "rect_seg r 2 = rect_North r"
  "rect_seg r 3 = rect_West r"
  by (simp_all add: rect_NumSegments_def upto_rec1 rect_seg_def rect_SegmentAt_def)

lemma rect_ring_ok: "is_fin (Y (RMin r)) \<Longrightarrow> is_fin (Y (RMax r)) \<Longrightarrow> ring_ok (RectSeries r)"
  unfolding ring_ok_def rect_ring_segs(1) by (simp add: rect_ring_segs rect_sides)

text \<open>
  C22: \<open>ringContainsPoint\<close> returns for every ring with finite ordinates. If the point is on an edge, it
  reports the index of such an edge and the value of \<open>allowOnEdge\<close>; otherwise it reports no edge,
  and a hit exactly if the number of crossed edges is odd.
\<close>

theorem ringContainsPoint_correct:
  assumes "ring_ok ring"
  shows "\<exists>res. ringContainsPoint ring p allowOnEdge = Inr res \<and>
    (if \<exists>i \<in> set (at_height ring p). On (ray (s_seg ring i) p)
     then hit res = allowOnEdge \<and> rr_idx res \<in> set (at_height ring p) \<and> On (ray (s_seg ring (rr_idx res)) p)
     else hit res = odd (length (filter (\<lambda>i. In (ray (s_seg ring i) p)) (at_height ring p))) \<and>
       rr_idx res = - 1)"
  using ringContainsPoint_parity [OF assms, of p allowOnEdge] by (auto split: if_splits)

theorem ringContainsPoint_correct_witness:
  "\<exists>res. ringContainsPoint (RectSeries (irect 0 0 4 4)) (ipoint 9 9) True = Inr res \<and> rr_idx res = - 1"
proof -
  have ok: "ring_ok (RectSeries (irect 0 0 4 4))" by (rule rect_ring_ok) simp_all
  moreover have "at_height (RectSeries (irect 0 0 4 4)) (ipoint 9 9) = []"
    unfolding at_height_def rect_ring_segs(1)
    by (simp add: rect_ring_segs rect_sides rect_IntersectsRect_alt seg_Rect_sel ray_rect_def)
  ultimately show ?thesis using ringContainsPoint_correct [OF ok, of "ipoint 9 9" True] by auto
qed

section \<open>Rings from points\<close>

definition point_fin :: "Point \<Rightarrow> bool" where
  "point_fin p \<longleftrightarrow> is_fin (X p) \<and> is_fin (Y p)"

lemma point_fin_ok: "point_fin p \<Longrightarrow> point_ok p"
  by (auto simp: point_fin_def point_ok_def is_fin_def is_nan_def)

lemma base_ring_ok:
  assumes "series_wf bs" "index_ok bs" "\<forall>p \<in> set (bs_points bs). point_fin p" "length (bs_points bs) \<le> 2 ^ 20"
  shows "ring_ok (BaseSeries bs)"
proof -
  have "is_fin (Y (SegA (item_seg bs i))) \<and> is_fin (Y (SegB (item_seg bs i)))"
    if "i \<in> set [0..series_NumSegments bs - 1]" for i
    using SegmentAt_eq [OF that] assms(3) by (auto simp: item_seg_def point_fin_def)
  then show ?thesis using searchable_small [OF assms(1,2,4)] by (auto simp: ring_ok_def)
qed

lemma newRing_ok:
  assumes "\<forall>p \<in> set points. point_fin p" "length points \<le> 2 ^ 20" "newRing points opts = Inr ring"
  obtains bs where "ring = BaseSeries bs" "bs_points bs = points" "bs_closed bs" "ring_ok ring"
    "bs_convex bs = fst (processPoints points True)"
proof -
  have ok: "\<forall>p \<in> set points. point_ok p" using assms(1) point_fin_ok by blast
  obtain bs where bs: "makeSeries points True True opts = Inr bs" "bs_points bs = points" "bs_closed bs"
    "(bs_convex bs, bs_rect bs, bs_clockwise bs) = processPoints points True" "series_wf bs" "index_ok bs"
    using makeSeries_ok [OF ok, of True True opts] assms(2) by auto
  have ring: "ring = BaseSeries bs" using bs(1) assms(3) by (simp add: newRing_def)
  have "ring_ok ring" using base_ring_ok [OF bs(5,6)] assms(1,2) bs(2) ring by simp
  moreover have "bs_convex bs = fst (processPoints points True)" using bs(4) by (metis fst_conv)
  ultimately show thesis using ring bs(2,3) that by blast
qed

text \<open>
  The index does not change the answer: rings made from the same finite points with any two
  index options agree on every point, with and without the edge.
\<close>

theorem ringContainsPoint_index_irrelevant:
  assumes "\<forall>p \<in> set points. point_fin p" "length points \<le> 2 ^ 20"
    and "newRing points opts = Inr ring" "newRing points opts' = Inr ring'"
  shows "\<exists>res res'. ringContainsPoint ring p allowOnEdge = Inr res \<and>
    ringContainsPoint ring' p allowOnEdge = Inr res' \<and> hit res = hit res' \<and>
    (rr_idx res = - 1 \<longleftrightarrow> rr_idx res' = - 1)"
proof -
  obtain bs where bs: "ring = BaseSeries bs" "bs_points bs = points" "bs_closed bs" "ring_ok ring"
    using newRing_ok [OF assms(1-3)] by blast
  obtain bs' where bs': "ring' = BaseSeries bs'" "bs_points bs' = points" "bs_closed bs'" "ring_ok ring'"
    using newRing_ok [OF assms(1,2,4)] by blast
  have seg: "s_seg ring' = s_seg ring" "sNumSegments ring' = sNumSegments ring"
    using bs bs' by (simp_all add: item_seg_def series_SegmentAt_def series_NumSegments_def fun_eq_iff cong: if_cong)
  then have "at_height ring' p = at_height ring p" by (simp add: at_height_def)
  moreover have "i \<noteq> - 1" if "i \<in> set (at_height ring p)" for i using that by (auto simp: at_height_def)
  ultimately show ?thesis
    using ringContainsPoint_parity [OF bs(4), of p allowOnEdge]
      ringContainsPoint_parity [OF bs'(4), of p allowOnEdge] seg by (auto split: if_splits)
qed

abbreviation triangle :: "Point list" where
  "triangle \<equiv> [ipoint 0 0, ipoint 4 0, ipoint 0 4]"

lemma example_ring:
  obtains ring where "newRing triangle (Some \<lparr>Kind = KindQuadTree, MinPoints = 1\<rparr>) = Inr ring"
    "sIndex ring = [1, 10, 0, 0, 0, 3, 0, 1, 1, 0]"
proof -
  obtain rect cwc t where p: "process_loop triangle = (rect, cwc, t)" by (cases "process_loop triangle")
  have "newRing triangle (Some \<lparr>Kind = KindQuadTree, MinPoints = 1\<rparr>) =
      Inr (BaseSeries \<lparr>bs_closed = True, bs_clockwise = 0 < cwc, bs_convex = \<not> t_concave t,
        bs_indexKind = 1, bs_index = Some [1, 10, 0, 0, 0, 3, 0, 1, 1, 0], bs_rect = rect,
        bs_points = triangle\<rparr>)"
    by (simp add: newRing_def makeSeries_def zero_series_def series_buildIndex_def
        series_NumSegments_def Let_def upto_rec1 series_SegmentAt_def index_at_def new_qNode_def
        qMaxDepth_def qMaxItems_def processPoints_def p series_setCompressed_def appendUvarint_def
        put_uint32_at1_def KindQuadTree_def point_eq_def)
  then show thesis by (rule that) (simp add: series_Index_def)
qed

lemma example_plain_ring:
  obtains ring where "newRing triangle (Some NoIndexing) = Inr ring" "sIndex ring = []"
proof -
  obtain c r w where p: "processPoints triangle True = (c, r, w)" by (cases "processPoints triangle True")
  have "newRing triangle (Some NoIndexing) =
      Inr (BaseSeries \<lparr>bs_closed = True, bs_clockwise = w, bs_convex = c,
        bs_indexKind = 0, bs_index = None, bs_rect = r, bs_points = triangle\<rparr>)"
    by (simp add: newRing_def makeSeries_def zero_series_def Let_def p NoIndexing_def)
  then show thesis by (rule that) (simp add: series_Index_def)
qed

theorem ringContainsPoint_index_irrelevant_witness:
  "\<exists>ring ring' res res'. newRing triangle (Some \<lparr>Kind = KindQuadTree, MinPoints = 1\<rparr>) = Inr ring \<and>
     newRing triangle (Some NoIndexing) = Inr ring' \<and>
     ringContainsPoint ring (ipoint 1 1) True = Inr res \<and>
     ringContainsPoint ring' (ipoint 1 1) True = Inr res' \<and> hit res = hit res'"
proof -
  obtain ring where r: "newRing triangle (Some \<lparr>Kind = KindQuadTree, MinPoints = 1\<rparr>) = Inr ring"
    "sIndex ring = [1, 10, 0, 0, 0, 3, 0, 1, 1, 0]" by (rule example_ring)
  obtain ring' where r': "newRing triangle (Some NoIndexing) = Inr ring'" "sIndex ring' = []"
    by (rule example_plain_ring)
  show ?thesis
    using ringContainsPoint_index_irrelevant [OF _ _ r(1) r'(1), of "ipoint 1 1" True] r r'
    by (auto simp: point_fin_def)
qed

section \<open>The even-odd rule\<close>

text \<open>The edges of a polygon with integer corners, the edge from the last to the first included.\<close>

definition edges :: "(int \<times> int) list \<Rightarrow> ((int \<times> int) \<times> (int \<times> int)) list" where
  "edges pts = zip pts (rotate1 pts)"

definition edge_on :: "int \<Rightarrow> int \<Rightarrow> (int \<times> int) \<times> (int \<times> int) \<Rightarrow> bool" where
  "edge_on px py = (\<lambda>((ax, ay), (bx, by)). on_seg ax ay bx by px py)"

definition edge_crosses :: "int \<Rightarrow> int \<Rightarrow> (int \<times> int) \<times> (int \<times> int) \<Rightarrow> bool" where
  "edge_crosses px py = (\<lambda>((ax, ay), (bx, by)). crosses ax ay bx by px py)"

definition even_odd :: "(int \<times> int) list \<Rightarrow> int \<Rightarrow> int \<Rightarrow> bool \<Rightarrow> bool" where
  "even_odd pts px py on_edge =
     (if \<exists>e \<in> set (edges pts). edge_on px py e then on_edge
      else odd (length (filter (edge_crosses px py) (edges pts))))"

definition edge_seg :: "(int \<times> int) \<times> (int \<times> int) \<Rightarrow> Segment" where
  "edge_seg = (\<lambda>((ax, ay), (bx, by)). iseg ax ay bx by)"

definition grid_edge :: "(int \<times> int) \<times> (int \<times> int) \<Rightarrow> bool" where
  "grid_edge = (\<lambda>((ax, ay), (bx, by)). grid ax \<and> grid ay \<and> grid bx \<and> grid by)"

lemma edge_ray:
  assumes "grid_edge e" "grid px" "grid py"
  shows "ray (edge_seg e) (ipoint px py) =
    mk_raycast (\<not> edge_on px py e \<and> edge_crosses px py e) (edge_on px py e)"
  using assms seg_Raycast_grid
  by (auto simp: ray_def edge_seg_def edge_on_def edge_crosses_def grid_edge_def split: prod.splits)

lemma edge_at_height:
  assumes "grid_edge e" "grid px" "grid py" "edge_on px py e \<or> edge_crosses px py e"
  shows "rect_IntersectsRect (seg_Rect (edge_seg e)) (ray_rect (ipoint px py))"
proof -
  obtain ax ay bx b where e: "e = ((ax, ay), (bx, b))" by (metis prod.exhaust)
  have g: "grid ax" "grid ay" "grid bx" "grid b" using assms(1) by (simp_all add: grid_edge_def e)
  have y: "min ay b \<le> py" "py \<le> max ay b"
    using assms(4) by (auto simp: e edge_on_def edge_crosses_def on_seg_def crosses_def crosses_up_def)
  have x: "\<not> f_inf False < f_of_int k" "\<not> f_of_int k < f_inf True" for k
    using rnd_bound by (auto simp: f64_order not_nan_key abs_le_iff)
  show ?thesis
    using g assms(3) y x
    by (auto simp: rect_IntersectsRect_alt seg_Rect_sel ray_rect_def edge_seg_def e grid_cmp)
qed

lemma edges_nth:
  assumes "i < length pts"
  shows "edges pts ! i = (pts ! i, pts ! (if i = length pts - 1 then 0 else Suc i))"
  using assms by (auto simp: edges_def nth_rotate1 mod_Suc)

lemma edges_length [simp]: "length (edges pts) = length pts"
  by (simp add: edges_def)

lemma take_upto: "n \<le> length xs \<Longrightarrow> take n xs = map (\<lambda>i. xs ! nat i) [0..int n - 1]"
  by (rule nth_equalityI) simp_all

lemma even_odd_closed:
  assumes "2 \<le> length pts" "last pts = hd pts"
  shows "even_odd pts px py a =
     (if \<exists>e \<in> set (take (length pts - 1) (edges pts)). edge_on px py e then a
      else odd (length (filter (edge_crosses px py) (take (length pts - 1) (edges pts)))))"
proof -
  let ?n = "length pts - 1"
  have ne: "pts \<noteq> []" using assms by auto
  have "edges pts ! ?n = (last pts, hd pts)"
    using assms ne by (subst edges_nth) (auto simp: last_conv_nth hd_conv_nth)
  then have e: "edges pts = take ?n (edges pts) @ [(hd pts, hd pts)]"
    using take_Suc_conv_app_nth [of ?n "edges pts"] assms by simp
  obtain x y where v: "hd pts = (x, y)" by fastforce
  have c: "\<not> edge_crosses px py (hd pts, hd pts)"
    by (auto simp: v edge_crosses_def crosses_def crosses_up_def)
  have on: "\<exists>e \<in> set (take ?n (edges pts)). edge_on px py e" if "edge_on px py (hd pts, hd pts)"
  proof -
    have "px = x" "py = y" using that by (auto simp: v edge_on_def on_seg_def)
    then have "edge_on px py (hd pts, w)" for w
      by (cases w) (auto simp: v edge_on_def on_seg_def)
    moreover have "edges pts ! 0 = (hd pts, pts ! 1)"
      using assms ne by (subst edges_nth) (auto simp: hd_conv_nth)
    moreover have "edges pts ! 0 \<in> set (take ?n (edges pts))"
      using assms by (auto simp: in_set_conv_nth intro!: exI [of _ 0])
    ultimately show ?thesis by metis
  qed
  show ?thesis
    unfolding even_odd_def
    by (subst (1 2) e) (use c on in \<open>auto simp del: edges_length\<close>)
qed

text \<open>The segments of a ring as a list, in the order of their indices.\<close>

lemma parity_edges:
  assumes idx: "at_height ring (ipoint px py) = filter (\<lambda>i. rect_IntersectsRect (seg_Rect (s_seg ring i))
      (ray_rect (ipoint px py))) [0..int n - 1]"
    and seg: "\<And>i. i \<in> set [0..int n - 1] \<Longrightarrow> s_seg ring i = edge_seg (es ! nat i)"
    and es: "n \<le> length es" "\<forall>e \<in> set es. grid_edge e" and g: "grid px" "grid py"
  shows "(\<exists>i \<in> set (at_height ring (ipoint px py)). On (ray (s_seg ring i) (ipoint px py))) \<longleftrightarrow>
      (\<exists>e \<in> set (take n es). edge_on px py e)"
    and "\<not> (\<exists>e \<in> set (take n es). edge_on px py e) \<Longrightarrow>
      length (filter (\<lambda>i. In (ray (s_seg ring i) (ipoint px py))) (at_height ring (ipoint px py))) =
      length (filter (edge_crosses px py) (take n es))"
proof -
  let ?h = "\<lambda>i. rect_IntersectsRect (seg_Rect (s_seg ring i)) (ray_rect (ipoint px py))"
  let ?I = "[0..int n - 1]"
  have take: "take n es = map (\<lambda>i. es ! nat i) ?I" by (rule take_upto [OF es(1)])
  have e: "grid_edge (es ! nat i)" if "i \<in> set ?I" for i
    using that es by (auto intro!: bspec [OF es(2)] nth_mem)
  have r: "ray (s_seg ring i) (ipoint px py) = mk_raycast (\<not> edge_on px py (es ! nat i) \<and>
      edge_crosses px py (es ! nat i)) (edge_on px py (es ! nat i))" if "i \<in> set ?I" for i
    using seg [OF that] edge_ray [OF e [OF that] g] by simp
  have h: "?h i" if "i \<in> set ?I" "edge_on px py (es ! nat i) \<or> edge_crosses px py (es ! nat i)" for i
    using edge_at_height [OF e [OF that(1)] g that(2)] seg [OF that(1)] by simp
  show "(\<exists>i \<in> set (at_height ring (ipoint px py)). On (ray (s_seg ring i) (ipoint px py))) \<longleftrightarrow>
      (\<exists>e \<in> set (take n es). edge_on px py e)"
    unfolding take idx using r h by (auto simp: mk_raycast_def)
  assume "\<not> (\<exists>e \<in> set (take n es). edge_on px py e)"
  then have off: "\<not> edge_on px py (es ! nat i)" if "i \<in> set ?I" for i using that unfolding take by auto
  have "filter (\<lambda>i. In (ray (s_seg ring i) (ipoint px py))) (filter ?h ?I) =
      filter (\<lambda>i. edge_crosses px py (es ! nat i)) ?I"
    unfolding filter_filter using r h off by (intro filter_cong refl) (auto simp: mk_raycast_def)
  then show "length (filter (\<lambda>i. In (ray (s_seg ring i) (ipoint px py))) (at_height ring (ipoint px py))) =
      length (filter (edge_crosses px py) (take n es))"
    unfolding idx take by (simp add: filter_map o_def)
qed

abbreviation ipoints :: "(int \<times> int) list \<Rightarrow> Point list" where
  "ipoints \<equiv> map (\<lambda>(x, y). ipoint x y)"

lemma grid_edges:
  assumes "\<forall>(x, y) \<in> set pts. grid x \<and> grid y"
  shows "\<forall>e \<in> set (edges pts). grid_edge e"
proof
  fix e
  assume "e \<in> set (edges pts)"
  then have "fst e \<in> set pts" "snd e \<in> set pts"
    unfolding edges_def by (metis prod.collapse set_zip_leftD set_zip_rightD set_rotate1)+
  then show "grid_edge e" using assms by (auto simp: grid_edge_def split: prod.splits)
qed

lemma ring_edges:
  assumes "bs_points bs = ipoints pts" "bs_closed bs" "3 \<le> length pts"
    and "\<forall>(x, y) \<in> set pts. grid x \<and> grid y"
  shows "series_NumSegments bs = int (if last pts = hd pts then length pts - 1 else length pts)"
    and "i \<in> set [0..series_NumSegments bs - 1] \<Longrightarrow> item_seg bs i = edge_seg (edges pts ! nat i)"
proof -
  let ?n = "length pts"
  have ne: "pts \<noteq> []" using assms(3) by auto
  have p: "ipoints pts ! k = ipoint (fst (pts ! k)) (snd (pts ! k))" if "k < ?n" for k
    using that by (simp add: split_beta)
  have "grid (fst (pts ! k)) \<and> grid (snd (pts ! k))" if "k < ?n" for k
    using assms(4) nth_mem [OF that] by (auto simp: split_beta)
  then have "point_eq (ipoints pts ! (?n - 1)) (ipoints pts ! 0) \<longleftrightarrow> pts ! (?n - 1) = pts ! 0"
    using p [of "?n - 1"] p [of 0] ne by (simp add: point_eq_def grid_cmp prod_eq_iff)
  then show n: "series_NumSegments bs = int (if last pts = hd pts then length pts - 1 else length pts)"
    using assms(1-3) ne
    by (simp add: series_NumSegments_def Let_def last_conv_nth hd_conv_nth of_nat_diff)
  assume "i \<in> set [0..series_NumSegments bs - 1]"
  then have i: "0 \<le> i" "nat i < ?n" unfolding n by (auto split: if_splits)
  let ?j = "if i = int ?n - 1 then 0 else i + 1"
  have "item_seg bs i = mk_segment (ipoints pts ! nat i) (ipoints pts ! nat ?j)"
    using i by (auto simp: item_seg_def series_SegmentAt_def index_at_def assms(1))
  moreover have "edges pts ! nat i = (pts ! nat i, pts ! nat ?j)"
    using i by (subst edges_nth) (auto simp: nat_add_distrib)
  moreover have "nat ?j < ?n" using i ne by auto
  ultimately show "item_seg bs i = edge_seg (edges pts ! nat i)"
    using p i(2) by (simp add: edge_seg_def iseg_def split_beta)
qed

lemma base_ring_even_odd:
  assumes g: "\<forall>(x, y) \<in> set pts. grid x \<and> grid y" "grid px" "grid py" and "3 \<le> length pts"
    and bs: "bs_points bs = ipoints pts" "bs_closed bs" "ring_ok (BaseSeries bs)"
  shows "\<exists>res. ringContainsPoint (BaseSeries bs) (ipoint px py) allowOnEdge = Inr res \<and>
    hit res = even_odd pts px py allowOnEdge"
proof -
  let ?n = "if last pts = hd pts then length pts - 1 else length pts"
  note seg = ring_edges [OF bs(1,2) assms(4) g(1)]
  have i: "at_height (BaseSeries bs) (ipoint px py) = filter (\<lambda>i. rect_IntersectsRect
      (seg_Rect (s_seg (BaseSeries bs) i)) (ray_rect (ipoint px py))) [0..int ?n - 1]"
    by (simp add: at_height_def seg(1))
  have s: "s_seg (BaseSeries bs) i = edge_seg (edges pts ! nat i)" if "i \<in> set [0..int ?n - 1]" for i
    using seg(2) [unfolded seg(1), OF that] by simp
  note par = parity_edges [OF i s _ grid_edges [OF g(1)] g(2,3)]
  have "even_odd pts px py allowOnEdge =
      (if \<exists>e \<in> set (take ?n (edges pts)). edge_on px py e then allowOnEdge
       else odd (length (filter (edge_crosses px py) (take ?n (edges pts)))))"
  proof (cases "last pts = hd pts")
    case True
    then show ?thesis using even_odd_closed [of pts px py allowOnEdge] assms(4) by simp
  qed (simp add: even_odd_def)
  then show ?thesis
    using ringContainsPoint_parity [OF bs(3), of "ipoint px py" allowOnEdge] par by auto
qed

lemma ring_even_odd:
  assumes "\<forall>(x, y) \<in> set pts. \<bar>x\<bar> \<le> 2 ^ 24 \<and> \<bar>y\<bar> \<le> 2 ^ 24" "\<bar>px\<bar> \<le> 2 ^ 24" "\<bar>py\<bar> \<le> 2 ^ 24"
    and "3 \<le> length pts" "length pts \<le> 2 ^ 20" "newRing (ipoints pts) opts = Inr ring"
  shows "ring_ok ring \<and> (\<exists>res. ringContainsPoint ring (ipoint px py) allowOnEdge = Inr res \<and>
    hit res = even_odd pts px py allowOnEdge)"
proof -
  have g: "\<forall>(x, y) \<in> set pts. grid x \<and> grid y" "grid px" "grid py" using assms(1-3) by (auto simp: grid_def)
  have "\<forall>p \<in> set (ipoints pts). point_fin p"
    using g(1) fint_fin [OF grid_fint] by (auto simp: point_fin_def)
  then obtain bs where bs: "ring = BaseSeries bs" "bs_points bs = ipoints pts" "bs_closed bs" "ring_ok ring"
    using newRing_ok [OF _ _ assms(6)] assms(5) by auto
  then show ?thesis using base_ring_even_odd [OF g assms(4), of bs allowOnEdge] by simp
qed

text \<open>
  C2: on integer coordinates of at most 2 ^ 24 a ring contains a point exactly by the even-odd rule
  over its edges, with the points on an edge counted as \<open>allowOnEdge\<close> says. It does not matter
  whether the ring has an index or repeats its first point at the end.
\<close>

theorem ringContainsPoint_even_odd:
  assumes "\<forall>(x, y) \<in> set pts. \<bar>x\<bar> \<le> 2 ^ 24 \<and> \<bar>y\<bar> \<le> 2 ^ 24" "\<bar>px\<bar> \<le> 2 ^ 24" "\<bar>py\<bar> \<le> 2 ^ 24"
    and "3 \<le> length pts" "length pts \<le> 2 ^ 20"
    and "newRing (map (\<lambda>(x, y). ipoint x y) pts) opts = Inr ring"
  shows "\<exists>res. ringContainsPoint ring (ipoint px py) allowOnEdge = Inr res \<and>
    hit res = even_odd pts px py allowOnEdge"
  using ring_even_odd [OF assms] by blast

theorem ringContainsPoint_even_odd_witness:
  "\<exists>ring res. newRing triangle (Some \<lparr>Kind = KindQuadTree, MinPoints = 1\<rparr>) = Inr ring \<and>
     ringContainsPoint ring (ipoint 1 1) False = Inr res \<and> hit res"
proof -
  obtain ring where r: "newRing triangle (Some \<lparr>Kind = KindQuadTree, MinPoints = 1\<rparr>) = Inr ring"
    "sIndex ring = [1, 10, 0, 0, 0, 3, 0, 1, 1, 0]" by (rule example_ring)
  have "even_odd [(0, 0), (4, 0), (0, 4)] 1 1 False"
    by (simp add: even_odd_def edges_def edge_on_def edge_crosses_def on_seg_def crosses_def crosses_up_def)
  then show ?thesis
    using ringContainsPoint_even_odd [of "[(0, 0), (4, 0), (0, 4)]" 1 1
        "Some \<lparr>Kind = KindQuadTree, MinPoints = 1\<rparr>" ring False] r by simp
qed

section \<open>Axis-parallel segments\<close>

lemma fsub_not_nan: "\<not> is_nan x \<Longrightarrow> is_fin y \<Longrightarrow> \<not> is_nan (x - y)"
proof (cases "is_fin x")
  case False
  assume "\<not> is_nan x" "is_fin y"
  then have "is_inf x" "\<not> is_nan y" "\<not> is_inf y" using False by (auto simp: is_fin_def is_nan_def is_inf_def)
  then show ?thesis using \<open>\<not> is_nan x\<close> by (simp add: fsub_eq plus_f64_def fadd_def)
qed (simp add: fsub_fin(1))

lemma fsub_feq: "is_fin x \<Longrightarrow> is_fin y \<Longrightarrow> f_mag (x - y) = 0 \<longleftrightarrow> feq x y"
proof -
  assume fin: "is_fin x" "is_fin y"
  have k: "f_mag z = 0 \<longleftrightarrow> fkey z = 0" for z by (simp add: fkey_def)
  have "rnd (rval x - rval y) = 0 \<longleftrightarrow> rval x = rval y"
  proof
    assume r: "rnd (rval x - rval y) = 0"
    have u: "representable 0" "representable (1 / of_nat f_scale)"
      using representable_of_int [of 0] representable_units [of 1 0] by simp_all
    have d: "1 / of_nat f_scale \<le> rval v - rval w" if "rval w < rval v" for v w
    proof -
      have "fval w < fval v" using that by (simp add: rval_less_iff fval_less_iff)
      then have "(1::rat) \<le> of_int (fval v - fval w)" by simp
      then show ?thesis by (simp add: rval_def divide_right_mono flip: diff_divide_distrib)
    qed
    have "rnd 0 < rnd (rval v - rval w)" if "rval w < rval v" for v w
      by (rule rnd_between [OF u _ _ d [OF that]]) auto
    from this [of x y] this [of y x] r show "rval x = rval y"
      using rnd_uminus [of "rval x - rval y"] by (metis minus_diff_eq neqE neg_0_equal_iff_equal rnd_0 less_irrefl)
  qed simp
  then show ?thesis using fin by (simp add: k fsub_fin feq_rval)
qed

lemma fdiv_zero: "\<not> is_nan x \<Longrightarrow> f_mag z = 0 \<Longrightarrow> \<not> is_fin (x / z)"
proof -
  assume "\<not> is_nan x" "f_mag z = 0"
  moreover have "\<not> is_fin f_nan" using is_nan_f_nan by (simp add: is_nan_def is_fin_def)
  ultimately show ?thesis by (simp add: divide_f64_def fdiv_def is_nan_def is_inf_def inf_mag_def)
qed

lemma fdiv_zero_zero: "f_mag x = 0 \<Longrightarrow> f_mag z = 0 \<Longrightarrow> is_nan (x / z)"
  by (simp add: divide_f64_def fdiv_def is_nan_def [of x] is_nan_def [of z] is_inf_def inf_mag_def)

lemma nudge_sym:
  assumes "nudge a b p = Some y"
  shows "nudge b a p = Some y"
  using assms
  by (rule nudge.raw_induct [rotated]) (subst nudge.simps, auto split: if_splits)

lemma nextafter_up:
  "\<not> is_nan x \<Longrightarrow> \<not> is_nan (nextafter x (f_inf False)) \<and> fkey x \<le> fkey (nextafter x (f_inf False))"
  using nextafter_inf [of x] by (cases "feq x (f_inf False)") (auto simp: nextafter_def)

lemma nudge_up:
  assumes "nudge a b p = Some y"
  shows "\<not> is_nan p \<longrightarrow> \<not> is_nan y \<and> fkey p \<le> fkey y"
  using assms
proof (rule nudge.raw_induct [rotated])
  fix f :: "f64 \<Rightarrow> f64 \<Rightarrow> f64 \<Rightarrow> f64 option" and a b p y
  assume IH: "\<And>a b p y. f a b p = Some y \<Longrightarrow> \<not> is_nan p \<longrightarrow> \<not> is_nan y \<and> fkey p \<le> fkey y"
    and "(if feq p a \<or> feq p b then f a b (nextafter p (f_inf False)) else Some p) = Some y"
  then show "\<not> is_nan p \<longrightarrow> \<not> is_nan y \<and> fkey p \<le> fkey y"
    using nextafter_up [of p] by (fastforce split: if_splits)
qed

text \<open>Between two ordinates the quotient is at most one, so it is not an infinity.\<close>

lemma quot_in_range:
  assumes fin: "is_fin a" "is_fin b" "is_fin p" and "\<not> feq a b"
    and r: "a \<le> p \<and> p \<le> b \<or> b \<le> p \<and> p \<le> a"
  shows "is_fin ((p - a) / (b - a)) \<or> is_nan ((p - a) / (b - a))"
proof -
  have "\<bar>rnd (rval p - rval a)\<bar> \<le> \<bar>rnd (rval b - rval a)\<bar>"
  proof -
    consider "rval a \<le> rval p" "rval p \<le> rval b" | "rval b \<le> rval p" "rval p \<le> rval a"
      using r fin by (auto simp: f64_le_rval)
    then show ?thesis
      using rnd_mono [of "rval p - rval a" "rval b - rval a"] rnd_mono [of "rval b - rval a" "rval p - rval a"]
        rnd_nonneg [of "rval p - rval a"] rnd_mono [of "rval p - rval a" 0] by cases auto
  qed
  then have "\<bar>fkey (p - a)\<bar> \<le> \<bar>fkey (b - a)\<bar>" using fin by (simp add: fsub_fin)
  then have mag: "f_mag (p - a) \<le> f_mag (b - a)" by (simp add: fkey_abs)
  show ?thesis
  proof (cases "is_fin (b - a)")
    case True
    then have fin': "is_fin (p - a)" using mag by (simp add: is_fin_def)
    have nz: "fval (b - a) \<noteq> 0" using fsub_feq [of b a] fin assms(4) by (auto simp: fval_0_iff feq_def)
    have "f_units (f_mag (p - a)) \<le> f_units (f_mag (b - a))" using mag by simp
    then have v: "\<bar>fval (p - a)\<bar> \<le> \<bar>fval (b - a)\<bar>" by (simp add: fval_def)
    have "\<bar>rval (p - a) / rval (b - a)\<bar> = of_int \<bar>fval (p - a)\<bar> / of_int \<bar>fval (b - a)\<bar>"
      by (simp add: rval_def)
    also have "\<dots> \<le> 1" using v nz by (simp del: of_int_abs)
    finally have "rval (p - a) / rval (b - a) \<le> 1" "- 1 \<le> rval (p - a) / rval (b - a)"
      by (simp_all only: abs_le_iff minus_le_iff)
    then have "rnd (rval (p - a) / rval (b - a)) \<le> rnd 1" "rnd (- 1) \<le> rnd (rval (p - a) / rval (b - a))"
      by (auto intro: rnd_mono)
    moreover have "rnd 1 < int inf_mag"
      using rnd_rval [of 1] fint_1 by (simp add: fint_def is_fin_key abs_less_iff)
    ultimately have "\<bar>fkey ((p - a) / (b - a))\<bar> < int inf_mag"
      using fdiv_fin(2) [OF fin' True nz] by (simp add: rnd_uminus)
    then show ?thesis by (simp add: is_fin_key)
  next
    case False
    moreover have "\<not> is_nan (b - a)" "\<not> is_nan (p - a)" using fsub_fin(1) fin by blast+
    ultimately have "is_inf (b - a)" "\<not> is_nan (b - a)" "\<not> is_nan (p - a)"
      by (auto simp: is_fin_def is_inf_def is_nan_def)
    then show ?thesis
      by (auto simp: divide_f64_def fdiv_def is_fin_def inf_mag_def)
  qed
qed

lemma ray_flat:
  assumes fin: "is_fin (X a)" "is_fin (Y a)" "is_fin (X b)" "is_fin (Y b)" "point_ok p"
    and "feq (Y a) (Y b)" "feq (Y p) (Y b)"
  shows "ray (mk_segment a b) p =
    mk_raycast False (X a \<le> X p \<and> X p \<le> X b \<or> X b \<le> X p \<and> X p \<le> X a)"
proof -
  have nn: "\<not> is_nan (X a)" "\<not> is_nan (Y a)" "\<not> is_nan (X b)" "\<not> is_nan (Y b)" "\<not> is_nan (X p)"
    "\<not> is_nan (Y p)" using fin by (auto simp: f_class(1) point_ok_def)
  have finp: "is_fin (Y p)" using assms(7) fin(4) feq_fin by blast
  have k: "fkey (Y a) = fkey (Y b)" "fkey (Y p) = fkey (Y b)" using assms(6,7) by (auto simp: feq_def)
  have "is_nan ((Y p - Y a) / (Y b - Y a))"
    using fin finp nn k by (intro fdiv_zero_zero) (auto simp: fsub_feq feq_def)
  then have q: "\<not> feq z ((Y p - Y a) / (Y b - Y a))" for z by (simp add: feq_def)
  let ?q = "nextafter (Y p) (f_inf False)"
  have "fkey (Y p) < int inf_mag" using finp by (simp add: is_fin_key)
  then have n: "\<not> is_nan ?q" "fkey ?q = fkey (Y p) + 1"
    using nextafter_inf [of "Y p"] nn by (auto simp: feq_def)
  then have "nudge (Y a) (Y b) (Y p) = Some ?q"
    using k nn by (subst nudge_on) (auto simp: feq_def intro!: nudge_off)
  then show ?thesis
    using q n k nn
    by (auto simp: ray_def seg_Raycast_def raycast_cross_def Let_def f64_order point_eq_def mk_raycast_def)
qed

lemma ray_upright:
  assumes fin: "is_fin (X a)" "is_fin (Y a)" "is_fin (X b)" "is_fin (Y b)" "point_ok p"
    and x: "feq (X a) (X b)" and "\<not> feq (Y a) (Y b)"
    and r: "Y a \<le> Y p \<and> Y p \<le> Y b \<or> Y b \<le> Y p \<and> Y p \<le> Y a"
    and n: "nudge (Y a) (Y b) (Y p) = Some y"
  shows "ray (mk_segment a b) p =
    mk_raycast (X p < X b \<and> \<not> (Y a < y \<and> Y b < y)) (feq (X p) (X b))"
proof -
  have nn: "\<not> is_nan (X a)" "\<not> is_nan (Y a)" "\<not> is_nan (X b)" "\<not> is_nan (Y b)" "\<not> is_nan (X p)"
    "\<not> is_nan (Y p)" using fin by (auto simp: f_class(1) point_ok_def)
  have finp: "is_fin (Y p)" using r fin(2,4) by (auto simp: is_fin_key less_eq_f64_def)
  have k: "fkey (X a) = fkey (X b)" using x by (auto simp: feq_def)
  have "\<not> is_fin ((X p - X a) / (X b - X a))"
    using fin nn k by (intro fdiv_zero fsub_not_nan) (auto simp: fsub_feq feq_def)
  then have q: "\<not> feq ((X p - X a) / (X b - X a)) ((Y p - Y a) / (Y b - Y a))"
    using quot_in_range [OF fin(2,4) finp assms(7)] r feq_fin by (auto simp: feq_def)
  have y: "\<not> is_nan y \<and> fkey (Y p) \<le> fkey y" using nudge_up [OF n] nn by simp
  show ?thesis
    using q n k nn r y assms(7)
    by (auto simp: ray_def seg_Raycast_def raycast_cross_def Let_def f64_order point_eq_def mk_raycast_def)
qed

section \<open>A rectangle as a ring\<close>

definition rect_fin :: "Rect \<Rightarrow> bool" where
  "rect_fin r \<longleftrightarrow> rect_ok r \<and> point_fin (RMin r) \<and> point_fin (RMax r)"

definition strictly_inside :: "Rect \<Rightarrow> Point \<Rightarrow> bool" where
  "strictly_inside r p \<longleftrightarrow> X (RMin r) < X p \<and> X p < X (RMax r) \<and> Y (RMin r) < Y p \<and> Y p < Y (RMax r)"

text \<open>Which sides the line through the point meets.\<close>

lemma rect_at_height:
  assumes "rect_fin r" "point_ok p"
  shows "at_height (RectSeries r) p =
    (if Y (RMin r) \<le> Y p \<and> Y p \<le> Y (RMax r)
     then (if feq (Y p) (Y (RMin r)) then [0] else []) @ [1] @
       (if feq (Y p) (Y (RMax r)) then [2] else []) @ [3]
     else [])"
proof -
  have nn: "\<not> is_nan (X (RMin r))" "\<not> is_nan (Y (RMin r))" "\<not> is_nan (X (RMax r))" "\<not> is_nan (Y (RMax r))"
    "\<not> is_nan (Y p)" and k: "fkey (Y (RMin r)) \<le> fkey (Y (RMax r))"
    using assms by (auto simp: rect_fin_def point_fin_def f_class(1) point_ok_def rect_ok_def f64_order)
  have x: "\<not> f_inf False < z" "\<not> z < f_inf True" for z
    by (auto simp: f64_order not_nan_key abs_le_iff)
  show ?thesis
    unfolding at_height_def rect_ring_segs(1)
    using nn k x
    by (auto simp: rect_ring_segs rect_sides rect_IntersectsRect_alt seg_Rect_sel ray_rect_def f64_order)
qed

lemma rect_ray_sides:
  assumes "rect_fin r" "point_ok p" "Y (RMin r) \<le> Y p" "Y p \<le> Y (RMax r)"
  shows "feq (Y p) (Y (RMin r)) \<Longrightarrow>
      ray (rect_South r) p = mk_raycast False (X (RMin r) \<le> X p \<and> X p \<le> X (RMax r))"
    and "feq (Y p) (Y (RMax r)) \<Longrightarrow>
      ray (rect_North r) p = mk_raycast False (X (RMin r) \<le> X p \<and> X p \<le> X (RMax r))"
    and "\<exists>c. ray (rect_East r) p = mk_raycast (X p < X (RMax r) \<and> c) (feq (X p) (X (RMax r))) \<and>
      ray (rect_West r) p = mk_raycast (X p < X (RMin r) \<and> c) (feq (X p) (X (RMin r))) \<and>
      (Y (RMin r) < Y p \<and> Y p < Y (RMax r) \<longrightarrow> c)"
proof -
  have fin: "is_fin (X (RMin r))" "is_fin (Y (RMin r))" "is_fin (X (RMax r))" "is_fin (Y (RMax r))"
    using assms(1) by (auto simp: rect_fin_def point_fin_def)
  have nn: "\<not> is_nan (X (RMin r))" "\<not> is_nan (Y (RMin r))" "\<not> is_nan (X (RMax r))" "\<not> is_nan (Y (RMax r))"
    using fin by (auto simp: f_class(1))
  have x: "fkey (X (RMin r)) \<le> fkey (X (RMax r))" using assms(1) by (auto simp: rect_fin_def rect_ok_def f64_order)
  show "ray (rect_South r) p = mk_raycast False (X (RMin r) \<le> X p \<and> X p \<le> X (RMax r))"
    if "feq (Y p) (Y (RMin r))"
    using ray_flat [of "RMin r" "rect_SE r" p] fin assms(2) that nn x
    by (auto simp: rect_sides f64_order intro!: arg_cong [where f = "mk_raycast False"])
  show "ray (rect_North r) p = mk_raycast False (X (RMin r) \<le> X p \<and> X p \<le> X (RMax r))"
    if "feq (Y p) (Y (RMax r))"
    using ray_flat [of "RMax r" "rect_NW r" p] fin assms(2) that nn x
    by (auto simp: rect_sides f64_order intro!: arg_cong [where f = "mk_raycast False"])
  show "\<exists>c. ray (rect_East r) p = mk_raycast (X p < X (RMax r) \<and> c) (feq (X p) (X (RMax r))) \<and>
      ray (rect_West r) p = mk_raycast (X p < X (RMin r) \<and> c) (feq (X p) (X (RMin r))) \<and>
      (Y (RMin r) < Y p \<and> Y p < Y (RMax r) \<longrightarrow> c)"
  proof (cases "feq (Y (RMin r)) (Y (RMax r))")
    case True
    have "fkey (Y p) = fkey (Y (RMin r))" "fkey (Y p) = fkey (Y (RMax r))"
      using True assms(3,4) by (auto simp: f64_order)
    then show ?thesis
      using ray_flat [of "rect_SE r" "RMax r" p] ray_flat [of "rect_NW r" "RMin r" p] fin assms(2-4) nn True
      by (intro exI [of _ False]) (auto simp: rect_sides f64_order intro!: arg_cong [where f = "mk_raycast False"])
  next
    case False
    obtain y where y: "nudge (Y (RMin r)) (Y (RMax r)) (Y p) = Some y" using nudge_total fin by blast
    let ?c = "\<not> (Y (RMin r) < y \<and> Y (RMax r) < y)"
    have "y = Y p" if "Y (RMin r) < Y p" "Y p < Y (RMax r)"
      using y nudge_off [of "Y p" "Y (RMin r)" "Y (RMax r)"] that by (auto simp: f64_order)
    then have "Y (RMin r) < Y p \<and> Y p < Y (RMax r) \<longrightarrow> ?c" by (auto simp: f64_order)
    moreover have "ray (rect_East r) p = mk_raycast (X p < X (RMax r) \<and> ?c) (feq (X p) (X (RMax r)))"
      using ray_upright [of "rect_SE r" "RMax r" p y] fin assms(2-4) False nn y by (auto simp: rect_sides feq_def)
    moreover have "ray (rect_West r) p = mk_raycast (X p < X (RMin r) \<and> ?c) (feq (X p) (X (RMin r)))"
      using ray_upright [of "rect_NW r" "RMin r" p y] fin assms(2-4) False nn nudge_sym [OF y]
      by (auto simp: rect_sides feq_def conj_commute)
    ultimately show ?thesis by blast
  qed
qed

text \<open>
  The sides that the line through the point meets, in the order of the floats: where the point is on one of
  them, and whether the ray crosses an odd number.
\<close>

lemma rect_ray_keys:
  assumes "rect_fin r" "point_ok p" "Y (RMin r) \<le> Y p" "Y p \<le> Y (RMax r)"
  defines "x \<equiv> fkey (X p)" and "xl \<equiv> fkey (X (RMin r))" and "xu \<equiv> fkey (X (RMax r))"
    and "y \<equiv> fkey (Y p)" and "yl \<equiv> fkey (Y (RMin r))" and "yu \<equiv> fkey (Y (RMax r))"
  obtains c where "y = yl \<longrightarrow> ray (rect_South r) p = mk_raycast False (xl \<le> x \<and> x \<le> xu)"
    "y = yu \<longrightarrow> ray (rect_North r) p = mk_raycast False (xl \<le> x \<and> x \<le> xu)"
    "ray (rect_East r) p = mk_raycast (x < xu \<and> c) (x = xu)" "ray (rect_West r) p = mk_raycast (x < xl \<and> c) (x = xl)"
    "yl < y \<and> y < yu \<longrightarrow> c" "xl \<le> xu" "yl \<le> y" "y \<le> yu"
    "at_height (RectSeries r) p = (if y = yl then [0] else []) @ [1] @ (if y = yu then [2] else []) @ [3]"
    "rect_ContainsPoint r p \<longleftrightarrow> xl \<le> x \<and> x \<le> xu"
    "strictly_inside r p \<longleftrightarrow> xl < x \<and> x < xu \<and> yl < y \<and> y < yu"
proof -
  have nn: "\<not> is_nan (X (RMin r))" "\<not> is_nan (X (RMax r))" "\<not> is_nan (X p)" "\<not> is_nan (Y (RMin r))"
    "\<not> is_nan (Y (RMax r))" "\<not> is_nan (Y p)"
    using assms(1-4) by (auto simp: rect_fin_def rect_ok_def point_ok_def f64_order)
  note order = feq_def less_eq_f64_def less_f64_def nn x_def xl_def xu_def y_def yl_def yu_def
  note sides = rect_ray_sides [OF assms(1-4)]
  obtain c where c: "ray (rect_East r) p = mk_raycast (X p < X (RMax r) \<and> c) (feq (X p) (X (RMax r)))"
    "ray (rect_West r) p = mk_raycast (X p < X (RMin r) \<and> c) (feq (X p) (X (RMin r)))"
    "Y (RMin r) < Y p \<and> Y p < Y (RMax r) \<longrightarrow> c" using sides(3) by blast
  show thesis
  proof (rule that [of c])
    show "xl \<le> xu" using assms(1) by (auto simp: rect_fin_def rect_ok_def order)
    show "at_height (RectSeries r) p = (if y = yl then [0] else []) @ [1] @ (if y = yu then [2] else []) @ [3]"
      unfolding rect_at_height [OF assms(1,2)] using assms(3,4) by (simp add: order)
    show "y = yl \<longrightarrow> ray (rect_South r) p = mk_raycast False (xl \<le> x \<and> x \<le> xu)"
      "y = yu \<longrightarrow> ray (rect_North r) p = mk_raycast False (xl \<le> x \<and> x \<le> xu)"
      using sides(1,2) by (simp_all add: order)
  qed (use c assms(3,4) in \<open>simp_all add: rect_ContainsPoint_def strictly_inside_def order\<close>)
qed

lemma rect_parity:
  assumes "rect_fin r" "point_ok p" "Y (RMin r) \<le> Y p" "Y p \<le> Y (RMax r)"
  shows "(\<exists>i \<in> set (at_height (RectSeries r) p). On (ray (rect_seg r i) p)) \<longleftrightarrow>
      rect_ContainsPoint r p \<and> \<not> strictly_inside r p"
    "\<not> (rect_ContainsPoint r p \<and> \<not> strictly_inside r p) \<Longrightarrow>
      odd (length (filter (\<lambda>i. In (ray (rect_seg r i) p)) (at_height (RectSeries r) p))) \<longleftrightarrow> strictly_inside r p"
proof -
  let ?x = "fkey (X p)" and ?xl = "fkey (X (RMin r))" and ?xu = "fkey (X (RMax r))"
  let ?y = "fkey (Y p)" and ?yl = "fkey (Y (RMin r))" and ?yu = "fkey (Y (RMax r))"
  obtain c where keys: "?y = ?yl \<longrightarrow> ray (rect_South r) p = mk_raycast False (?xl \<le> ?x \<and> ?x \<le> ?xu)"
    "?y = ?yu \<longrightarrow> ray (rect_North r) p = mk_raycast False (?xl \<le> ?x \<and> ?x \<le> ?xu)"
    "ray (rect_East r) p = mk_raycast (?x < ?xu \<and> c) (?x = ?xu)" "ray (rect_West r) p = mk_raycast (?x < ?xl \<and> c) (?x = ?xl)"
    and c: "?yl < ?y \<and> ?y < ?yu \<longrightarrow> c" and order: "?xl \<le> ?xu" "?yl \<le> ?y" "?y \<le> ?yu"
    and height: "at_height (RectSeries r) p = (if ?y = ?yl then [0] else []) @ [1] @ (if ?y = ?yu then [2] else []) @ [3]"
    and cont: "rect_ContainsPoint r p \<longleftrightarrow> ?xl \<le> ?x \<and> ?x \<le> ?xu"
    and inside: "strictly_inside r p \<longleftrightarrow> ?xl < ?x \<and> ?x < ?xu \<and> ?yl < ?y \<and> ?y < ?yu"
    by (rule rect_ray_keys [OF assms])
  have "(\<exists>i \<in> set (at_height (RectSeries r) p). On (ray (rect_seg r i) p)) \<longleftrightarrow>
      ?x = ?xu \<or> ?x = ?xl \<or> (?y = ?yl \<or> ?y = ?yu) \<and> ?xl \<le> ?x \<and> ?x \<le> ?xu"
    unfolding height by (cases "?y = ?yl"; cases "?y = ?yu") (auto simp: rect_ring_segs mk_raycast_def keys)
  then show "(\<exists>i \<in> set (at_height (RectSeries r) p). On (ray (rect_seg r i) p)) \<longleftrightarrow>
      rect_ContainsPoint r p \<and> \<not> strictly_inside r p"
    unfolding cont inside using order by linarith
  have "odd (length (filter (\<lambda>i. In (ray (rect_seg r i) p)) (at_height (RectSeries r) p))) \<longleftrightarrow>
      (?x < ?xu \<and> c) \<noteq> (?x < ?xl \<and> c)"
    unfolding height by (cases "?y = ?yl"; cases "?y = ?yu") (simp_all add: rect_ring_segs mk_raycast_def keys)
  then show "odd (length (filter (\<lambda>i. In (ray (rect_seg r i) p)) (at_height (RectSeries r) p))) \<longleftrightarrow> strictly_inside r p"
    if "\<not> (rect_ContainsPoint r p \<and> \<not> strictly_inside r p)"
    using that c order unfolding cont inside by auto
qed

lemma rect_ring_in:
  assumes "rect_fin r" "point_ok p"
  shows "\<exists>res. ringContainsPoint (RectSeries r) p allowOnEdge = Inr res \<and>
    hit res = (if allowOnEdge then rect_ContainsPoint r p else strictly_inside r p)"
proof -
  have ok: "ring_ok (RectSeries r)" using assms(1) by (intro rect_ring_ok) (auto simp: rect_fin_def point_fin_def)
  obtain res where res: "ringContainsPoint (RectSeries r) p allowOnEdge = Inr res"
    "hit res = (if \<exists>i \<in> set (at_height (RectSeries r) p). On (ray (rect_seg r i) p) then allowOnEdge
       else odd (length (filter (\<lambda>i. In (ray (rect_seg r i) p)) (at_height (RectSeries r) p))))"
    using ringContainsPoint_parity [OF ok, of p allowOnEdge] by auto
  have sub: "strictly_inside r p \<Longrightarrow> rect_ContainsPoint r p"
    by (auto simp: strictly_inside_def rect_ContainsPoint_def f64_order)
  show ?thesis
  proof (cases "Y (RMin r) \<le> Y p \<and> Y p \<le> Y (RMax r)")
    case False
    then have "at_height (RectSeries r) p = []" by (simp add: rect_at_height [OF assms])
    moreover have "\<not> rect_ContainsPoint r p" using False by (auto simp: rect_ContainsPoint_def)
    ultimately show ?thesis using res sub by auto
  next
    case True
    then show ?thesis using rect_parity [OF assms] res sub by auto
  qed
qed

text \<open>
  A rectangle with finite, ordered corners used as a ring agrees with \<open>Rect.ContainsPoint\<close>: with
  the edge allowed the ring test is the closed rectangle, without it the open one.
\<close>

theorem ringContainsPoint_rect:
  assumes "rect_fin r" "point_ok p"
  shows "\<exists>res. ringContainsPoint (RectSeries r) p allowOnEdge = Inr res \<and>
    hit res = (if allowOnEdge then rect_ContainsPoint r p else strictly_inside r p)"
  using rect_ring_in [OF assms] .

theorem ringContainsPoint_rect_witness:
  "\<exists>res. ringContainsPoint (RectSeries (irect 0 0 4 4)) (ipoint 4 2) True = Inr res \<and> hit res"
  using ringContainsPoint_rect [of "irect 0 0 4 4" "ipoint 4 2" True]
  by (simp add: rect_fin_def rect_ok_def point_fin_def point_ok_def rect_ContainsPoint_def)

end
