(* ===== verification/Poly_Points.thy ===== *)
theory Poly_Points
  imports Polygon Ring_Points
begin

text \<open>
  Points in polygons: what \<open>ContainsPointEx\<close> returns, and the even-odd rule with holes on a grid of
  integers.
\<close>

section \<open>Polygons\<close>

definition poly_ok :: "Poly \<Rightarrow> bool" where
  "poly_ok poly \<longleftrightarrow> (\<exists>ext. Exterior poly = Some ext \<and> ring_ok ext) \<and> (\<forall>h \<in> set (Holes poly). ring_ok h)"

text \<open>The answer of \<open>ringContainsPoint\<close> where it returns.\<close>

definition in_ring :: "Ring \<Rightarrow> Point \<Rightarrow> bool \<Rightarrow> bool" where
  "in_ring ring p e = hit (projr (ringContainsPoint ring p e))"

lemma ring_ok_in_ring: "ring_ok ring \<Longrightarrow> \<exists>res. ringContainsPoint ring p e = Inr res \<and> hit res = in_ring ring p e"
  using ringContainsPoint_parity [of ring p e] by (auto simp: in_ring_def)

text \<open>The first index from \<open>i\<close> on whose hole strictly contains the point.\<close>

lemma hole_at_spec:
  assumes "\<forall>h \<in> set holes. ring_ok h"
  shows "hole_at holes p i =
    (if \<exists>h \<in> set holes. in_ring h p False
     then Inr (False, i + int (LEAST k. k < length holes \<and> in_ring (holes ! k) p False))
     else Inr (True, - 1))"
  using assms
proof (induction holes arbitrary: i)
  case (Cons h hs)
  obtain res where res: "ringContainsPoint h p False = Inr res" "hit res = in_ring h p False"
    using ring_ok_in_ring [of h p False] Cons.prems by auto
  let ?P = "\<lambda>k. k < length (h # hs) \<and> in_ring ((h # hs) ! k) p False"
  let ?Q = "\<lambda>k. k < length hs \<and> in_ring (hs ! k) p False"
  show ?case
  proof (cases "in_ring h p False")
    case True
    then have "(LEAST k. ?P k) = 0" by (intro Least_equality) auto
    then show ?thesis using True res by simp
  next
    case False
    have "(LEAST k. ?P k) = Suc (LEAST k. ?Q k)" if "\<exists>h \<in> set hs. in_ring h p False"
    proof -
      obtain k where "?Q k" using \<open>\<exists>h \<in> set hs. in_ring h p False\<close> by (auto simp: in_set_conv_nth)
      then have "?P (Suc k)" by simp
      then show ?thesis using False by (subst Least_Suc [of ?P "Suc k"]) auto
    qed
    then show ?thesis using False res Cons by auto
  qed
qed simp

text \<open>
  \<open>ContainsPointEx\<close> of a polygon with finite rings returns true and -1 for a point in the exterior,
  edge included, and strictly inside no hole; false and the index of the first such hole for a
  point of the exterior strictly inside a hole; false and -1 for any other point.
\<close>

theorem poly_ContainsPointEx_correct:
  assumes "poly_ok poly" "Exterior poly = Some ext"
  shows "poly_ContainsPointEx (Some poly) p = Inr
    (if \<not> in_ring ext p True then (False, - 1)
     else if \<exists>h \<in> set (Holes poly). in_ring h p False
     then (False, int (LEAST k. k < length (Holes poly) \<and> in_ring (Holes poly ! k) p False))
     else (True, - 1))"
  using assms ring_ok_in_ring [of ext p True] hole_at_spec [of "Holes poly" p 0]
  by (auto simp: poly_ContainsPointEx_def poly_ok_def)

theorem poly_ContainsPointEx_correct_witness:
  "poly_ContainsPointEx (Some \<lparr>Exterior = Some (RectSeries (irect 0 0 9 9)),
      Holes = [RectSeries (irect 1 1 2 2)]\<rparr>) (ipoint 2 2) = Inr (True, - 1)"
proof -
  let ?poly = "\<lparr>Exterior = Some (RectSeries (irect 0 0 9 9)), Holes = [RectSeries (irect 1 1 2 2)]\<rparr>"
  have ok: "poly_ok ?poly" by (auto simp: poly_ok_def intro: rect_ring_ok)
  have r: "rect_fin (irect 0 0 9 9)" "rect_fin (irect 1 1 2 2)" "point_ok (ipoint 2 2)"
    by (simp_all add: rect_fin_def rect_ok_def point_fin_def point_ok_def)
  have "in_ring (RectSeries (irect 0 0 9 9)) (ipoint 2 2) True"
    "\<not> in_ring (RectSeries (irect 1 1 2 2)) (ipoint 2 2) False"
    using rect_ring_in [OF r(1,3), of True] rect_ring_in [OF r(2,3), of False]
    by (auto simp: in_ring_def rect_ContainsPoint_def strictly_inside_def)
  then show ?thesis using poly_ContainsPointEx_correct [OF ok] by simp
qed

section \<open>Polygons on the grid\<close>

text \<open>Corners that the exactness results cover: integers of at most 2 ^ 24, three points at least.\<close>

definition grid_ring :: "(int \<times> int) list \<Rightarrow> bool" where
  "grid_ring pts \<longleftrightarrow> (\<forall>(x, y) \<in> set pts. \<bar>x\<bar> \<le> 2 ^ 24 \<and> \<bar>y\<bar> \<le> 2 ^ 24) \<and>
     3 \<le> length pts \<and> length pts \<le> 2 ^ 20"

lemma newRing_total:
  assumes "\<forall>p \<in> set points. point_ok p" "length points < 2 ^ 63"
  shows "\<exists>ring. newRing points opts = Inr ring"
  using makeSeries_ok [OF assms, of True True opts] by (auto simp: newRing_def)

lemma grid_ring_points:
  assumes "grid_ring pts"
  shows "\<forall>p \<in> set (ipoints pts). point_ok p" "length (ipoints pts) < 2 ^ 63"
  using assms by (auto simp: grid_ring_def point_ok_def)

lemma ContainsPoint_in_ring:
  assumes "poly_ok poly" "Exterior poly = Some ext"
  shows "poly_ContainsPoint (Some poly) p = Inr (in_ring ext p True \<and> \<not> (\<exists>h \<in> set (Holes poly). in_ring h p False))"
  using assms ring_ok_in_ring [of ext p True] hole_at_spec [of "Holes poly" p 0]
  by (auto simp: poly_ContainsPoint_def poly_ContainsPointEx_def poly_ok_def)

text \<open>A ring made of the points: what \<open>newRing\<close> makes and \<open>Move\<close> keeps.\<close>

definition ring_of :: "Ring \<Rightarrow> (int \<times> int) list \<Rightarrow> bool" where
  "ring_of ring pts \<longleftrightarrow> grid_ring pts \<and> ring_ok ring \<and>
     (\<exists>bs. ring = BaseSeries bs \<and> bs_points bs = ipoints pts \<and> bs_closed bs)"

lemma ring_of_in:
  assumes "ring_of ring pts" "\<bar>px\<bar> \<le> 2 ^ 24" "\<bar>py\<bar> \<le> 2 ^ 24"
  shows "in_ring ring (ipoint px py) a = even_odd pts px py a"
proof -
  have "\<forall>(x, y) \<in> set pts. grid x \<and> grid y" "grid px" "grid py" "3 \<le> length pts"
    using assms by (auto simp: ring_of_def grid_ring_def grid_def)
  then show ?thesis
    using base_ring_even_odd [of pts px py _ a] assms(1) by (fastforce simp: ring_of_def in_ring_def)
qed

lemma newRing_ring_of:
  assumes "grid_ring pts"
  shows "\<exists>ring. newRing (ipoints pts) opts = Inr ring \<and> ring_of ring pts"
proof -
  obtain ring where r: "newRing (ipoints pts) opts = Inr ring"
    using newRing_total [OF grid_ring_points [OF assms]] by blast
  have "\<forall>p \<in> set (ipoints pts). point_fin p" "length (ipoints pts) \<le> 2 ^ 20"
    using assms by (auto simp: grid_ring_def point_fin_def)
  then show ?thesis using newRing_ok [OF _ _ r] r assms by (auto simp: ring_of_def)
qed

lemma list_all2_ex: "list_all2 (\<lambda>x y. P x = Q y) xs ys \<Longrightarrow> (\<exists>x \<in> set xs. P x) \<longleftrightarrow> (\<exists>y \<in> set ys. Q y)"
  by (induction rule: list_all2_induct) auto

definition poly_of :: "Poly \<Rightarrow> (int \<times> int) list \<Rightarrow> (int \<times> int) list list \<Rightarrow> bool" where
  "poly_of poly ext holes \<longleftrightarrow>
     (\<exists>e. Exterior poly = Some e \<and> ring_of e ext) \<and> list_all2 ring_of (Holes poly) holes"

lemma poly_of_rings:
  assumes "poly_of poly ext holes" "\<bar>px\<bar> \<le> 2 ^ 24" "\<bar>py\<bar> \<le> 2 ^ 24"
  obtains e where "poly_ok poly" "Exterior poly = Some e" "in_ring e (ipoint px py) True = even_odd ext px py True"
    "list_all2 (\<lambda>r h. in_ring r (ipoint px py) False = even_odd h px py False) (Holes poly) holes"
proof -
  obtain e where e: "Exterior poly = Some e" "ring_of e ext" using assms(1) by (auto simp: poly_of_def)
  have hs: "list_all2 ring_of (Holes poly) holes" using assms(1) by (simp add: poly_of_def)
  then have ok: "\<forall>h \<in> set (Holes poly). ring_ok h"
    by (auto simp: list_all2_conv_all_nth in_set_conv_nth ring_of_def)
  have "list_all2 (\<lambda>r h. in_ring r (ipoint px py) False = even_odd h px py False) (Holes poly) holes"
    using hs by (rule list_all2_mono) (rule ring_of_in [OF _ assms(2,3)])
  moreover have "poly_ok poly" using e ok by (auto simp: poly_ok_def ring_of_def)
  ultimately show thesis using that e(1) ring_of_in [OF e(2) assms(2,3)] by blast
qed

lemma poly_of_contains:
  assumes "poly_of poly ext holes" "\<bar>px\<bar> \<le> 2 ^ 24" "\<bar>py\<bar> \<le> 2 ^ 24"
  shows "poly_ContainsPoint (Some poly) (ipoint px py) =
    Inr (even_odd ext px py True \<and> \<not> (\<exists>h \<in> set holes. even_odd h px py False))"
proof -
  obtain e where e: "poly_ok poly" "Exterior poly = Some e" "in_ring e (ipoint px py) True = even_odd ext px py True"
    "list_all2 (\<lambda>r h. in_ring r (ipoint px py) False = even_odd h px py False) (Holes poly) holes"
    by (rule poly_of_rings [OF assms])
  show ?thesis using ContainsPoint_in_ring [OF e(1,2), of "ipoint px py"] list_all2_ex [OF e(4)] e(3) by simp
qed

text \<open>The answer that names the hole: the position of the first hole that has the point strictly inside.\<close>

lemma poly_of_containsEx:
  assumes "poly_of poly ext holes" "\<bar>px\<bar> \<le> 2 ^ 24" "\<bar>py\<bar> \<le> 2 ^ 24"
  shows "poly_ContainsPointEx (Some poly) (ipoint px py) = Inr
    (if \<not> even_odd ext px py True then (False, - 1)
     else if \<exists>h \<in> set holes. even_odd h px py False
     then (False, int (LEAST k. k < length holes \<and> even_odd (holes ! k) px py False))
     else (True, - 1))"
proof -
  obtain e where e: "poly_ok poly" "Exterior poly = Some e" "in_ring e (ipoint px py) True = even_odd ext px py True"
    and hs: "list_all2 (\<lambda>r h. in_ring r (ipoint px py) False = even_odd h px py False) (Holes poly) holes"
    by (rule poly_of_rings [OF assms])
  have "(\<lambda>k. k < length (Holes poly) \<and> in_ring (Holes poly ! k) (ipoint px py) False) =
      (\<lambda>k. k < length holes \<and> even_odd (holes ! k) px py False)"
    using hs by (auto simp: list_all2_conv_all_nth)
  then show ?thesis unfolding poly_ContainsPointEx_correct [OF e(1,2)] list_all2_ex [OF hs] e(3) by simp
qed

lemma newRings_ring_of:
  "\<forall>h \<in> set hs. grid_ring h \<Longrightarrow> \<exists>rings. newRings (map ipoints hs) opts = Inr rings \<and> list_all2 ring_of rings hs"
  using newRing_ring_of [of _ opts] by (induction hs) fastforce+

lemma NewPoly_poly_of:
  assumes "grid_ring ext" "\<forall>h \<in> set holes. grid_ring h"
  shows "\<exists>poly. NewPoly (ipoints ext) (map ipoints holes) opts = Inr poly \<and> poly_of poly ext holes"
proof -
  obtain e where e: "newRing (ipoints ext) opts = Inr e" "ring_of e ext"
    using newRing_ring_of [OF assms(1)] by blast
  obtain hs where hs: "newRings (map ipoints holes) opts = Inr hs" "list_all2 ring_of hs holes"
    using newRings_ring_of [OF assms(2)] by blast
  then have "NewPoly (ipoints ext) (map ipoints holes) opts = Inr \<lparr>Exterior = Some e, Holes = hs\<rparr>"
    using e by (cases "holes = []") (auto simp: NewPoly_def)
  then show ?thesis using e hs by (auto simp: poly_of_def)
qed

text \<open>
  C19: a polygon with integer corners of at most 2 ^ 24 contains an integer point of at most 2 ^ 24 exactly if the
  even-odd rule puts the point inside or on the edge of the exterior and strictly inside none of the
  holes. \<open>ContainsPointEx\<close> returns position -1 with that answer, but for a point of the exterior that is strictly inside a
  hole it returns the position of the first such hole. \<open>NewPoly\<close> succeeds, and the index options do not matter.
\<close>

theorem poly_ContainsPoint_even_odd:
  assumes "grid_ring ext" "\<forall>h \<in> set holes. grid_ring h" "\<bar>px\<bar> \<le> 2 ^ 24" "\<bar>py\<bar> \<le> 2 ^ 24"
  shows "\<exists>poly. NewPoly (map (\<lambda>(x, y). ipoint x y) ext) (map (map (\<lambda>(x, y). ipoint x y)) holes) opts = Inr poly \<and>
    poly_ContainsPoint (Some poly) (ipoint px py) =
      Inr (even_odd ext px py True \<and> \<not> (\<exists>h \<in> set holes. even_odd h px py False)) \<and>
    poly_ContainsPointEx (Some poly) (ipoint px py) = Inr
      (if \<not> even_odd ext px py True then (False, - 1)
       else if \<exists>h \<in> set holes. even_odd h px py False
       then (False, int (LEAST k. k < length holes \<and> even_odd (holes ! k) px py False))
       else (True, - 1))"
  using NewPoly_poly_of [OF assms(1,2), of opts] poly_of_contains [OF _ assms(3,4)] poly_of_containsEx [OF _ assms(3,4)] by blast

theorem poly_ContainsPoint_even_odd_witness:
  "\<exists>poly. NewPoly (map (\<lambda>(x, y). ipoint x y) [(0, 0), (9, 0), (0, 9)])
      (map (map (\<lambda>(x, y). ipoint x y)) [[(5, 1), (6, 1), (5, 2)], [(1, 1), (4, 1), (1, 4)]]) None = Inr poly \<and>
    poly_ContainsPoint (Some poly) (ipoint 2 2) = Inr False \<and> poly_ContainsPointEx (Some poly) (ipoint 2 2) = Inr (False, 1)"
proof -
  let ?holes = "[[(5, 1), (6, 1), (5, 2)], [(1, 1), (4, 1), (1, 4)]] :: (int \<times> int) list list"
  have e: "even_odd [(0, 0), (9, 0), (0, 9)] 2 2 True" "\<not> even_odd [(5, 1), (6, 1), (5, 2)] 2 2 False" "even_odd [(1, 1), (4, 1), (1, 4)] 2 2 False"
    by (simp_all add: even_odd_def edges_def edge_on_def edge_crosses_def on_seg_def crosses_def crosses_up_def)
  have "(LEAST k. k < length ?holes \<and> even_odd (?holes ! k) 2 2 False) = 1"
  proof (rule Least_equality)
    fix k assume "k < length ?holes \<and> even_odd (?holes ! k) 2 2 False"
    then show "1 \<le> k" using e(2) by (cases k) simp_all
  qed (use e(3) in simp)
  then show ?thesis
    using poly_ContainsPoint_even_odd [of "[(0, 0), (9, 0), (0, 9)]" ?holes 2 2 None] e by (simp add: grid_ring_def)
qed

end
