(* ===== verification/Moving.thy ===== *)
theory Moving
  imports Poly_Points
begin

text \<open>
  Moving series, lines and polygons: the moved series is the series of the moved points, and on
  integer coordinates a moved polygon contains exactly the moved points.
\<close>

section \<open>Moving\<close>

lemma items_update_kind [simp]:
  "item_ok (series\<lparr>bs_indexKind := k\<rparr>) = item_ok series"
  "item_seg (series\<lparr>bs_indexKind := k\<rparr>) = item_seg series"
  "item_rect (series\<lparr>bs_indexKind := k\<rparr>) = item_rect series"
  by (simp_all add: item_ok_def item_seg_def item_rect_def fun_eq_iff)

lemma wf_update_kind [simp]:
  "series_wf (series\<lparr>bs_indexKind := k\<rparr>) = series_wf series"
  "index_ok (series\<lparr>bs_indexKind := k\<rparr>) = index_ok series"
  "series_wf (series\<lparr>bs_index := x\<rparr>) = series_wf series"
  by (auto simp: series_wf_def index_ok_def split: option.splits)

abbreviation move_points :: "Point list \<Rightarrow> f64 \<Rightarrow> f64 \<Rightarrow> Point list" where
  "move_points points dx dy \<equiv> map (\<lambda>p. point_Move p dx dy) points"

lemma series_Move_ok:
  assumes "\<forall>p \<in> set (bs_points series). point_ok (point_Move p dx dy)" "length (bs_points series) < 2 ^ 63"
  shows "\<exists>ns. series_Move series dx dy = Inr ns \<and>
    bs_points ns = move_points (bs_points series) dx dy \<and> bs_closed ns = bs_closed series \<and>
    bs_indexKind ns = bs_indexKind series \<and>
    (bs_convex ns, bs_rect ns, bs_clockwise ns) = processPoints (bs_points ns) (bs_closed ns) \<and>
    series_wf ns \<and> index_ok ns \<and> (series_Index series \<noteq> [] \<longrightarrow> series_Index ns \<noteq> [])"
proof -
  let ?pts = "move_points (bs_points series) dx dy"
  have ok: "\<forall>p \<in> set ?pts. point_ok p" "length ?pts < 2 ^ 63" using assms by auto
  obtain s1 where s1: "makeSeries ?pts False (bs_closed series) None = Inr s1" "bs_points s1 = ?pts"
    "bs_closed s1 = bs_closed series"
    "(bs_convex s1, bs_rect s1, bs_clockwise s1) = processPoints ?pts (bs_closed series)"
    "series_wf s1" "index_ok s1"
    using makeSeries_ok [OF ok, of False "bs_closed series" None] by auto
  let ?s = "s1\<lparr>bs_indexKind := bs_indexKind series\<rparr>"
  have mv: "map (\<lambda>p. mk_point (X p + dx) (Y p + dy)) (bs_points series) = ?pts"
    by (simp add: point_Move_def)
  show ?thesis
  proof (cases "series_Index series = [] \<or> bs_index s1 \<noteq> None")
    case True
    then have "series_Move series dx dy = Inr ?s"
      using s1(1) by (auto simp: series_Move_def mv series_buildIndex_def Let_def)
    moreover have "series_Index series \<noteq> [] \<longrightarrow> series_Index ?s \<noteq> []"
      using True index_ok_nonempty [OF s1(6)] by (auto simp: series_Index_def [of ?s])
    ultimately show ?thesis using s1 by auto
  next
    case False
    then have "bs_index ?s = None" "series_wf ?s" using s1(5) by auto
    then obtain data where d: "series_buildIndex ?s = Inr (?s\<lparr>bs_index := Some data\<rparr>)"
      "index_ok (?s\<lparr>bs_index := Some data\<rparr>)" using buildIndex_ok by blast
    have "series_Move series dx dy = Inr (?s\<lparr>bs_index := Some data\<rparr>)"
      using s1(1) d(1) False by (auto simp: series_Move_def mv Let_def)
    moreover have "series_Index (?s\<lparr>bs_index := Some data\<rparr>) \<noteq> []"
      using index_ok_nonempty [OF d(2)] by (simp add: series_Index_def)
    moreover have "series_wf (?s\<lparr>bs_index := Some data\<rparr>)" using s1(5) by simp
    ultimately show ?thesis using s1(2-4) d(2) by (auto intro!: exI [of _ "?s\<lparr>bs_index := Some data\<rparr>"])
  qed
qed

text \<open>
  C29: moving a series adds the offsets to every point and keeps the kind of the series: it is closed
  as before, has an index if the original had one, and its rectangle, convexity, winding order and
  index are those of the moved points.
\<close>

theorem series_Move_correct:
  assumes "\<forall>p \<in> set (bs_points series). point_ok (point_Move p dx dy)" "length (bs_points series) < 2 ^ 63"
  shows "\<exists>ns. series_Move series dx dy = Inr ns \<and>
    bs_points ns = map (\<lambda>p. point_Move p dx dy) (bs_points series) \<and> bs_closed ns = bs_closed series \<and>
    bs_indexKind ns = bs_indexKind series \<and>
    (bs_convex ns, bs_rect ns, bs_clockwise ns) = processPoints (bs_points ns) (bs_closed ns) \<and>
    series_wf ns \<and> index_ok ns \<and> (series_Index series \<noteq> [] \<longrightarrow> series_Index ns \<noteq> [])"
  using series_Move_ok [OF assms] .

theorem series_Move_correct_witness:
  "\<exists>ns. series_Move example_line 0 0 = Inr ns \<and> length (bs_points ns) = 3"
  using series_Move_correct [of example_line 0 0] fadd_fin(1) [of _ 0]
  by (auto simp: point_ok_def point_Move_def)

section \<open>Moving on the grid\<close>

lemma fval_f_of_int: "\<bar>k\<bar> < 2 ^ 53 \<Longrightarrow> fval (f_of_int k) = k * int f_scale"
proof -
  assume "\<bar>k\<bar> < 2 ^ 53"
  then have "rval (f_of_int k) = of_int k" using fint_f_of_int by (simp add: fint_def)
  then have "(of_int (fval (f_of_int k)) :: rat) = of_int (k * int f_scale)"
    by (simp add: rval_def f_scale_def field_simps)
  then show ?thesis unfolding of_int_eq_iff .
qed

lemma f_neg_f_of_int [simp]: "f_neg (f_of_int k) = (k < 0)"
  using round_mag_le [of "nat \<bar>k\<bar> * f_scale" 1] unfolding f_of_int_def
  by (intro f_neg_f_mk) (simp add: inf_mag_def)

lemma f_of_int_add:
  assumes "\<bar>i\<bar> < 2 ^ 53" "\<bar>j\<bar> < 2 ^ 53"
  shows "f_of_int i + f_of_int j = f_of_int (i + j)"
proof -
  have fin: "is_fin (f_of_int i)" "is_fin (f_of_int j)" using assms by auto
  have v: "fval (f_of_int i) + fval (f_of_int j) = (i + j) * int f_scale"
    using assms by (simp add: fval_f_of_int distrib_right)
  have "0 < int f_scale" by (simp add: f_scale_def)
  then have "nat \<bar>(i + j) * int f_scale\<bar> = nat \<bar>i + j\<bar> * f_scale" "(i + j) * int f_scale < 0 \<longleftrightarrow> i + j < 0"
    "(i + j) * int f_scale = 0 \<longleftrightarrow> i + j = 0"
    by (simp_all add: abs_mult nat_mult_distrib mult_less_0_iff)
  moreover have "f_mk (i < 0 \<and> j < 0) 0 = f_mk False 0" if "i + j = 0"
    by (rule arg_cong [where f = "\<lambda>s. f_mk s 0"]) (use that in auto)
  moreover have "round_mag 0 1 = 0" by (simp add: round_mag_def round_shift_def rne_def)
  ultimately show ?thesis
    using fin by (auto simp: plus_f64_def fadd_def f_class(1,3) Let_def v f_of_int_def [of "i + j"])
qed

abbreviation shift :: "int \<Rightarrow> int \<Rightarrow> (int \<times> int) list \<Rightarrow> (int \<times> int) list" where
  "shift dx dy \<equiv> map (\<lambda>(x, y). (x + dx, y + dy))"

lemma on_seg_shift: "on_seg (ax + dx) (ay + dy) (bx + dx) (b + dy) (px + dx) (py + dy) = on_seg ax ay bx b px py"
  by (auto simp: on_seg_def)

lemma crosses_shift: "crosses (ax + dx) (ay + dy) (bx + dx) (b + dy) (px + dx) (py + dy) = crosses ax ay bx b px py"
  by (simp add: crosses_def crosses_up_def)

abbreviation shift_edge :: "int \<Rightarrow> int \<Rightarrow> (int \<times> int) \<times> (int \<times> int) \<Rightarrow> (int \<times> int) \<times> (int \<times> int)" where
  "shift_edge dx dy \<equiv> map_prod (\<lambda>(x, y). (x + dx, y + dy)) (\<lambda>(x, y). (x + dx, y + dy))"

lemma edges_shift: "edges (shift dx dy pts) = map (shift_edge dx dy) (edges pts)"
  unfolding edges_def rotate1_map zip_map_map by (simp add: map_prod_def)

lemma edge_shift:
  "edge_on (px + dx) (py + dy) (shift_edge dx dy e) = edge_on px py e"
  "edge_crosses (px + dx) (py + dy) (shift_edge dx dy e) = edge_crosses px py e"
  by (cases e; auto simp: edge_on_def edge_crosses_def on_seg_shift crosses_shift)+

text \<open>The even-odd rule only sees differences of coordinates.\<close>

lemma even_odd_shift: "even_odd (shift dx dy pts) (px + dx) (py + dy) a = even_odd pts px py a"
  by (simp add: even_odd_def edges_shift filter_map o_def edge_shift)

lemma move_ipoints:
  assumes "\<forall>(x, y) \<in> set pts. \<bar>x\<bar> < 2 ^ 53 \<and> \<bar>y\<bar> < 2 ^ 53" "\<bar>dx\<bar> < 2 ^ 53" "\<bar>dy\<bar> < 2 ^ 53"
  shows "move_points (ipoints pts) (f_of_int dx) (f_of_int dy) = ipoints (shift dx dy pts)"
  using assms by (auto simp: point_Move_def ipoint_def f_of_int_add)

lemma move_ring_of:
  assumes "ring_of ring pts" "grid_ring (shift dx dy pts)" "\<bar>dx\<bar> \<le> 2 ^ 25" "\<bar>dy\<bar> \<le> 2 ^ 25"
  shows "\<exists>ring'. move_ring ring (f_of_int dx) (f_of_int dy) = Inr ring' \<and> ring_of ring' (shift dx dy pts)"
proof -
  obtain bs where bs: "ring = BaseSeries bs" "bs_points bs = ipoints pts" "bs_closed bs" "grid_ring pts"
    using assms(1) by (auto simp: ring_of_def)
  have "\<forall>(x, y) \<in> set pts. \<bar>x\<bar> < 2 ^ 53 \<and> \<bar>y\<bar> < 2 ^ 53" using bs(4) by (auto simp: grid_ring_def)
  then have mv: "move_points (bs_points bs) (f_of_int dx) (f_of_int dy) = ipoints (shift dx dy pts)"
    unfolding bs(2) using assms(3,4) by (intro move_ipoints) auto
  have fin: "\<forall>p \<in> set (ipoints (shift dx dy pts)). point_fin p" "length (ipoints (shift dx dy pts)) \<le> 2 ^ 20"
    using assms(2) by (auto simp: grid_ring_def point_fin_def)
  have "point_ok (point_Move p (f_of_int dx) (f_of_int dy))" if "p \<in> set (bs_points bs)" for p
    using fin(1) mv that point_fin_ok by (metis image_eqI image_set)
  then obtain ns where ns: "series_Move bs (f_of_int dx) (f_of_int dy) = Inr ns"
    "bs_points ns = ipoints (shift dx dy pts)" "bs_closed ns" "series_wf ns" "index_ok ns"
    using series_Move_ok [of bs "f_of_int dx" "f_of_int dy"] mv fin(2) bs(2,3) by auto
  have "ring_ok (BaseSeries ns)" using base_ring_ok [of ns] ns fin by simp
  then show ?thesis using ns assms(2) by (auto simp: move_ring_def bs(1) ring_of_def)
qed

lemma grid_ring_offset:
  assumes "grid_ring pts" "grid_ring (shift dx dy pts)"
  shows "\<bar>dx\<bar> \<le> 2 ^ 25" "\<bar>dy\<bar> \<le> 2 ^ 25"
proof -
  obtain x y ps where "pts = (x, y) # ps" using assms(1) by (cases pts) (auto simp: grid_ring_def)
  then have "\<bar>x\<bar> \<le> 2 ^ 24" "\<bar>y\<bar> \<le> 2 ^ 24" "\<bar>x + dx\<bar> \<le> 2 ^ 24" "\<bar>y + dy\<bar> \<le> 2 ^ 24"
    using assms by (auto simp: grid_ring_def)
  then show "\<bar>dx\<bar> \<le> 2 ^ 25" "\<bar>dy\<bar> \<le> 2 ^ 25" by simp_all
qed

lemma move_rings_of:
  assumes "list_all2 ring_of rings hs" "\<forall>h \<in> set hs. grid_ring (shift dx dy h)" "\<bar>dx\<bar> \<le> 2 ^ 25" "\<bar>dy\<bar> \<le> 2 ^ 25"
  shows "\<exists>rings'. move_rings rings (f_of_int dx) (f_of_int dy) = Inr rings' \<and> list_all2 ring_of rings' (map (shift dx dy) hs)"
  using assms(1,2)
  by (induction rule: list_all2_induct) (use move_ring_of [OF _ _ assms(3,4)] in fastforce)+

lemma poly_Move_of:
  assumes "poly_of poly ext holes" "grid_ring (shift dx dy ext)" "\<forall>h \<in> set holes. grid_ring (shift dx dy h)"
  shows "\<exists>poly'. poly_Move (Some poly) (f_of_int dx) (f_of_int dy) = Inr (Some poly') \<and>
    poly_of poly' (shift dx dy ext) (map (shift dx dy) holes)"
proof -
  obtain e where e: "Exterior poly = Some e" "ring_of e ext" using assms(1) by (auto simp: poly_of_def)
  have d: "\<bar>dx\<bar> \<le> 2 ^ 25" "\<bar>dy\<bar> \<le> 2 ^ 25"
    using grid_ring_offset [OF _ assms(2)] e(2) by (auto simp: ring_of_def)
  obtain e' where e': "move_ring e (f_of_int dx) (f_of_int dy) = Inr e'" "ring_of e' (shift dx dy ext)"
    using move_ring_of [OF e(2) assms(2) d] by blast
  obtain hs' where hs': "move_rings (Holes poly) (f_of_int dx) (f_of_int dy) = Inr hs'"
    "list_all2 ring_of hs' (map (shift dx dy) holes)"
    using move_rings_of [OF _ assms(3) d] assms(1) by (auto simp: poly_of_def)
  have "poly_Move (Some poly) (f_of_int dx) (f_of_int dy) = Inr (Some \<lparr>Exterior = Some e', Holes = hs'\<rparr>)"
    using e(1) e'(1) hs'(1) by (cases "Holes poly = []") (auto simp: poly_Move_def)
  then show ?thesis using e'(2) hs'(2) by (auto simp: poly_of_def)
qed

text \<open>
  C28: moving a polygon moves the points it contains: for integer corners and integer offsets that keep
  the corners within 2 ^ 24, the moved polygon contains the moved point exactly if the polygon contains
  the point.
\<close>

theorem poly_Move_contains:
  assumes "grid_ring ext" "\<forall>h \<in> set holes. grid_ring h"
    and "grid_ring (map (\<lambda>(x, y). (x + dx, y + dy)) ext)"
    and "\<forall>h \<in> set holes. grid_ring (map (\<lambda>(x, y). (x + dx, y + dy)) h)"
    and "\<bar>px\<bar> \<le> 2 ^ 24" "\<bar>py\<bar> \<le> 2 ^ 24" "\<bar>px + dx\<bar> \<le> 2 ^ 24" "\<bar>py + dy\<bar> \<le> 2 ^ 24"
  shows "\<exists>poly poly'. NewPoly (map (\<lambda>(x, y). ipoint x y) ext) (map (map (\<lambda>(x, y). ipoint x y)) holes) opts = Inr poly \<and>
    poly_Move (Some poly) (f_of_int dx) (f_of_int dy) = Inr (Some poly') \<and>
    poly_ContainsPoint (Some poly') (ipoint (px + dx) (py + dy)) =
      poly_ContainsPoint (Some poly) (ipoint px py)"
proof -
  obtain poly where p: "NewPoly (ipoints ext) (map ipoints holes) opts = Inr poly" "poly_of poly ext holes"
    using NewPoly_poly_of [OF assms(1,2)] by blast
  obtain poly' where p': "poly_Move (Some poly) (f_of_int dx) (f_of_int dy) = Inr (Some poly')"
    "poly_of poly' (shift dx dy ext) (map (shift dx dy) holes)"
    using poly_Move_of [OF p(2) assms(3,4)] by blast
  show ?thesis
    using p(1) p'(1) poly_of_contains [OF p(2) assms(5,6)] poly_of_contains [OF p'(2) assms(7,8)]
    by (simp add: even_odd_shift)
qed

theorem poly_Move_contains_witness:
  "\<exists>poly poly'. NewPoly (map (\<lambda>(x, y). ipoint x y) [(0, 0), (9, 0), (0, 9)]) (map (map (\<lambda>(x, y). ipoint x y)) []) None = Inr poly \<and>
    poly_Move (Some poly) (f_of_int 5) (f_of_int 6) = Inr (Some poly') \<and>
    poly_ContainsPoint (Some poly') (ipoint (1 + 5) (1 + 6)) = poly_ContainsPoint (Some poly) (ipoint 1 1)"
  by (rule poly_Move_contains) (simp_all add: grid_ring_def)

end
