(* ===== verification/Segment_Grid.thy ===== *)
theory Segment_Grid
  imports Raycast_Grid
begin

text \<open>
  What the intersection test of two segments computes. Over the rationals two segments meet if they
  have a point in common; on a grid of integers of 25 bits \<open>IntersectsSegment\<close> decides that exactly,
  but for a segment that lies inside the other one.
\<close>


section \<open>Segments over the rationals\<close>

text \<open>The point of the segment from \<open>a\<close> to \<open>b\<close> at the parameter \<open>t\<close>, for one coordinate.\<close>

definition along :: "int \<Rightarrow> int \<Rightarrow> rat \<Rightarrow> rat" where
  "along a b t = of_int a + t * (of_int b - of_int a)"

definition segs_meet :: "int \<Rightarrow> int \<Rightarrow> int \<Rightarrow> int \<Rightarrow> int \<Rightarrow> int \<Rightarrow> int \<Rightarrow> int \<Rightarrow> bool" where
  "segs_meet ax ay bx by cx cy dx dy \<longleftrightarrow>
     (\<exists>t u. 0 \<le> t \<and> t \<le> 1 \<and> 0 \<le> u \<and> u \<le> 1 \<and>
        along ax bx t = along cx dx u \<and> along ay by t = along cy dy u)"

lemma along_range:
  assumes "0 \<le> t" "t \<le> 1"
  shows "of_int (min a b) \<le> along a b t" "along a b t \<le> of_int (max a b)"
proof -
  have e: "along a b t = (1 - t) * of_int a + t * of_int b" by (simp add: along_def algebra_simps)
  have "(1 - t) * of_int (min a b) + t * of_int (min a b) \<le> along a b t"
    "along a b t \<le> (1 - t) * of_int (max a b) + t * of_int (max a b)"
    unfolding e using assms by (intro add_mono mult_left_mono; simp)+
  then show "of_int (min a b) \<le> along a b t" "along a b t \<le> of_int (max a b)"
    by (simp_all flip: distrib_right)
qed

lemma along_ends [simp]: "along a b 0 = of_int a" "along a b 1 = of_int b"
  by (simp_all add: along_def)

text \<open>A vector with no cross product with \<open>(rx, ry)\<close> is a multiple of it.\<close>

lemma cross_zero:
  fixes wx wy rx ry :: int
  assumes "wx * ry = wy * rx" "\<not> (rx = 0 \<and> ry = 0)"
  obtains k :: rat where "of_int wx = k * of_int rx" "of_int wy = k * of_int ry"
proof -
  have e: "(of_int wx * of_int ry :: rat) = of_int wy * of_int rx" using assms(1) by (metis of_int_mult)
  show thesis
  proof (cases "rx = 0")
    case True
    then show thesis using that [of "of_int wy / of_int ry"] e assms(2) by auto
  next
    case False
    then show thesis using that [of "of_int wx / of_int rx"] e by (simp add: field_simps)
  qed
qed

lemma cross_param:
  assumes "(px - ax) * (by - ay) = (py - ay) * (bx - ax)" "\<not> (ax = bx \<and> ay = by)"
  obtains k where "of_int px = along ax bx k" "of_int py = along ay by k"
proof -
  obtain k :: rat where "of_int (px - ax) = k * of_int (bx - ax)" "of_int (py - ay) = k * of_int (by - ay)"
    using cross_zero [OF assms(1)] assms(2) by auto
  then show thesis using that [of k] by (simp add: along_def algebra_simps)
qed

lemma along_between:
  assumes "a \<noteq> b" "of_int (min a b) \<le> along a b k" "along a b k \<le> of_int (max a b)"
  shows "0 \<le> k \<and> k \<le> 1"
proof -
  define D :: rat where "D = of_int b - of_int a"
  have b: "(of_int b :: rat) = of_int a + D" by (simp add: D_def)
  show ?thesis
  proof (cases "a < b")
    case True
    then have "0 < D" "0 \<le> k * D" "k * D \<le> 1 * D"
      using assms(2,3) by (auto simp: along_def b D_def [symmetric] min_def max_def) (simp add: D_def)
    then show ?thesis by (simp_all add: zero_le_mult_iff mult_le_cancel_right)
  next
    case False
    then have "D < 0" "k * D \<le> 0" "1 * D \<le> k * D"
      using assms by (auto simp: along_def b D_def [symmetric] min_def max_def) (simp add: D_def)
    then show ?thesis by (simp_all add: mult_le_0_iff mult_le_cancel_right)
  qed
qed

lemma on_seg_along:
  "on_seg ax ay bx by px py \<longleftrightarrow>
     (\<exists>t. 0 \<le> t \<and> t \<le> 1 \<and> of_int px = along ax bx t \<and> of_int py = along ay by t)"
proof
  assume on: "on_seg ax ay bx by px py"
  show "\<exists>t. 0 \<le> t \<and> t \<le> 1 \<and> of_int px = along ax bx t \<and> of_int py = along ay by t"
  proof (cases "ax = bx \<and> ay = by")
    case True
    then show ?thesis using on by (intro exI [of _ 0]) (auto simp: on_seg_def)
  next
    case False
    obtain k where k: "of_int px = along ax bx k" "of_int py = along ay by k"
      using cross_param [OF _ False] on by (auto simp: on_seg_def)
    have "0 \<le> k \<and> k \<le> 1"
      using along_between [of ax bx k] along_between [of ay "by" k] on False
      by (auto simp: on_seg_def simp flip: k)
    then show ?thesis using k by blast
  qed
next
  assume "\<exists>t. 0 \<le> t \<and> t \<le> 1 \<and> of_int px = along ax bx t \<and> of_int py = along ay by t"
  then obtain t where t: "0 \<le> t" "t \<le> 1" "of_int px = along ax bx t" "of_int py = along ay by t" by blast
  have "(of_int ((px - ax) * (by - ay)) :: rat) = of_int ((py - ay) * (bx - ax))"
    using t(3,4) by (simp add: along_def)
  moreover have "of_int (min ax bx) \<le> (of_int px :: rat)" "(of_int px :: rat) \<le> of_int (max ax bx)"
    "of_int (min ay by) \<le> (of_int py :: rat)" "(of_int py :: rat) \<le> of_int (max ay by)"
    unfolding t(3,4) using along_range [OF t(1,2)] by blast+
  ultimately show "on_seg ax ay bx by px py"
    unfolding of_int_eq_iff of_int_le_iff on_seg_def by blast
qed

lemma on_seg_swap_xy: "on_seg ay ax b bx py px = on_seg ax ay bx b px py"
  by (auto simp: on_seg_def)

text \<open>
  The half-open range test of \<open>IntersectsSegment\<close> for a point on the line.
\<close>

lemma between_on_seg:
  assumes "(px - ax) * (b - ay) = (py - ay) * (bx - ax)"
    and "((px - ax \<le> 0) \<noteq> (px - bx \<le> 0)) \<or> ((py - ay \<le> 0) \<noteq> (py - b \<le> 0))"
  shows "on_seg ax ay bx b px py"
  using assms(2)
proof
  assume "(py - ay \<le> 0) \<noteq> (py - b \<le> 0)"
  then show ?thesis using on_seg_slanted [of ay b py ax bx px] assms(1) by auto
next
  assume "(px - ax \<le> 0) \<noteq> (px - bx \<le> 0)"
  then have "on_seg ay ax b bx py px" using on_seg_slanted [of ax bx px ay b py] assms(1) by auto
  then show ?thesis by (simp add: on_seg_swap_xy)
qed

lemma on_seg_ends: "on_seg ax ay bx b ax ay" "on_seg ax ay bx b bx b"
  by (auto simp: on_seg_def)

lemma on_both_meet: "on_seg ax ay bx b px py \<Longrightarrow> on_seg cx cy dx d px py \<Longrightarrow> segs_meet ax ay bx b cx cy dx d"
  unfolding on_seg_along segs_meet_def by metis

lemma meet_boxes:
  assumes "segs_meet ax ay bx b cx cy dx d"
  shows "min ax bx \<le> max cx dx" "min cx dx \<le> max ax bx" "min ay b \<le> max cy d" "min cy d \<le> max ay b"
proof -
  obtain t u where tu: "0 \<le> t" "t \<le> 1" "0 \<le> u" "u \<le> 1"
    "along ax bx t = along cx dx u" "along ay b t = along cy d u" using assms by (auto simp: segs_meet_def)
  have le: "min i j \<le> max k l" if "along i j t = along k l u" for i j k l
    using along_range(1) [OF tu(1,2), of i j] along_range(2) [OF tu(3,4), of k l] that
    by (metis of_int_le_iff order_trans)
  have ge: "min k l \<le> max i j" if "along i j t = along k l u" for i j k l
    using along_range(2) [OF tu(1,2), of i j] along_range(1) [OF tu(3,4), of k l] that
    by (metis of_int_le_iff order_trans)
  show "min ax bx \<le> max cx dx" "min cx dx \<le> max ax bx" "min ay b \<le> max cy d" "min cy d \<le> max ay b"
    using le ge tu(5,6) by blast+
qed

text \<open>Cramer's rule for the two parameters.\<close>

lemma meet_params:
  assumes "along ax bx t = along cx dx u" "along ay b t = along cy d u"
  defines "R \<equiv> (bx - ax) * (d - cy) - (b - ay) * (dx - cx)"
  shows "t * of_int R = of_int ((cx - ax) * (d - cy) - (cy - ay) * (dx - cx))"
    "u * of_int R = of_int ((cx - ax) * (b - ay) - (cy - ay) * (bx - ax))"
proof -
  have e: "of_int cx = of_int ax + t * (of_int bx - of_int ax) - u * (of_int dx - of_int cx)"
    "of_int cy = of_int ay + t * (of_int b - of_int ay) - u * (of_int d - of_int cy)"
    using assms(1,2) by (auto simp: along_def)
  have x: "of_int (cx - ax) = t * of_int (bx - ax) - u * of_int (dx - cx)"
    and y: "of_int (cy - ay) = t * of_int (b - ay) - u * of_int (d - cy)" using e by simp_all
  show "t * of_int R = of_int ((cx - ax) * (d - cy) - (cy - ay) * (dx - cx))"
    "u * of_int R = of_int ((cx - ax) * (b - ay) - (cy - ay) * (bx - ax))"
    unfolding R_def of_int_diff [of "_ * _"] of_int_mult x y by (simp_all add: algebra_simps)
qed

text \<open>
  Two segments on one line that share a point: an end of the second is on the first, or the
  first is part of the second.
\<close>

lemma collinear_meet:
  assumes par: "(bx - ax) * (d - cy) = (b - ay) * (dx - cx)"
    and col: "(cx - ax) * (b - ay) = (cy - ay) * (bx - ax)" and meet: "segs_meet ax ay bx b cx cy dx d"
  shows "on_seg ax ay bx b cx cy \<or> on_seg ax ay bx b dx d \<or>
    on_seg cx cy dx d ax ay \<and> on_seg cx cy dx d bx b"
proof -
  obtain t u where tu: "0 \<le> t" "t \<le> 1" "0 \<le> u" "u \<le> 1"
    "along ax bx t = along cx dx u" "along ay b t = along cy d u" using meet by (auto simp: segs_meet_def)
  show ?thesis
  proof (cases "ax = bx \<and> ay = b")
    case True
    then have "of_int ax = along cx dx u" "of_int ay = along cy d u" using tu(5,6) by (simp_all add: along_def)
    then have "on_seg cx cy dx d ax ay" using tu(3,4) unfolding on_seg_along by blast
    then show ?thesis using True by blast
  next
    case False
    obtain g where g: "of_int cx = along ax bx g" "of_int cy = along ay b g" using cross_param [OF col False] .
    have col': "(dx - ax) * (b - ay) = (d - ay) * (bx - ax)" using par col by (simp add: algebra_simps)
    obtain h where h: "of_int dx = along ax bx h" "of_int d = along ay b h" using cross_param [OF col' False] .
    have s: "along cx dx v = along ax bx (g + v * (h - g))" "along cy d v = along ay b (g + v * (h - g))" for v
      unfolding along_def [of cx] along_def [of cy] g h by (simp_all add: along_def algebra_simps)
    have inj: "v = w" if "along ax bx v = along ax bx w" "along ay b v = along ay b w" for v w
      using that False by (auto simp: along_def)
    have t: "t = g + u * (h - g)" using tu(5,6) unfolding s by (rule inj)
    have on: "on_seg ax ay bx b cx cy" if "0 \<le> g" "g \<le> 1" using that g on_seg_along by blast
    have on': "on_seg ax ay bx b dx d" if "0 \<le> h" "h \<le> 1" using that h on_seg_along by blast
    have inside: "\<exists>v. 0 \<le> v \<and> v \<le> 1 \<and> w = g + v * (h - g)" if "g < 0 \<and> 1 < h \<or> h < 0 \<and> 1 < g" "0 \<le> w" "w \<le> 1" for w
      using that by (intro exI [of _ "(w - g) / (h - g)"]) (auto simp: divide_le_eq zero_le_divide_iff)
    have swallow: "on_seg cx cy dx d ax ay \<and> on_seg cx cy dx d bx b" if "g < 0 \<and> 1 < h \<or> h < 0 \<and> 1 < g"
      using inside [OF that, of 0] inside [OF that, of 1] s unfolding on_seg_along by (metis along_ends order_refl zero_le_one)
    have "min g h \<le> t" "t \<le> max g h"
    proof -
      have "t = (1 - u) * g + u * h" by (simp add: t algebra_simps)
      moreover have "(1 - u) * min g h + u * min g h \<le> (1 - u) * g + u * h"
        "(1 - u) * g + u * h \<le> (1 - u) * max g h + u * max g h"
        using tu(3,4) by (intro add_mono mult_left_mono; simp)+
      ultimately show "min g h \<le> t" "t \<le> max g h" by (simp_all flip: distrib_right)
    qed
    then have "0 \<le> g \<and> g \<le> 1 \<or> 0 \<le> h \<and> h \<le> 1 \<or> g < 0 \<and> 1 < h \<or> h < 0 \<and> 1 < g"
      using tu(1,2) by (auto simp: min_def max_def split: if_splits)
    then show ?thesis using on on' swallow by blast
  qed
qed

text \<open>The first segment lies in the second one and touches neither of its ends.\<close>

definition swallowed :: "int \<Rightarrow> int \<Rightarrow> int \<Rightarrow> int \<Rightarrow> int \<Rightarrow> int \<Rightarrow> int \<Rightarrow> int \<Rightarrow> bool" where
  "swallowed ax ay bx by cx cy dx dy \<longleftrightarrow>
     on_seg cx cy dx dy ax ay \<and> on_seg cx cy dx dy bx by \<and>
     \<not> on_seg ax ay bx by cx cy \<and> \<not> on_seg ax ay bx by dx dy"

lemma unit_ratio:
  assumes "k \<noteq> 0"
  shows "0 \<le> (of_int a / of_int k :: rat) \<and> (of_int a / of_int k :: rat) \<le> 1 \<longleftrightarrow> 0 \<le> a * sgn k \<and> a * sgn k \<le> \<bar>k\<bar>"
proof -
  have "0 < (of_int \<bar>k\<bar> :: rat)" using assms by simp
  then have "0 \<le> (of_int (a * sgn k) / of_int \<bar>k\<bar> :: rat) \<longleftrightarrow> (0::rat) \<le> of_int (a * sgn k)"
    "(of_int (a * sgn k) / of_int \<bar>k\<bar> :: rat) \<le> 1 \<longleftrightarrow> (of_int (a * sgn k) :: rat) \<le> of_int \<bar>k\<bar>"
    by (simp_all only: zero_le_divide_iff pos_divide_le_eq mult_1) auto
  then show ?thesis unfolding quot_sgn [OF assms, of a] by (simp only: of_int_0_le_iff of_int_le_iff)
qed

lemma crossing_meet:
  fixes ax ay bx b cx cy dx d :: int
  defines "R \<equiv> (bx - ax) * (d - cy) - (b - ay) * (dx - cx)"
    and "S \<equiv> (cx - ax) * (d - cy) - (cy - ay) * (dx - cx)"
    and "K \<equiv> (cx - ax) * (b - ay) - (cy - ay) * (bx - ax)"
  assumes "R \<noteq> 0"
  shows "segs_meet ax ay bx b cx cy dx d \<longleftrightarrow>
    0 \<le> S * sgn R \<and> S * sgn R \<le> \<bar>R\<bar> \<and> 0 \<le> K * sgn R \<and> K * sgn R \<le> \<bar>R\<bar>"
proof -
  let ?t = "of_int S / of_int R :: rat" and ?u = "of_int K / of_int R :: rat"
  have r: "(of_int R :: rat) \<noteq> 0" using assms(4) by simp
  have "S * (bx - ax) - K * (dx - cx) = (cx - ax) * R" "S * (b - ay) - K * (d - cy) = (cy - ay) * R"
    unfolding S_def K_def R_def by algebra+
  then have "of_int S * (of_int bx - of_int ax) - of_int K * (of_int dx - of_int cx) = (of_int cx - of_int ax) * (of_int R :: rat)"
    "of_int S * (of_int b - of_int ay) - of_int K * (of_int d - of_int cy) = (of_int cy - of_int ay) * (of_int R :: rat)"
    by (metis of_int_diff of_int_mult)+
  then have at: "along ax bx ?t = along cx dx ?u" "along ay b ?t = along cy d ?u"
    using r unfolding along_def by (simp_all add: field_simps)
  have "t = ?t \<and> u = ?u" if "along ax bx t = along cx dx u" "along ay b t = along cy d u" for t u
    using meet_params [OF that, folded R_def S_def K_def] r by (simp add: field_simps)
  then have "segs_meet ax ay bx b cx cy dx d \<longleftrightarrow> (0 \<le> ?t \<and> ?t \<le> 1) \<and> 0 \<le> ?u \<and> ?u \<le> 1"
    unfolding segs_meet_def using at by blast
  then show ?thesis unfolding unit_ratio [OF assms(4)] by blast
qed

text \<open>The test on integers: what \<open>IntersectsSegment\<close> computes, without rounding.\<close>

definition integer_test :: "int \<Rightarrow> int \<Rightarrow> int \<Rightarrow> int \<Rightarrow> int \<Rightarrow> int \<Rightarrow> int \<Rightarrow> int \<Rightarrow> bool" where
  "integer_test ax ay bx by cx cy dx dy =
    (let R = (bx - ax) * (dy - cy) - (by - ay) * (dx - cx);
         S = (cx - ax) * (dy - cy) - (cy - ay) * (dx - cx);
         K = (cx - ax) * (by - ay) - (cy - ay) * (bx - ax)
     in if K = 0
        then ((cx - ax \<le> 0) \<noteq> (cx - bx \<le> 0)) \<or> ((cy - ay \<le> 0) \<noteq> (cy - by \<le> 0)) \<or>
          on_seg ax ay bx by cx cy \<or> on_seg ax ay bx by dx dy
        else R \<noteq> 0 \<and> 0 \<le> S * sgn R \<and> S * sgn R \<le> \<bar>R\<bar> \<and> 0 \<le> K * sgn R \<and> K * sgn R \<le> \<bar>R\<bar>)"

lemma collinear_ends_test:
  assumes col: "(cx - ax) * (b - ay) = (cy - ay) * (bx - ax)"
  shows "on_seg ax ay bx b cx cy \<or> on_seg ax ay bx b dx d \<longleftrightarrow>
    segs_meet ax ay bx b cx cy dx d \<and> \<not> swallowed ax ay bx b cx cy dx d"
proof
  assume "on_seg ax ay bx b cx cy \<or> on_seg ax ay bx b dx d"
  then show "segs_meet ax ay bx b cx cy dx d \<and> \<not> swallowed ax ay bx b cx cy dx d"
    using on_both_meet on_seg_ends unfolding swallowed_def by blast
next
  assume meet: "segs_meet ax ay bx b cx cy dx d \<and> \<not> swallowed ax ay bx b cx cy dx d"
  show "on_seg ax ay bx b cx cy \<or> on_seg ax ay bx b dx d"
  proof (cases "(bx - ax) * (d - cy) = (b - ay) * (dx - cx)")
    case True
    then show ?thesis using collinear_meet [OF _ col] meet by (auto simp: swallowed_def)
  next
    case False
    obtain t u where tu: "0 \<le> t" "t \<le> 1" "along ax bx t = along cx dx u" "along ay b t = along cy d u"
      using meet by (auto simp: segs_meet_def)
    have "u = 0" using meet_params(2) [OF tu(3,4)] col False by (simp flip: of_int_diff of_int_mult)
    then show ?thesis using tu unfolding on_seg_along by (metis along_ends(1))
  qed
qed

lemma swallowed_parallel: "swallowed ax ay bx b cx cy dx d \<Longrightarrow> (bx - ax) * (d - cy) = (b - ay) * (dx - cx)"
proof -
  assume "swallowed ax ay bx b cx cy dx d"
  then have "(ax - cx) * (d - cy) = (ay - cy) * (dx - cx)" "(bx - cx) * (d - cy) = (b - cy) * (dx - cx)"
    by (auto simp: swallowed_def on_seg_def)
  then show ?thesis by algebra
qed

lemma integer_test_meet:
  "integer_test ax ay bx b cx cy dx d \<longleftrightarrow> segs_meet ax ay bx b cx cy dx d \<and> \<not> swallowed ax ay bx b cx cy dx d"
proof (cases "(cx - ax) * (b - ay) = (cy - ay) * (bx - ax)")
  case True
  then show ?thesis
    using between_on_seg [OF True] collinear_ends_test [OF True, of dx d] by (simp add: integer_test_def) blast
next
  case K: False
  show ?thesis
  proof (cases "(bx - ax) * (d - cy) = (b - ay) * (dx - cx)")
    case True
    then have "\<not> segs_meet ax ay bx b cx cy dx d"
      using meet_params(2) [of ax bx _ cx dx _ ay b cy d] K
      by (auto simp: segs_meet_def simp flip: of_int_diff of_int_mult)
    then show ?thesis using True K by (simp add: integer_test_def)
  next
    case False
    then have "\<not> swallowed ax ay bx b cx cy dx d" using swallowed_parallel by blast
    then show ?thesis using crossing_meet [of bx ax d cy b ay dx cx] False K by (simp add: integer_test_def Let_def)
  qed
qed

section \<open>The intersection test on the grid\<close>

lemma ranges_apart_grid:
  assumes "grid a" "grid b" "grid c" "grid d"
  shows "ranges_apart (f_of_int a) (f_of_int b) (f_of_int c) (f_of_int d) \<longleftrightarrow> max c d < min a b \<or> max a b < min c d"
  using assms by (auto simp: ranges_apart_def grid_cmp)

lemma grid_cross:
  assumes "grid a" "grid b" "grid c" "grid d" "grid a'" "grid b'" "grid c'" "grid d'"
  defines "x \<equiv> (f_of_int a - f_of_int a') * (f_of_int b - f_of_int b') - (f_of_int c - f_of_int c') * (f_of_int d - f_of_int d')"
    and "k \<equiv> (a - a') * (b - b') - (c - c') * (d - d')"
  shows "fint x k" "\<bar>k\<bar> \<le> 2 ^ 51"
proof -
  note df = grid_diff [OF assms(1,5)] grid_diff [OF assms(2,6)] grid_diff [OF assms(3,7)] grid_diff [OF assms(4,8)]
  have "\<bar>a - a'\<bar> * \<bar>b - b'\<bar> \<le> 2 ^ 25 * 2 ^ 25" "\<bar>c - c'\<bar> * \<bar>d - d'\<bar> \<le> 2 ^ 25 * 2 ^ 25"
    using df by (intro mult_mono; simp)+
  then have p: "\<bar>(a - a') * (b - b')\<bar> \<le> 2 ^ 50" "\<bar>(c - c') * (d - d')\<bar> \<le> 2 ^ 50"
    by (simp_all add: abs_mult)
  then show k: "\<bar>k\<bar> \<le> 2 ^ 51" by (simp add: k_def abs_le_iff)
  have "fint ((f_of_int a - f_of_int a') * (f_of_int b - f_of_int b')) ((a - a') * (b - b'))"
    "fint ((f_of_int c - f_of_int c') * (f_of_int d - f_of_int d')) ((c - c') * (d - d'))"
    using df p by (intro fint_mul; simp)+
  then show "fint x k" unfolding x_def k_def using k by (intro fint_sub) (auto simp: k_def)
qed

lemma seg_CollinearPoint_grid:
  assumes "grid ax" "grid ay" "grid bx" "grid b" "grid px" "grid py"
  shows "seg_CollinearPoint (iseg ax ay bx b) (ipoint px py) \<longleftrightarrow> (px - ax) * (b - ay) = (py - ay) * (bx - ax)"
  using fint_feq [OF grid_cross(1) [of px b py bx ax ay ay ax] fint_0] assms
  by (simp add: seg_CollinearPoint_def Let_def)

lemma f_order_0:
  assumes "grid a" "grid b"
  shows "f_of_int a - f_of_int b \<le> 0 \<longleftrightarrow> a - b \<le> 0"
  using fint_le [OF conjunct1 [OF grid_diff [OF assms]] fint_0] .

text \<open>Past the bounding boxes and the shared ends the code computes the test on integers.\<close>

lemma seg_IntersectsSegment_reads:
  assumes a: "grid ax" "grid ay" and b: "grid bx" "grid b" and c: "grid cx" "grid cy" and d: "grid dx" "grid d"
    and far: "\<not> ranges_apart (f_of_int ay) (f_of_int b) (f_of_int cy) (f_of_int d)"
      "\<not> ranges_apart (f_of_int ax) (f_of_int bx) (f_of_int cx) (f_of_int dx)"
    and ends: "\<not> point_eq (ipoint ax ay) (ipoint cx cy)" "\<not> point_eq (ipoint ax ay) (ipoint dx d)"
      "\<not> point_eq (ipoint bx b) (ipoint cx cy)" "\<not> point_eq (ipoint bx b) (ipoint dx d)"
  shows "seg_IntersectsSegment (iseg ax ay bx b) (iseg cx cy dx d) = Inr (integer_test ax ay bx b cx cy dx d)"
proof -
  let ?f = "f_of_int"
  let ?R = "(bx - ax) * (d - cy) - (b - ay) * (dx - cx)"
  let ?S = "(cx - ax) * (d - cy) - (cy - ay) * (dx - cx)"
  let ?K = "(cx - ax) * (b - ay) - (cy - ay) * (bx - ax)"
  let ?r = "(?f bx - ?f ax) * (?f d - ?f cy) - (?f b - ?f ay) * (?f dx - ?f cx)"
  let ?s = "(?f cx - ?f ax) * (?f d - ?f cy) - (?f cy - ?f ay) * (?f dx - ?f cx)"
  let ?k = "(?f cx - ?f ax) * (?f b - ?f ay) - (?f cy - ?f ay) * (?f bx - ?f ax)"
  have R: "fint ?r ?R" "\<bar>?R\<bar> \<le> 2 ^ 51" and S: "fint ?s ?S" and K: "fint ?k ?K"
    using grid_cross [OF b(1) d(2) b(2) d(1) a(1) c(2) a(2) c(1)]
      grid_cross(1) [OF c(1) d(2) c(2) d(1) a(1) c(2) a(2) c(1)]
      grid_cross(1) [OF c(1) b(2) c(2) b(1) a(1) a(2) a(2) a(1)] by blast+
  have zero: "feq ?k 0 \<longleftrightarrow> ?K = 0" "feq ?r 0 \<longleftrightarrow> ?R = 0"
    by (rule fint_feq [OF K fint_0], rule fint_feq [OF R(1) fint_0])
  have ratio: "0 \<le> ?s * (1 / ?r) \<longleftrightarrow> 0 \<le> ?S * sgn ?R" "?s * (1 / ?r) \<le> 1 \<longleftrightarrow> ?S * sgn ?R \<le> \<bar>?R\<bar>"
    "0 \<le> ?k * (1 / ?r) \<longleftrightarrow> 0 \<le> ?K * sgn ?R" "?k * (1 / ?r) \<le> 1 \<longleftrightarrow> ?K * sgn ?R \<le> \<bar>?R\<bar>" if "?R \<noteq> 0"
    using fint_ratio_test [OF S R(1) that R(2)] fint_ratio_test [OF K R(1) that R(2)] by blast+
  note unfold = seg_IntersectsSegment_def Let_def integer_test_def far ends zero f_order_0
  consider (collinear) "?K = 0" | (parallel) "?K \<noteq> 0" "?R = 0" | (crossing) "?K \<noteq> 0" "?R \<noteq> 0" by blast
  then show ?thesis
  proof cases
    case collinear
    then show ?thesis using assms by (simp add: unfold seg_Raycast_grid mk_raycast_def cong: if_cong)
  next
    case parallel
    then show ?thesis by (simp add: unfold cong: if_cong)
  next
    case crossing
    then show ?thesis by (simp add: unfold ratio cong: if_cong)
  qed
qed

lemma seg_IntersectsSegment_grid:
  assumes a: "grid ax" "grid ay" and b: "grid bx" "grid b" and c: "grid cx" "grid cy" and d: "grid dx" "grid d"
  shows "seg_IntersectsSegment (iseg ax ay bx b) (iseg cx cy dx d) =
    Inr (segs_meet ax ay bx b cx cy dx d \<and> \<not> swallowed ax ay bx b cx cy dx d)"
proof -
  let ?apart = "max cy d < min ay b \<or> max ay b < min cy d \<or> max cx dx < min ax bx \<or> max ax bx < min cx dx"
  let ?shared = "ax = cx \<and> ay = cy \<or> ax = dx \<and> ay = d \<or> bx = cx \<and> b = cy \<or> bx = dx \<and> b = d"
  show ?thesis
  proof (cases "?apart \<or> ?shared")
    case True
    then have code: "seg_IntersectsSegment (iseg ax ay bx b) (iseg cx cy dx d) = Inr (\<not> ?apart)"
      using assms by (auto simp: seg_IntersectsSegment_def Let_def ranges_apart_grid point_eq_def grid_cmp)
    have "segs_meet ax ay bx b cx cy dx d \<and> \<not> swallowed ax ay bx b cx cy dx d" if "?shared"
      using that on_both_meet on_seg_ends unfolding swallowed_def by blast
    moreover have "\<not> ?apart" if "segs_meet ax ay bx b cx cy dx d"
      using meet_boxes [OF that] by linarith
    ultimately have "(\<not> ?apart) = (segs_meet ax ay bx b cx cy dx d \<and> \<not> swallowed ax ay bx b cx cy dx d)"
      using True by blast
    then show ?thesis using code by (simp only:)
  next
    case False
    then show ?thesis
      unfolding integer_test_meet [symmetric] using assms
      by (intro seg_IntersectsSegment_reads) (auto simp: ranges_apart_grid point_eq_def grid_cmp)
  qed
qed

text \<open>
  C10: on integer coordinates of at most 2 ^ 24 \<open>IntersectsSegment\<close> decides exactly whether two segments
  have a point in common, with one exception: it says no where the first segment lies in the
  second and touches neither of its ends. The products, the reciprocal and the two ratios in floating
  point never change the answer.
\<close>

theorem seg_IntersectsSegment_exact:
  assumes "\<bar>ax\<bar> \<le> 2 ^ 24" "\<bar>ay\<bar> \<le> 2 ^ 24" "\<bar>bx\<bar> \<le> 2 ^ 24" "\<bar>by\<bar> \<le> 2 ^ 24"
    and "\<bar>cx\<bar> \<le> 2 ^ 24" "\<bar>cy\<bar> \<le> 2 ^ 24" "\<bar>dx\<bar> \<le> 2 ^ 24" "\<bar>dy\<bar> \<le> 2 ^ 24"
  shows "seg_IntersectsSegment (iseg ax ay bx by) (iseg cx cy dx dy) =
    Inr (segs_meet ax ay bx by cx cy dx dy \<and> \<not> swallowed ax ay bx by cx cy dx dy)"
  using assms by (intro seg_IntersectsSegment_grid) (simp_all add: grid_def)

theorem seg_IntersectsSegment_exact_witness:
  "seg_IntersectsSegment (iseg 0 0 4 4) (iseg 0 4 4 0) = Inr True"
proof -
  have "segs_meet 0 0 4 4 0 4 4 0"
    unfolding segs_meet_def by (intro exI [of _ "1 / 2"]) (simp add: along_def)
  moreover have "\<not> swallowed 0 0 4 4 0 4 4 0" by (simp add: swallowed_def on_seg_def)
  ultimately show ?thesis using seg_IntersectsSegment_exact [of 0 0 4 4 0 4 4 0] by simp
qed

text \<open>
  C39: the exception is real: the segment from (1, 0) to (2, 0) does not intersect the one from (0, 0)
  to (3, 0) that it is part of, although the longer one intersects the shorter one. So the
  test is not symmetric.
\<close>

theorem seg_IntersectsSegment_asymmetric:
  "seg_IntersectsSegment (iseg 1 0 2 0) (iseg 0 0 3 0) = Inr False \<and>
   seg_IntersectsSegment (iseg 0 0 3 0) (iseg 1 0 2 0) = Inr True \<and> segs_meet 1 0 2 0 0 0 3 0"
proof -
  have "segs_meet 1 0 2 0 0 0 3 0" "segs_meet 0 0 3 0 1 0 2 0"
    by (rule on_both_meet [of _ _ _ _ 1 0]; simp add: on_seg_def)+
  then show ?thesis by (simp add: seg_IntersectsSegment_grid grid_def swallowed_def on_seg_def)
qed

end
