(* ===== verification/Lines.thy ===== *)
theory Lines
  imports Poly_Points Segment_Grid
begin

text \<open>
  Lines with integer points: the points on them, the lines they intersect and the lines they contain.
  The loop of \<open>ContainsLine\<close> is exact for a line of one segment; for more it may run for ever or
  accept a line that leaves the first one.
\<close>


section \<open>The legs of a line\<close>

definition legs :: "(int \<times> int) list \<Rightarrow> ((int \<times> int) \<times> (int \<times> int)) list" where
  "legs pts = zip pts (tl pts)"

definition grid_line :: "(int \<times> int) list \<Rightarrow> bool" where
  "grid_line pts \<longleftrightarrow> (\<forall>(x, y) \<in> set pts. \<bar>x\<bar> \<le> 2 ^ 24 \<and> \<bar>y\<bar> \<le> 2 ^ 24) \<and> length pts \<le> 2 ^ 20"

definition line_of :: "Line \<Rightarrow> (int \<times> int) list \<Rightarrow> bool" where
  "line_of line pts \<longleftrightarrow> grid_line pts \<and> searchable line \<and> bs_points line = ipoints pts \<and> \<not> bs_closed line"

lemma NewLine_line_of:
  assumes "grid_line pts"
  shows "\<exists>line. NewLine (ipoints pts) opts = Inr line \<and> line_of line pts"
proof -
  have "\<forall>p \<in> set (ipoints pts). point_ok p" "length (ipoints pts) < 2 ^ 63"
    using assms by (auto simp: grid_line_def point_ok_def)
  from makeSeries_ok [OF this, of True False opts] obtain line where
    l: "NewLine (ipoints pts) opts = Inr line" "bs_points line = ipoints pts" "\<not> bs_closed line"
      "series_wf line" "index_ok line" unfolding NewLine_def by auto
  moreover have "searchable line" using searchable_small [OF l(4,5)] l(2) assms by (simp add: grid_line_def)
  ultimately show ?thesis using assms by (auto simp: line_of_def)
qed

lemma legs_length [simp]: "length (legs pts) = length pts - 1"
  by (simp add: legs_def)

lemma legs_nth: "i < length pts - 1 \<Longrightarrow> legs pts ! i = (pts ! i, pts ! Suc i)"
  by (simp add: legs_def nth_tl)

lemma legs_grid:
  assumes "grid_line pts" "e \<in> set (legs pts)"
  shows "grid_edge e"
proof -
  have "fst e \<in> set pts" "snd e \<in> set (tl pts)"
    using assms(2) unfolding legs_def by (metis prod.collapse set_zip_leftD set_zip_rightD)+
  then have "fst e \<in> set pts" "snd e \<in> set pts" by (cases pts; simp)+
  then show ?thesis using assms(1) by (auto simp: grid_edge_def grid_line_def grid_def split: prod.splits)
qed

lemma line_segs:
  assumes "line_of line pts"
  shows "series_NumSegments line = int (length (legs pts))"
    and "i \<in> set [0..series_NumSegments line - 1] \<Longrightarrow> item_seg line i = edge_seg (legs pts ! nat i)"
proof -
  have l: "bs_points line = ipoints pts" "\<not> bs_closed line" using assms by (auto simp: line_of_def)
  show n: "series_NumSegments line = int (length (legs pts))"
    using l by (simp add: series_NumSegments_def Let_def of_nat_diff)
  assume "i \<in> set [0..series_NumSegments line - 1]"
  then have i: "0 \<le> i" "nat i < length pts - 1" unfolding n by auto
  then have "i \<noteq> int (length pts) - 1" "nat (i + 1) = Suc (nat i)" "i + 1 < int (length pts)" "nat i < length pts" by auto
  then have "item_seg line i = mk_segment (ipoints pts ! nat i) (ipoints pts ! Suc (nat i))"
    using i by (simp add: item_seg_def series_SegmentAt_def index_at_def l)
  then show "item_seg line i = edge_seg (legs pts ! nat i)"
    using i legs_nth [OF i(2)] by (simp add: edge_seg_def iseg_def split_beta)
qed

lemma ex_upto: "(\<exists>i \<in> set [0..int (length xs) - 1]. P (xs ! nat i)) \<longleftrightarrow> (\<exists>x \<in> set xs. P x)"
proof
  assume "\<exists>x \<in> set xs. P x"
  then obtain k where "k < length xs" "P (xs ! k)" by (auto simp: in_set_conv_nth)
  then show "\<exists>i \<in> set [0..int (length xs) - 1]. P (xs ! nat i)" by (intro bexI [of _ "int k"]) auto
qed (metis nat_less_iff atLeastAtMost_iff nth_mem set_upto zle_diff1_eq)

text \<open>A search for a leg that passes a test only sees the legs near the target, so the target must meet them.\<close>

lemma line_search_exists:
  assumes "line_of line pts"
    and near: "\<And>e. e \<in> set (legs pts) \<Longrightarrow> P e \<Longrightarrow> rect_IntersectsRect (seg_Rect (edge_seg e)) target"
    and iter: "\<And>e i s. e \<in> set (legs pts) \<Longrightarrow> iter (edge_seg e) i s = Inr (if P e then (False, True) else (True, s))"
  shows "series_Search line target iter False = Inr (\<exists>e \<in> set (legs pts). P e)"
proof -
  let ?I = "[0..series_NumSegments line - 1]"
  have s: "searchable line" using assms(1) by (simp add: line_of_def)
  have seg: "item_seg line i = edge_seg (legs pts ! nat i)" "legs pts ! nat i \<in> set (legs pts)" if "i \<in> set ?I" for i
    using line_segs(2) [OF assms(1) that] that line_segs(1) [OF assms(1)] by auto
  have h: "set (base_search.hit_indices line target) \<subseteq> set ?I" by (auto simp: base_search.hit_indices_def)
  have step: "iter (item_seg line i) i s = Inr (if P (legs pts ! nat i) then (False, True) else (True, s))"
    if "i \<in> set (base_search.hit_indices line target)" for i s
    using seg [OF subsetD [OF h that]] iter by simp
  have "series_Search line target iter False =
      Inr (if \<exists>i \<in> set (base_search.hit_indices line target). P (legs pts ! nat i) then True else False)"
    by (rule base_search.search_exists [OF s, where P = "\<lambda>i. P (legs pts ! nat i)"]) (rule step)
  also have "(\<exists>i \<in> set (base_search.hit_indices line target). P (legs pts ! nat i)) \<longleftrightarrow> (\<exists>i \<in> set ?I. P (legs pts ! nat i))"
  proof -
    have "rect_IntersectsRect (seg_Rect (item_seg line i)) target" if "i \<in> set ?I" "P (legs pts ! nat i)" for i
      using seg [OF that(1)] near that(2) by simp
    then show ?thesis unfolding base_search.hit_indices_def set_filter by blast
  qed
  also have "\<dots> \<longleftrightarrow> (\<exists>e \<in> set (legs pts). P e)" unfolding line_segs(1) [OF assms(1)] by (rule ex_upto)
  finally show ?thesis by simp
qed

section \<open>Points on a line\<close>

lemma seg_Rect_grid:
  assumes "grid ax" "grid ay" "grid bx" "grid b"
  shows "seg_Rect (iseg ax ay bx b) = irect (min ax bx) (min ay b) (max ax bx) (max ay b)"
  using assms
  by (auto simp: seg_Rect_def Let_def grid_cmp min_def max_def ipoint_def irect_def mk_rect_def mk_point_def)

lemma rect_IntersectsRect_grid:
  assumes "grid x0" "grid y0" "grid x1" "grid y1" "grid u0" "grid v0" "grid u1" "grid v1"
  shows "rect_IntersectsRect (irect x0 y0 x1 y1) (irect u0 v0 u1 v1) \<longleftrightarrow> x0 \<le> u1 \<and> u0 \<le> x1 \<and> y0 \<le> v1 \<and> v0 \<le> y1"
  using assms by (auto simp: rect_IntersectsRect_alt grid_cmp)

lemma grid_minmax [simp]: "grid a \<Longrightarrow> grid b \<Longrightarrow> grid (min a b)" "grid a \<Longrightarrow> grid b \<Longrightarrow> grid (max a b)"
  by (auto simp: min_def max_def)

lemma edge_on_rect:
  assumes "grid_edge e" "grid px" "grid py" "edge_on px py e"
  shows "rect_IntersectsRect (seg_Rect (edge_seg e)) (mk_rect (ipoint px py) (ipoint px py))"
  using assms
  by (cases e) (auto simp: grid_edge_def edge_on_def on_seg_def edge_seg_def seg_Rect_grid
      rect_IntersectsRect_grid simp flip: irect_def)

lemma line_of_ContainsPoint:
  assumes "line_of line pts" "grid px" "grid py"
  shows "line_ContainsPoint (Some line) (ipoint px py) = Inr (\<exists>e \<in> set (legs pts). edge_on px py e)"
proof -
  have g: "grid_edge e" if "e \<in> set (legs pts)" for e using legs_grid [OF _ that] assms(1) by (simp add: line_of_def)
  have ray: "seg_Raycast (edge_seg e) (ipoint px py) =
      Inr (mk_raycast (\<not> edge_on px py e \<and> edge_crosses px py e) (edge_on px py e))" if "e \<in> set (legs pts)" for e
    using g [OF that] seg_Raycast_grid assms(2,3)
    by (auto simp: edge_seg_def edge_on_def edge_crosses_def grid_edge_def split: prod.splits)
  have "series_Search line (mk_rect (ipoint px py) (ipoint px py)) (line_Searcher (ipoint px py)) False =
      Inr (\<exists>e \<in> set (legs pts). edge_on px py e)"
    using g assms(2,3) by (intro line_search_exists [OF assms(1)]) (auto simp: edge_on_rect line_Searcher_def ray mk_raycast_def)
  then show ?thesis by (simp add: line_ContainsPoint_def)
qed


section \<open>Lines that meet\<close>

definition edges_meet :: "(int \<times> int) \<times> (int \<times> int) \<Rightarrow> (int \<times> int) \<times> (int \<times> int) \<Rightarrow> bool" where
  "edges_meet = (\<lambda>((ax, ay), (bx, by)) ((cx, cy), (dx, dy)). segs_meet ax ay bx by cx cy dx dy)"

definition edge_swallowed :: "(int \<times> int) \<times> (int \<times> int) \<Rightarrow> (int \<times> int) \<times> (int \<times> int) \<Rightarrow> bool" where
  "edge_swallowed = (\<lambda>((ax, ay), (bx, by)) ((cx, cy), (dx, dy)). swallowed ax ay bx by cx cy dx dy)"

lemma edges_IntersectsSegment:
  assumes "grid_edge e" "grid_edge f"
  shows "seg_IntersectsSegment (edge_seg e) (edge_seg f) = Inr (edges_meet e f \<and> \<not> edge_swallowed e f)"
  using assms seg_IntersectsSegment_grid
  by (cases e; cases f) (auto simp: grid_edge_def edge_seg_def edges_meet_def edge_swallowed_def)

lemma edges_meet_rects:
  assumes "grid_edge e" "grid_edge f" "edges_meet e f"
  shows "rect_IntersectsRect (seg_Rect (edge_seg f)) (seg_Rect (edge_seg e))"
proof -
  obtain ax ay bx b cx cy dx d where ef: "e = ((ax, ay), (bx, b))" "f = ((cx, cy), (dx, d))" by (metis prod.exhaust)
  have "segs_meet ax ay bx b cx cy dx d" using assms(3) by (simp add: ef edges_meet_def)
  note m = meet_boxes [OF this]
  show ?thesis
    using assms(1,2) m by (simp add: ef grid_edge_def edge_seg_def seg_Rect_grid rect_IntersectsRect_grid)
qed

lemma intersect_mono:
  assumes "rect_ContainsRect R r" "rect_ContainsRect S s" "rect_IntersectsRect r s" "rect_ok r" "rect_ok s"
  shows "rect_IntersectsRect R S"
proof -
  have far: "a < d" if "\<not> b < a" "\<not> d < c" "b < c" "\<not> is_nan a" "\<not> is_nan d" for a b c d :: f64
    using that by (auto simp: f64_order)
  have R: "\<not> X (RMin r) < X (RMin R)" "\<not> X (RMax R) < X (RMax r)" "\<not> Y (RMin r) < Y (RMin R)" "\<not> Y (RMax R) < Y (RMax r)"
    and S: "\<not> X (RMin s) < X (RMin S)" "\<not> X (RMax S) < X (RMax s)" "\<not> Y (RMin s) < Y (RMin S)" "\<not> Y (RMax S) < Y (RMax s)"
    using assms(1,2) by (auto simp: rect_ContainsRect_def split: if_splits)
  have nn: "\<not> is_nan (X (RMin r))" "\<not> is_nan (X (RMax r))" "\<not> is_nan (Y (RMin r))" "\<not> is_nan (Y (RMax r))"
    "\<not> is_nan (X (RMin s))" "\<not> is_nan (X (RMax s))" "\<not> is_nan (Y (RMin s))" "\<not> is_nan (Y (RMax s))"
    using assms(4,5) by (auto simp: rect_ok_def f64_order)
  show ?thesis
    using assms(3) far [OF R(2) S(1)] far [OF S(2) R(1)] far [OF R(4) S(3)] far [OF S(4) R(3)] nn
    unfolding rect_IntersectsRect_alt by blast
qed

lemma edge_rect_ok: "grid_edge e \<Longrightarrow> rect_ok (seg_Rect (edge_seg e))"
  by (rule seg_Rect_ok) (auto simp: seg_ok_def grid_edge_def edge_seg_def point_ok_def split: prod.splits)

lemma line_rect_covers:
  assumes "line_of line pts" "e \<in> set (legs pts)"
  shows "rect_ContainsRect (series_Rect line) (seg_Rect (edge_seg e))"
proof -
  obtain k where k: "k < length (legs pts)" "e = legs pts ! k" using assms(2) by (auto simp: in_set_conv_nth)
  then have i: "int k \<in> set [0..series_NumSegments line - 1]" using line_segs(1) [OF assms(1)] by auto
  have "rect_ContainsRect (bs_rect line) (item_rect line (int k))"
    using assms(1) i by (simp add: line_of_def searchable_def series_wf_def)
  then show ?thesis using line_segs(2) [OF assms(1) i] k by (simp add: item_rect_def series_Rect_def)
qed

lemma lines_meet_rects:
  assumes "line_of l pts" "line_of l' qts" "e \<in> set (legs pts)" "f \<in> set (legs qts)" "edges_meet e f"
  shows "rect_IntersectsRect (series_Rect l) (series_Rect l')"
proof -
  have g: "grid_edge e" "grid_edge f" using legs_grid assms unfolding line_of_def by blast+
  then have "rect_IntersectsRect (seg_Rect (edge_seg e)) (seg_Rect (edge_seg f))"
    using edges_meet_rects assms(5) rect_IntersectsRect_sym by blast
  then show ?thesis
    using intersect_mono line_rect_covers [OF assms(1,3)] line_rect_covers [OF assms(2,4)] edge_rect_ok g by blast
qed

text \<open>The loop over the legs of the first line with a search of the second one.\<close>

lemma legs_loop:
  assumes "line_of l pts" "line_of l' qts"
  shows "exM (\<lambda>i. rbind (series_SegmentAt l i) (\<lambda>segA. series_Search l' (seg_Rect segA) (lines_Searcher segA) False))
      [0..series_NumSegments l - 1] =
    Inr (\<exists>e \<in> set (legs pts). \<exists>f \<in> set (legs qts). edges_meet e f \<and> \<not> edge_swallowed e f)"
proof -
  have g: "e \<in> set (legs pts) \<Longrightarrow> grid_edge e" "f \<in> set (legs qts) \<Longrightarrow> grid_edge f" for e f
    using legs_grid assms unfolding line_of_def by blast+
  have leg: "series_Search l' (seg_Rect (edge_seg e)) (lines_Searcher (edge_seg e)) False =
      Inr (\<exists>f \<in> set (legs qts). edges_meet e f \<and> \<not> edge_swallowed e f)" if "e \<in> set (legs pts)" for e
    using g(1) [OF that] g(2)
    by (intro line_search_exists [OF assms(2)])
      (simp_all add: edges_meet_rects lines_Searcher_def edges_IntersectsSegment)
  let ?P = "\<lambda>e. \<exists>f \<in> set (legs qts). edges_meet e f \<and> \<not> edge_swallowed e f"
  have "exM (\<lambda>i. rbind (series_SegmentAt l i) (\<lambda>segA. series_Search l' (seg_Rect segA) (lines_Searcher segA) False))
      [0..series_NumSegments l - 1] = Inr (\<exists>i \<in> set [0..series_NumSegments l - 1]. ?P (legs pts ! nat i))"
  proof (rule exM_total)
    fix i assume i: "i \<in> set [0..series_NumSegments l - 1]"
    then have "series_SegmentAt l i = Inr (item_seg l i)"
      using wf_item_ok item_okD(1) assms(1) by (simp add: line_of_def searchable_def series_wf_def)
    moreover have "legs pts ! nat i \<in> set (legs pts)" using i line_segs(1) [OF assms(1)] by auto
    ultimately show "rbind (series_SegmentAt l i) (\<lambda>segA. series_Search l' (seg_Rect segA) (lines_Searcher segA) False) =
        Inr (?P (legs pts ! nat i))"
      using line_segs(2) [OF assms(1) i] leg by simp
  qed
  also have "(\<exists>i \<in> set [0..series_NumSegments l - 1]. ?P (legs pts ! nat i)) = (\<exists>e \<in> set (legs pts). ?P e)"
    unfolding line_segs(1) [OF assms(1)] by (rule ex_upto)
  finally show ?thesis .
qed

lemma line_of_IntersectsLine:
  assumes "line_of l pts" "line_of l' qts"
  shows "line_IntersectsLine (Some l) (Some l') =
    Inr (if length pts > length qts
         then \<exists>e \<in> set (legs qts). \<exists>f \<in> set (legs pts). edges_meet e f \<and> \<not> edge_swallowed e f
         else \<exists>e \<in> set (legs pts). \<exists>f \<in> set (legs qts). edges_meet e f \<and> \<not> edge_swallowed e f)"
proof -
  let ?M = "\<lambda>ps qs. \<exists>e \<in> set (legs ps). \<exists>f \<in> set (legs qs). edges_meet e f \<and> \<not> edge_swallowed e f"
  have n: "series_NumPoints l = int (length pts)" "series_NumPoints l' = int (length qts)"
    and e: "series_Empty (Some l) \<longleftrightarrow> length pts < 2" "series_Empty (Some l') \<longleftrightarrow> length qts < 2"
    using assms by (auto simp: line_of_def series_NumPoints_def series_Empty_def)
  have empty: "\<not> ?M ps qs" if "length ps < 2 \<or> length qs < 2" for ps qs :: "(int \<times> int) list"
  proof -
    have "length (legs ps) = 0 \<or> length (legs qs) = 0" using that by auto
    then show ?thesis unfolding length_0_conv by auto
  qed
  have near: "rect_IntersectsRect (series_Rect l) (series_Rect l')" if "?M pts qts \<or> ?M qts pts"
    using that lines_meet_rects [OF assms] lines_meet_rects [OF assms(2,1)] rect_IntersectsRect_sym by blast
  show ?thesis
    using empty [of pts qts] empty [of qts pts] near legs_loop [OF assms] legs_loop [OF assms(2,1)]
    by (auto simp: line_IntersectsLine_def n e Let_def)
qed

text \<open>
  C30: a line with integer points of at most 2 ^ 24 contains an integer point exactly if the point is on
  one of its legs. \<open>NewLine\<close> succeeds, and the index options do not matter.
\<close>

theorem line_ContainsPoint_exact:
  assumes "grid_line pts" "\<bar>px\<bar> \<le> 2 ^ 24" "\<bar>py\<bar> \<le> 2 ^ 24"
  shows "\<exists>line. NewLine (map (\<lambda>(x, y). ipoint x y) pts) opts = Inr line \<and>
    line_ContainsPoint (Some line) (ipoint px py) = Inr (\<exists>e \<in> set (legs pts). edge_on px py e)"
  using NewLine_line_of [OF assms(1), of opts] line_of_ContainsPoint [of _ pts px py] assms(2,3)
  unfolding grid_def by blast

theorem line_ContainsPoint_exact_witness:
  "\<exists>line. NewLine (map (\<lambda>(x, y). ipoint x y) [(0, 0), (4, 4), (8, 0)]) None = Inr line \<and>
    line_ContainsPoint (Some line) (ipoint 6 2) = Inr True"
  using line_ContainsPoint_exact [of "[(0, 0), (4, 4), (8, 0)]" 6 2 None]
  by (simp add: grid_line_def legs_def edge_on_def on_seg_def)

text \<open>
  C21: two lines with integer points of at most 2 ^ 24 intersect, by \<open>IntersectsLine\<close>, exactly if a leg of
  the one with fewer points has a point in common with a leg of the other and is not strictly inside it.
  The bounding boxes and the index never lose an intersection.
\<close>

theorem line_IntersectsLine_exact:
  assumes "grid_line pts" "grid_line qts"
  shows "\<exists>line other. NewLine (map (\<lambda>(x, y). ipoint x y) pts) opts = Inr line \<and>
    NewLine (map (\<lambda>(x, y). ipoint x y) qts) opts' = Inr other \<and>
    line_IntersectsLine (Some line) (Some other) =
      Inr (if length pts > length qts
           then \<exists>e \<in> set (legs qts). \<exists>f \<in> set (legs pts). edges_meet e f \<and> \<not> edge_swallowed e f
           else \<exists>e \<in> set (legs pts). \<exists>f \<in> set (legs qts). edges_meet e f \<and> \<not> edge_swallowed e f)"
  using NewLine_line_of [OF assms(1), of opts] NewLine_line_of [OF assms(2), of opts'] line_of_IntersectsLine
  by blast

theorem line_IntersectsLine_exact_witness:
  "\<exists>line other. NewLine (map (\<lambda>(x, y). ipoint x y) [(0, 0), (4, 4), (8, 0)]) None = Inr line \<and>
    NewLine (map (\<lambda>(x, y). ipoint x y) [(0, 4), (4, 4)]) None = Inr other \<and>
    line_IntersectsLine (Some line) (Some other) = Inr True"
proof -
  have "segs_meet 0 4 4 4 0 0 4 4" by (rule on_both_meet [of _ _ _ _ 4 4]; simp add: on_seg_def)
  then show ?thesis
    using line_IntersectsLine_exact [of "[(0, 0), (4, 4), (8, 0)]" "[(0, 4), (4, 4)]" None None]
    by (simp add: grid_line_def legs_def edges_meet_def edge_swallowed_def swallowed_def on_seg_def)
qed

section \<open>Lines in lines\<close>

definition leg_in :: "(int \<times> int) \<times> (int \<times> int) \<Rightarrow> (int \<times> int) \<times> (int \<times> int) \<Rightarrow> bool" where
  "leg_in e f \<longleftrightarrow> edge_on (fst (fst e)) (snd (fst e)) f \<and> edge_on (fst (snd e)) (snd (snd e)) f"

lemma seg_ContainsSegment_grid:
  assumes "grid_edge e" "grid_edge f"
  shows "seg_ContainsSegment (edge_seg f) (edge_seg e) = Inr (leg_in e f)"
  using assms seg_Raycast_grid
  by (cases e; cases f)
    (auto simp: seg_ContainsSegment_def edge_seg_def leg_in_def edge_on_def grid_edge_def mk_raycast_def)

lemma line_leg:
  assumes "line_of line pts" "0 \<le> i" "i < int (length (legs pts))"
  shows "series_SegmentAt line i = Inr (edge_seg (legs pts ! nat i))" "grid_edge (legs pts ! nat i)"
proof -
  have i: "i \<in> set [0..series_NumSegments line - 1]" using assms line_segs(1) [OF assms(1)] by auto
  then have "series_SegmentAt line i = Inr (item_seg line i)"
    using wf_item_ok item_okD(1) assms(1) by (simp add: line_of_def searchable_def series_wf_def)
  then show "series_SegmentAt line i = Inr (edge_seg (legs pts ! nat i))" using line_segs(2) [OF assms(1) i] by simp
  show "grid_edge (legs pts ! nat i)"
    using assms by (intro legs_grid [of pts]) (auto simp: line_of_def)
qed

lemma first_containing_legs:
  assumes "line_of l pts" "line_of l' qts" "2 \<le> length qts" "\<forall>j \<in> set js. 0 \<le> j \<and> j < int (length (legs pts))"
  shows "first_containing l l' js = Inr (case find (\<lambda>j. leg_in (legs qts ! 0) (legs pts ! nat j)) js of
    None \<Rightarrow> - 1 | Some j \<Rightarrow> j)"
  using assms(4)
proof (induction js)
  case (Cons j js)
  then show ?case
    using line_leg [OF assms(1), of j] line_leg [OF assms(2), of 0] assms(3) seg_ContainsSegment_grid by simp
qed simp

lemma follow_test_legs:
  assumes "line_of l pts" "line_of l' qts" "0 \<le> j" "j < int (length (legs pts))" "0 \<le> i" "i < int (length (legs qts))"
  shows "follow_test l l' j i = Inr (edge_seg (legs pts ! nat j), edge_seg (legs qts ! nat i),
    leg_in (legs qts ! nat i) (legs pts ! nat j))"
  using line_leg [OF assms(1,3,4)] line_leg [OF assms(2,5,6)] seg_ContainsSegment_grid by (simp add: follow_test_def)

text \<open>
  C33: a line contains a line of one segment exactly if one of its legs contains the segment, for
  integer points of at most 2 ^ 24.
\<close>

theorem line_ContainsLine_segment:
  assumes "grid_line pts" "grid_line [a, b]"
  shows "\<exists>line other. NewLine (map (\<lambda>(x, y). ipoint x y) pts) opts = Inr line \<and>
    NewLine (map (\<lambda>(x, y). ipoint x y) [a, b]) opts' = Inr other \<and>
    line_ContainsLine (Some line) (Some other) = Inr (\<exists>f \<in> set (legs pts). leg_in (a, b) f)"
proof -
  obtain l l' where l: "NewLine (ipoints pts) opts = Inr l" "line_of l pts"
    "NewLine (ipoints [a, b]) opts' = Inr l'" "line_of l' [a, b]"
    using NewLine_line_of [OF assms(1)] NewLine_line_of [OF assms(2)] by blast
  let ?js = "[0..int (length (legs pts)) - 1]" and ?P = "\<lambda>j. leg_in (a, b) (legs pts ! nat j)"
  have leg: "legs [a, b] ! 0 = (a, b)" by (simp add: legs_def)
  have n: "series_NumSegments l' = 1" using line_segs(1) [OF l(4)] by simp
  have e: "series_Empty (Some l) \<longleftrightarrow> length pts < 2" "\<not> series_Empty (Some l')"
    using l(2,4) by (auto simp: line_of_def series_Empty_def)
  have first: "first_containing l l' ?js = Inr (case find ?P ?js of None \<Rightarrow> - 1 | Some j \<Rightarrow> j)"
    using first_containing_legs [OF l(2,4), of ?js] by (simp add: leg)
  have follow: "follow_line l l' 1 j = Some (Inr True)" for j by (simp add: follow_line.simps n)
  have "line_ContainsLine (Some l) (Some l') = Inr (\<exists>j \<in> set ?js. ?P j)"
  proof (cases "find ?P ?js")
    case None
    then have "line_ContainsLine (Some l) (Some l') = Inr False"
      using first line_segs(1) [OF l(2)] by (simp add: line_ContainsLine_def)
    then show ?thesis using None by (auto simp: find_None_iff)
  next
    case (Some j)
    then have j: "j \<in> set ?js" "?P j" by (metis find_Some_iff nth_mem)+
    then have "\<not> series_Empty (Some l)" "j \<noteq> - 1" using e(1) by auto
    then have "line_ContainsLine (Some l) (Some l') = Inr True"
      using e(2) first line_segs(1) [OF l(2)] follow Some by (simp add: line_ContainsLine_def)
    moreover have "\<exists>j \<in> set ?js. ?P j" using j by blast
    ultimately show ?thesis by simp
  qed
  then have "line_ContainsLine (Some l) (Some l') = Inr (\<exists>f \<in> set (legs pts). leg_in (a, b) f)"
    by (simp only: ex_upto)
  then show ?thesis using l(1,3) by blast
qed

theorem line_ContainsLine_segment_witness:
  "\<exists>line other. NewLine (map (\<lambda>(x, y). ipoint x y) [(0, 0), (9, 9)]) None = Inr line \<and>
    NewLine (map (\<lambda>(x, y). ipoint x y) [(1, 1), (2, 2)]) None = Inr other \<and>
    line_ContainsLine (Some line) (Some other) = Inr True"
  using line_ContainsLine_segment [of "[(0, 0), (9, 9)]" "(1, 1)" "(2, 2)" None None]
  by (simp add: grid_line_def legs_def leg_in_def edge_on_def on_seg_def)

text \<open>
  The loop of \<open>ContainsLine\<close> stops only where it leaves the other line; a step back that is followed by
  a step forward to the same leg repeats for ever.
\<close>

lemma follow_line_ping_pong:
  assumes l: "line_of l [(0, 0), (5, 0), (10, 0)]" "line_of l' [(6, 0), (5, 0), (5, 5)]"
  shows "follow_line l l' 1 1 = None"
proof -
  have n: "series_NumSegments l = 2" "series_NumSegments l' = 2"
    using line_segs(1) [OF l(1)] line_segs(1) [OF l(2)] by simp_all
  have t: "follow_test l l' 0 1 = Inr (iseg 0 0 5 0, iseg 5 0 5 5, False)"
    "follow_test l l' 1 1 = Inr (iseg 5 0 10 0, iseg 5 0 5 5, False)"
    using follow_test_legs [OF l, of 0 1] follow_test_legs [OF l, of 1 1]
    by (simp_all add: legs_def edge_seg_def leg_in_def edge_on_def on_seg_def)
  have "False" if "follow_line l l' i j = Some y" "i = 1" "j = 0 \<or> j = 1" for i j y
  proof -
    have "a = l \<and> b = l' \<and> i = 1 \<longrightarrow> \<not> (j = 0 \<or> j = 1)" if "follow_line a b i j = Some y" for a b i j y
      using that
    proof (rule follow_line.raw_induct [rotated])
      fix f :: "Line \<Rightarrow> Line \<Rightarrow> int \<Rightarrow> int \<Rightarrow> bool res option" and a b i j y
      assume IH: "\<And>a b i j y. f a b i j = Some y \<Longrightarrow> a = l \<and> b = l' \<and> i = 1 \<longrightarrow> \<not> (j = 0 \<or> j = 1)"
        and step: "(if i < series_NumSegments b
          then case follow_test a b j i of Inl e \<Rightarrow> Some (Inl e)
            | Inr (lineSeg, otherSeg, c) \<Rightarrow>
                if c then f a b (i + 1) j
                else if point_eq (SegA otherSeg) (SegA lineSeg)
                then if j = 0 then Some (Inr False) else f a b i (j - 1)
                else if point_eq (SegA otherSeg) (SegB lineSeg)
                then if j = series_NumSegments a - 1 then Some (Inr False) else f a b i (j + 1)
                else f a b (i + 1) j
          else Some (Inr True)) = Some y"
      show "a = l \<and> b = l' \<and> i = 1 \<longrightarrow> \<not> (j = 0 \<or> j = 1)"
        using step IH [of l l' 1 0 y] IH [of l l' 1 1 y] by (auto simp: n t point_eq_def)
    qed
    then show False using that by blast
  qed
  then show ?thesis by (cases "follow_line l l' 1 1") auto
qed

text \<open>
  C37: \<open>ContainsLine\<close> does not return for the line through (0, 0), (5, 0), (10, 0) and the line through (6, 0),
  (5, 0), (5, 5): at the corner (5, 0) it goes back to the first leg and forward to the second one without end.
\<close>

theorem line_ContainsLine_diverges:
  "\<exists>line other. NewLine (map (\<lambda>(x, y). ipoint x y) [(0, 0), (5, 0), (10, 0)]) None = Inr line \<and>
    NewLine (map (\<lambda>(x, y). ipoint x y) [(6, 0), (5, 0), (5, 5)]) None = Inr other \<and>
    line_ContainsLine (Some line) (Some other) = Inl Diverges"
proof -
  let ?pts = "[(0, 0), (5, 0), (10, 0)] :: (int \<times> int) list" and ?qts = "[(6, 0), (5, 0), (5, 5)] :: (int \<times> int) list"
  have "grid_line ?pts" "grid_line ?qts" by (simp_all add: grid_line_def)
  then obtain l l' where l: "NewLine (ipoints ?pts) None = Inr l" "line_of l ?pts"
    "NewLine (ipoints ?qts) None = Inr l'" "line_of l' ?qts" using NewLine_line_of by meson
  have n: "series_NumSegments l = 2" using line_segs(1) [OF l(2)] by simp
  have "\<not> series_Empty (Some l)" "\<not> series_Empty (Some l')"
    using l(2,4) by (auto simp: line_of_def series_Empty_def)
  moreover have "first_containing l l' [0..series_NumSegments l - 1] = Inr 1"
    using first_containing_legs [OF l(2,4), of "[0..series_NumSegments l - 1]"]
    by (simp add: n upto.simps legs_def leg_in_def edge_on_def on_seg_def del: first_containing.simps)
  ultimately have "line_ContainsLine (Some l) (Some l') = Inl Diverges"
    using follow_line_ping_pong [OF l(2,4)] by (simp add: line_ContainsLine_def)
  then show ?thesis using l(1,3) by blast
qed

text \<open>
  C38: \<open>ContainsLine\<close> returns true for the line through (0, 0), (10, 0) and the line through (1, 0), (5, 0),
  (5, 5), which leaves the first one at (5, 0): a leg that starts at neither end of the current leg is skipped.
\<close>

theorem line_ContainsLine_unsound:
  "\<exists>line other. NewLine (map (\<lambda>(x, y). ipoint x y) [(0, 0), (10, 0)]) None = Inr line \<and>
    NewLine (map (\<lambda>(x, y). ipoint x y) [(1, 0), (5, 0), (5, 5)]) None = Inr other \<and>
    line_ContainsLine (Some line) (Some other) = Inr True \<and>
    line_ContainsPoint (Some line) (ipoint 5 5) = Inr False"
proof -
  let ?pts = "[(0, 0), (10, 0)] :: (int \<times> int) list" and ?qts = "[(1, 0), (5, 0), (5, 5)] :: (int \<times> int) list"
  have "grid_line ?pts" "grid_line ?qts" by (simp_all add: grid_line_def)
  then obtain l l' where l: "NewLine (ipoints ?pts) None = Inr l" "line_of l ?pts"
    "NewLine (ipoints ?qts) None = Inr l'" "line_of l' ?qts" using NewLine_line_of by meson
  have n: "series_NumSegments l = 1" "series_NumSegments l' = 2"
    using line_segs(1) [OF l(2)] line_segs(1) [OF l(4)] by simp_all
  have "\<not> series_Empty (Some l)" "\<not> series_Empty (Some l')"
    using l(2,4) by (auto simp: line_of_def series_Empty_def)
  moreover have "first_containing l l' [0..series_NumSegments l - 1] = Inr 0"
    using first_containing_legs [OF l(2,4), of "[0..series_NumSegments l - 1]"]
    by (simp add: n upto.simps legs_def leg_in_def edge_on_def on_seg_def del: first_containing.simps)
  moreover have "follow_test l l' 0 1 = Inr (iseg 0 0 10 0, iseg 5 0 5 5, False)"
    using follow_test_legs [OF l(2,4), of 0 1]
    by (simp add: legs_def edge_seg_def leg_in_def edge_on_def on_seg_def)
  then have "follow_line l l' 1 0 = Some (Inr True)"
    using n by (simp add: follow_line.simps point_eq_def)
  ultimately have "line_ContainsLine (Some l) (Some l') = Inr True" by (simp add: line_ContainsLine_def)
  moreover have "line_ContainsPoint (Some l) (ipoint 5 5) = Inr False"
    using line_of_ContainsPoint [OF l(2), of 5 5] by (simp add: grid_def legs_def edge_on_def on_seg_def)
  ultimately show ?thesis using l(1,3) by blast
qed

end
