(* ===== verification/Nearest.thy ===== *)
theory Nearest
  imports Ring_Points
begin

text \<open>
  The nearest segment: \<open>qCompressNearbySegment\<close> walks the compressed tree with the priority queue and
  returns a segment that no other segment is nearer than, and \<open>DistanceToSeries\<close> does so with and
  without an index. The caller's two distances are parameters; all that is assumed of them is that a
  rectangle is never farther than a segment it covers.
\<close>


section \<open>Bounds without NaN\<close>

text \<open>
  The midpoint of two finite floats may overflow to an infinity, but only where both have the same
  sign, so no bound of a quad of a finite rectangle is a NaN.
\<close>

definition axis_ok :: "f64 \<Rightarrow> f64 \<Rightarrow> bool" where
  "axis_ok lo hi \<longleftrightarrow> \<not> is_nan lo \<and> \<not> is_nan hi \<and>
     (is_fin lo \<and> is_fin hi \<or> 0 < fkey lo \<and> 0 < fkey hi \<or> fkey lo < 0 \<and> fkey hi < 0)"

lemma fadd_inf:
  "is_inf x \<Longrightarrow> \<not> is_nan y \<Longrightarrow> (is_inf y \<Longrightarrow> f_neg x = f_neg y) \<Longrightarrow> x + y = x"
  "is_inf y \<Longrightarrow> is_fin x \<Longrightarrow> x + y = y"
  by (auto simp: plus_f64_def fadd_def f_class(1-3))

lemma fkey_sign: "0 < fkey x \<Longrightarrow> \<not> f_neg x" "fkey x < 0 \<Longrightarrow> f_neg x"
  by (auto simp: fkey_def split: if_splits)

lemma fhalf:
  assumes "\<not> is_nan x"
  shows "is_fin x \<Longrightarrow> is_fin (x / f_two)" "\<not> is_nan (x / f_two)"
    "is_inf x \<Longrightarrow> fkey (x / f_two) = fkey x"
proof -
  have two: "is_fin f_two" "rval f_two = 2" "fval f_two \<noteq> 0" using fint_2 by (auto simp: fint_def rval_def)
  show "is_fin (x / f_two)" if x: "is_fin x"
  proof -
    have "fkey (x / f_two) = rnd (rval x / 2)" using fdiv_fin [OF x two(1,3)] two(2) by simp
    moreover have "\<bar>rnd (rval x / 2)\<bar> \<le> \<bar>rnd (rval x)\<bar>"
    proof (cases "0 \<le> rval x")
      case True
      then show ?thesis using rnd_mono [of "rval x / 2" "rval x"] rnd_nonneg [of "rval x / 2"] by simp
    next
      case False
      then show ?thesis
        using rnd_mono [of "rval x" "rval x / 2"] rnd_nonneg [of "- (rval x / 2)"] by (simp add: rnd_uminus)
    qed
    ultimately show ?thesis using x rnd_rval [OF x] by (simp add: is_fin_key)
  qed
  have inf: "x / f_two = f_inf (f_neg x)" if "is_inf x"
    using that two(1) by (simp add: divide_f64_def fdiv_def f_class(1-3)) (simp add: f_two_def f_neg_def)
  then show "fkey (x / f_two) = fkey x" if "is_inf x"
    using that by (simp add: fkey_def [of x] is_inf_def)
  show "\<not> is_nan (x / f_two)"
    using inf \<open>is_fin x \<Longrightarrow> is_fin (x / f_two)\<close> f_class(1,4) assms by (metis f_inf_simps(1))
qed

lemma axis_mid:
  assumes "axis_ok lo hi"
  shows "axis_ok lo ((lo + hi) / f_two)" "axis_ok ((lo + hi) / f_two) hi"
proof -
  let ?s = "lo + hi" and ?m = "(lo + hi) / f_two"
  have nn: "\<not> is_nan lo" "\<not> is_nan hi" using assms by (auto simp: axis_ok_def)
  have "is_fin lo \<and> is_fin hi \<and> is_fin ?s \<or>
    is_inf ?s \<and> (0 < fkey lo \<and> 0 < fkey hi \<and> 0 < fkey ?s \<or> fkey lo < 0 \<and> fkey hi < 0 \<and> fkey ?s < 0)"
  proof (cases "is_fin lo \<and> is_fin hi")
    case True
    then have s: "\<not> is_nan ?s" "fkey ?s = rnd (rval lo + rval hi)" using fadd_fin by blast+
    have b: "fkey lo < int inf_mag" "fkey hi < int inf_mag" "- int inf_mag < fkey lo" "- int inf_mag < fkey hi"
      using True by (auto simp: is_fin_key abs_less_iff)
    have r: "rnd (rval lo) = fkey lo" "rnd (rval hi) = fkey hi" using True rnd_rval by blast+
    have z: "0 \<le> rval x \<longleftrightarrow> 0 \<le> fkey x" "rval x \<le> 0 \<longleftrightarrow> fkey x \<le> 0" for x
      using rval_le_iff [of 0 x] rval_le_iff [of x 0] fint_0 by (simp_all add: fint_def)
    show ?thesis
    proof (cases "is_fin ?s")
      case False
      then have inf: "is_inf ?s" "\<bar>fkey ?s\<bar> = int inf_mag" using f_class(4) s(1) by (auto simp: is_inf_key)
      have "0 < fkey lo \<and> 0 < fkey hi" if "fkey ?s = int inf_mag"
        using rnd_mono [of "rval lo + rval hi" "rval hi"] rnd_mono [of "rval lo + rval hi" "rval lo"]
          that s(2) b r z [of lo] z [of hi] by linarith
      moreover have "fkey lo < 0 \<and> fkey hi < 0" if "fkey ?s = - int inf_mag"
        using rnd_mono [of "rval hi" "rval lo + rval hi"] rnd_mono [of "rval lo" "rval lo + rval hi"]
          that s(2) b r z [of lo] z [of hi] by linarith
      moreover have "0 < int inf_mag" by (simp add: inf_mag_def)
      ultimately show ?thesis using inf by linarith
    qed (use True in blast)
  next
    case False
    then have sg: "0 < fkey lo \<and> 0 < fkey hi \<or> fkey lo < 0 \<and> fkey hi < 0"
      and "is_inf lo \<or> is_inf hi" using assms f_class(4) by (auto simp: axis_ok_def)
    then have "?s = lo \<and> is_inf lo \<or> ?s = hi \<and> is_inf hi"
      using nn fadd_inf fkey_sign f_class(4) by metis
    then show ?thesis using sg by auto
  qed
  then show "axis_ok lo ?m" "axis_ok ?m hi"
    using nn fhalf [of ?s] f_class(1,2) [of ?s] by (auto simp: axis_ok_def)
qed

definition bounds_ok :: "Rect \<Rightarrow> bool" where
  "bounds_ok b \<longleftrightarrow> axis_ok (X (RMin b)) (X (RMax b)) \<and> axis_ok (Y (RMin b)) (Y (RMax b))"

lemma quadBounds_ok: "bounds_ok b \<Longrightarrow> bounds_ok (quadBounds b q)"
  using axis_mid by (auto simp: bounds_ok_def quadBounds_def Let_def)

definition rect_num :: "Rect \<Rightarrow> bool" where
  "rect_num b \<longleftrightarrow> point_ok (RMin b) \<and> point_ok (RMax b)"

lemma bounds_ok_num: "bounds_ok b \<Longrightarrow> rect_num b"
  by (auto simp: bounds_ok_def axis_ok_def rect_num_def point_ok_def)


section \<open>The nearest of the items of a node\<close>

definition seg_node :: "baseSeries \<Rightarrow> (Segment \<Rightarrow> f64) \<Rightarrow> int \<Rightarrow> qnode" where
  "seg_node series dS i = \<lparr>q_dist = dS (item_seg series i), q_kind = qseg, q_pos = i,
     q_a = SegA (item_seg series i), q_b = SegB (item_seg series i)\<rparr>"

definition nearer :: "baseSeries \<Rightarrow> (Segment \<Rightarrow> f64) \<Rightarrow> int \<Rightarrow> qnode option \<Rightarrow> qnode option" where
  "nearer series dS i near =
     (if case near of None \<Rightarrow> True | Some m \<Rightarrow> dS (item_seg series i) < q_dist m
      then Some (seg_node series dS i) else near)"

lemma nearby_items_run:
  assumes "bytes_at data a (concat (map put_uvarint (deltas prev is)))"
    and "\<forall>i \<in> set is. item_ok series i" "length (bs_points series) < 2 ^ 63"
  shows "nearby_items data series dS (length is) a (word_of_int prev) near =
    Inr (fold (nearer series dS) is near, a + int (length (concat (map put_uvarint (deltas prev is)))))"
  using assms(1,2)
proof (induction "is" arbitrary: a prev near)
  case (Cons i "is")
  let ?d = "word_of_int (i - prev) :: u64" and ?a = "a + int (length (put_uvarint (word_of_int (i - prev))))"
  have b: "bytes_at data a (put_uvarint ?d)" "bytes_at data ?a (concat (map put_uvarint (deltas i is)))"
    using Cons.prems(1) by (simp_all add: bytes_at_append)
  have i: "item_ok series i" "\<forall>j \<in> set is. item_ok series j" using Cons.prems(2) by auto
  have w: "?d + word_of_int prev = word_of_int i" by (simp flip: wi_hom_add)
  show ?case
    using uv.dec_at [OF b(1)] item_okD(1) [OF i(1)] item_ok_word [OF i(1) assms(3)] Cons.IH [OF b(2) i(2)]
    by (simp add: w Let_def nearer_def seg_node_def add_ac)
qed simp

lemma fold_nearer_Some:
  assumes "\<forall>i \<in> insert k (set is). \<not> is_nan (dS (item_seg series i))"
  shows "\<exists>i \<in> insert k (set is). fold (nearer series dS) is (Some (seg_node series dS k)) = Some (seg_node series dS i) \<and>
    (\<forall>j \<in> insert k (set is). dS (item_seg series i) \<le> dS (item_seg series j))"
  using assms
proof (induction "is" arbitrary: k)
  case Nil
  then show ?case by (simp add: f64_order)
next
  case (Cons h "is")
  let ?d = "\<lambda>i. dS (item_seg series i)" and ?k = "if dS (item_seg series h) < dS (item_seg series k) then h else k"
  have nn: "\<forall>i \<in> insert h (insert k (set is)). \<not> is_nan (?d i)" using Cons.prems by auto
  obtain i where i: "i \<in> insert ?k (set is)" "\<forall>j \<in> insert ?k (set is). ?d i \<le> ?d j"
    "fold (nearer series dS) is (Some (seg_node series dS ?k)) = Some (seg_node series dS i)"
    using Cons.IH [of ?k] nn by auto
  have "?d ?k \<le> ?d h" "?d ?k \<le> ?d k" using nn by (auto simp: f64_order)
  moreover have "?d i \<le> ?d ?k" using i(2) by blast
  ultimately have "?d i \<le> ?d h" "?d i \<le> ?d k" by (auto simp: less_eq_f64_def)
  moreover have "nearer series dS h (Some (seg_node series dS k)) = Some (seg_node series dS ?k)"
    by (simp add: nearer_def seg_node_def)
  ultimately show ?case using i by (intro bexI [of _ i]) (auto split: if_splits)
qed

lemma fold_nearer:
  assumes "\<forall>i \<in> set is. \<not> is_nan (dS (item_seg series i))" "is \<noteq> []"
  shows "\<exists>i \<in> set is. fold (nearer series dS) is None = Some (seg_node series dS i) \<and>
    (\<forall>j \<in> set is. dS (item_seg series i) \<le> dS (item_seg series j))"
proof -
  obtain k ks where "is": "is = k # ks" using assms(2) by (cases "is") auto
  have "nearer series dS k None = Some (seg_node series dS k)" by (simp add: nearer_def)
  then show ?thesis using fold_nearer_Some [of k ks dS series] assms(1) by (simp add: "is")
qed

section \<open>What the queue stands for\<close>

text \<open>
  Each node of the queue comes with the subtree it stands for, if it is a rectangle. The caller's
  distances: no rectangle is farther than a segment that it covers.
\<close>

definition dist_bound :: "baseSeries \<Rightarrow> (Rect \<Rightarrow> f64) \<Rightarrow> (Segment \<Rightarrow> f64) \<Rightarrow> bool" where
  "dist_bound series dR dS \<longleftrightarrow> (\<forall>i \<in> set [0..series_NumSegments series - 1]. \<forall>b. rect_num b \<longrightarrow>
     rect_ContainsRect b (seg_Rect (item_seg series i)) \<longrightarrow> dR b \<le> dS (item_seg series i))"

definition node_at :: "u8 list \<Rightarrow> baseSeries \<Rightarrow> int \<Rightarrow> Rect \<Rightarrow> qNode \<Rightarrow> bool" where
  "node_at data series a b n \<longleftrightarrow> stree_ok series b n \<and> bytes_at data a (node_bytes n) \<and> bounds_ok b \<and>
     set_mset (tree_items n) \<subseteq> set [0..series_NumSegments series - 1] \<and> (\<exists>h. slim h n)"

definition entry_ok :: "u8 list \<Rightarrow> baseSeries \<Rightarrow> (Rect \<Rightarrow> f64) \<Rightarrow> (Segment \<Rightarrow> f64) \<Rightarrow> qnode \<times> qNode option \<Rightarrow> bool" where
  "entry_ok data series dR dS e = (case e of
     (m, None) \<Rightarrow> \<exists>i \<in> set [0..series_NumSegments series - 1]. m = seg_node series dS i
   | (m, Some n) \<Rightarrow> q_kind m = qrect \<and> node_at data series (q_pos m) (mk_rect (q_a m) (q_b m)) n \<and>
       tree_items n \<noteq> {#} \<and> q_dist m = dR (mk_rect (q_a m) (q_b m)))"

definition reaches :: "baseSeries \<Rightarrow> (Segment \<Rightarrow> f64) \<Rightarrow> qnode \<times> qNode option \<Rightarrow> int \<Rightarrow> bool" where
  "reaches series dS e i = (case e of
     (m, None) \<Rightarrow> q_dist m \<le> dS (item_seg series i) | (m, Some n) \<Rightarrow> i \<in># tree_items n)"

definition weight :: "qnode \<times> qNode option \<Rightarrow> nat" where
  "weight e = (case snd e of None \<Rightarrow> 0 | Some n \<Rightarrow> length (node_bytes n))"

lemma dist_bound_nan:
  assumes "dist_bound series dR dS" "i \<in> set [0..series_NumSegments series - 1]" "series_wf series"
  shows "\<not> is_nan (dS (item_seg series i))"
proof -
  have "rect_ok (seg_Rect (item_seg series i))"
    using wf_item_ok [OF _ assms(2)] assms(3) item_okD(3) by (simp add: series_wf_def item_rect_def)
  then have "rect_num (seg_Rect (item_seg series i))"
    "rect_ContainsRect (seg_Rect (item_seg series i)) (seg_Rect (item_seg series i))"
    by (auto simp: rect_num_def rect_ok_def point_ok_def rect_ContainsRect_def f64_order)
  then have "dR (seg_Rect (item_seg series i)) \<le> dS (item_seg series i)"
    using assms(1,2) by (auto simp: dist_bound_def)
  then show ?thesis by (simp add: less_eq_f64_def)
qed

lemma node_at_bound:
  assumes "dist_bound series dR dS" "node_at data series a b n" "i \<in># tree_items n"
  shows "dR b \<le> dS (item_seg series i)"
proof -
  have "stree_ok series b n" using assms(2) by (simp add: node_at_def)
  from tree_ok_items [OF this assms(3)] have "rect_ContainsRect b (seg_Rect (item_seg series i))"
    by (simp add: item_rect_def)
  moreover have "rect_num b" using assms(2) bounds_ok_num by (simp add: node_at_def)
  ultimately show ?thesis using assms by (auto simp: dist_bound_def node_at_def)
qed

lemma entry_least:
  assumes "dist_bound series dR dS" "entry_ok data series dR dS e" "reaches series dS e i"
  shows "q_dist (fst e) \<le> dS (item_seg series i)"
  using assms node_at_bound [OF assms(1)]
  by (cases e; cases "snd e") (auto simp: entry_ok_def reaches_def)

lemma entry_q_ok:
  assumes "dist_bound series dR dS" "entry_ok data series dR dS e" "series_wf series"
  shows "q_ok (fst e)"
proof (cases "snd e")
  case None
  then show ?thesis
    using assms dist_bound_nan [OF assms(1) _ assms(3)]
    by (cases e) (auto simp: entry_ok_def q_ok_def seg_node_def)
next
  case (Some n)
  then obtain i where "i \<in># tree_items n" using assms(2) by (cases e) (auto simp: entry_ok_def)
  then have "q_dist (fst e) \<le> dS (item_seg series i)"
    using entry_least [OF assms(1,2)] Some by (cases e) (auto simp: reaches_def)
  then show ?thesis by (simp add: q_ok_def less_eq_f64_def)
qed

section \<open>One round of the search\<close>

text \<open>\<open>grown q P q'\<close>: the queue \<open>q'\<close> has the nodes of \<open>q\<close> and those of the entries \<open>P\<close>.\<close>

definition grown :: "u8 list \<Rightarrow> baseSeries \<Rightarrow> (Rect \<Rightarrow> f64) \<Rightarrow> (Segment \<Rightarrow> f64) \<Rightarrow>
  queue \<Rightarrow> (qnode \<times> qNode option) multiset \<Rightarrow> queue \<Rightarrow> bool" where
  "grown data series dR dS q P q' \<longleftrightarrow> heap q' \<and> mset q' = mset q + image_mset fst P \<and>
     (\<forall>e \<in># P. entry_ok data series dR dS e)"

lemma grown_refl: "heap q \<Longrightarrow> grown data series dR dS q {#} q"
  by (simp add: grown_def)

lemma grown_heap: "grown data series dR dS q P q' \<Longrightarrow> heap q'"
  by (simp add: grown_def)

lemma grown_push:
  assumes "dist_bound series dR dS" "series_wf series" "heap q" "entry_ok data series dR dS (m, t)"
  shows "grown data series dR dS q {#(m, t)#} (queue_push q m)"
  using pq.push_inv [OF assms(3)] pq.push_elems [OF assms(3)] entry_q_ok [OF assms(1,4,2)] assms(4)
  by (simp add: grown_def)

lemma grown_trans:
  "grown data series dR dS q P q' \<Longrightarrow> grown data series dR dS q' P' q'' \<Longrightarrow> grown data series dR dS q (P + P') q''"
  by (auto simp: grown_def)

lemma mk_rect_collapse: "mk_rect (RMin r) (RMax r) = r"
  by (simp add: mk_rect_def)

lemma nearby_quads_run:
  assumes data: "length data < 2 ^ 63" and d: "dist_bound series dR dS" and wf: "series_wf series"
  shows "\<forall>k n. k < length quads \<longrightarrow> quads ! k = Some n \<longrightarrow> stree_ok series (quadBounds b (i + int k)) n \<Longrightarrow>
    \<forall>c. Some c \<in> set quads \<longrightarrow> tree_items c \<noteq> {#} \<and> (\<exists>h. slim h c) \<Longrightarrow>
    bytes_at data a (quads_bytes quads) \<Longrightarrow> bounds_ok b \<Longrightarrow>
    set_mset (quads_items quads) \<subseteq> set [0..series_NumSegments series - 1] \<Longrightarrow> heap q \<Longrightarrow>
    \<exists>P q'. nearby_quads data b dR [i..i + int (length quads) - 1] a q = Inr q' \<and>
      grown data series dR dS q P q' \<and> (\<forall>j \<in># quads_items quads. \<exists>e \<in># P. reaches series dS e j) \<and>
      sum_mset (image_mset weight P) \<le> length (quads_bytes quads)"
proof (induction quads arbitrary: a i q)
  case Nil
  then show ?case by (intro exI [of _ "{#}"]) (simp add: grown_refl)
next
  case (Cons c quads)
  have sub: "\<forall>c. Some c \<in> set quads \<longrightarrow> tree_items c \<noteq> {#} \<and> (\<exists>h. slim h c)"
    "set_mset (quads_items quads) \<subseteq> set [0..series_NumSegments series - 1]"
    using Cons.prems(2,5) by (auto simp: quads_items_Cons)
  note IH = Cons.IH [OF later_quads(1) [OF Cons.prems(1)] sub(1) _ Cons.prems(4) sub(2)]
  show ?case
  proof (cases c)
    case None
    let ?a = "a + int (length (put_uvarint 0))"
    have b: "bytes_at data a (put_uvarint 0)" "bytes_at data ?a (quads_bytes quads)"
      using Cons.prems(3) None by (simp_all only: quads_bytes.simps bytes_at_append)
    show ?thesis
      unfolding next_quads using IH [OF b(2) Cons.prems(6)] None uv.dec_at [OF b(1)] by fastforce
  next
    case (Some n)
    let ?w = "word_of_nat (length (node_bytes n)) :: u64" and ?b = "quadBounds b i"
    let ?a = "a + int (length (put_uvarint ?w))"
    let ?a' = "?a + int (length (node_bytes n))"
    let ?m = "\<lparr>q_dist = dR ?b, q_kind = qrect, q_pos = ?a, q_a = RMin ?b, q_b = RMax ?b\<rparr>"
    note parts = quad_parts [OF data Cons.prems(3) [unfolded Some]]
    have "stree_ok series ?b n" using later_quads(2) [OF Cons.prems(1) Some] .
    moreover have "set_mset (tree_items n) \<subseteq> set [0..series_NumSegments series - 1]" "tree_items n \<noteq> {#}" "\<exists>h. slim h n"
      using Cons.prems(2,5) Some by auto
    ultimately have "entry_ok data series dR dS (?m, Some n)"
      using parts(2) quadBounds_ok [OF Cons.prems(4)] by (simp add: entry_ok_def node_at_def mk_rect_collapse)
    note g = grown_push [OF d wf Cons.prems(6) this]
    obtain P q' where q': "nearby_quads data b dR [i + 1..i + 1 + int (length quads) - 1] ?a' (queue_push q ?m) = Inr q'"
      "grown data series dR dS (queue_push q ?m) P q'" "\<forall>j \<in># quads_items quads. \<exists>e \<in># P. reaches series dS e j"
      "sum_mset (image_mset weight P) \<le> length (quads_bytes quads)"
      using IH [OF parts(3) grown_heap [OF g]] by blast
    have "nearby_quads data b dR [i..i + int (length (c # quads)) - 1] a q = Inr q'"
      unfolding next_quads using q'(1) uv.dec_at [OF parts(1)] parts(4,5) by (simp add: Let_def)
    moreover have "\<forall>j \<in># quads_items (c # quads). \<exists>e \<in># add_mset (?m, Some n) P. reaches series dS e j"
      using q'(3) Some by (auto simp: reaches_def)
    moreover have "sum_mset (image_mset weight (add_mset (?m, Some n) P)) \<le> length (quads_bytes (c # quads))"
      using q'(4) Some by (simp add: weight_def)
    ultimately show ?thesis using grown_trans [OF g q'(2)] by (intro exI [of _ "add_mset (?m, Some n) P"]) auto
  qed
qed

text \<open>The nearest of the node's own items enters the queue, if there is one.\<close>

lemma nearest_item_pushed:
  assumes d: "dist_bound series dR dS" and wf: "series_wf series" and "heap q"
    and items: "set items \<subseteq> set [0..series_NumSegments series - 1]"
  shows "\<exists>P. grown data series dR dS q P
      (case fold (nearer series dS) items None of None \<Rightarrow> q | Some m \<Rightarrow> queue_push q m) \<and>
    (\<forall>j \<in> set items. \<exists>e \<in># P. reaches series dS e j) \<and> sum_mset (image_mset weight P) = 0"
proof (cases "items = []")
  case True
  then show ?thesis using grown_refl [OF assms(3)] by (intro exI [of _ "{#}"]) simp
next
  case False
  have "\<forall>i \<in> set items. \<not> is_nan (dS (item_seg series i))" using dist_bound_nan [OF d _ wf] items by blast
  from fold_nearer [OF this False] obtain i where i: "i \<in> set items"
    "fold (nearer series dS) items None = Some (seg_node series dS i)"
    "\<forall>j \<in> set items. dS (item_seg series i) \<le> dS (item_seg series j)" by blast
  have "entry_ok data series dR dS (seg_node series dS i, None)" using i(1) items by (auto simp: entry_ok_def)
  from grown_push [OF d wf assms(3) this] show ?thesis
    using i by (intro exI [of _ "{#(seg_node series dS i, None)#}"])
      (auto simp: reaches_def weight_def seg_node_def)
qed

text \<open>What follows the items in the bytes of a node: its quads, or the mark that there are none.\<close>

lemma nearby_rest_run:
  assumes data: "length data < 2 ^ 63" and d: "dist_bound series dR dS" and wf: "series_wf series"
    and n: "node_at data series a0 b (QNode split items quads)" and "heap q"
    and rest: "bytes_at data a (if split then 1 # quads_bytes quads else [0])"
  shows "\<exists>P q'. rbind (index_at data a) (\<lambda>b'.
      if b' = 1 then nearby_quads data b dR [0, 1, 2, 3] (a + 1) q else Inr q) = Inr q' \<and>
    grown data series dR dS q P q' \<and> (\<forall>j \<in># quads_items quads. \<exists>e \<in># P. reaches series dS e j) \<and>
    sum_mset (image_mset weight P) \<le> (if split then length (quads_bytes quads) else 0)"
proof (cases split)
  case True
  have b: "bytes_at data a [1]" "bytes_at data (a + 1) (quads_bytes quads)"
    using rest True bytes_at_append [of data a "[1]" "quads_bytes quads"] by simp_all
  have ok: "\<forall>k n. k < length quads \<longrightarrow> quads ! k = Some n \<longrightarrow> stree_ok series (quadBounds b (0 + int k)) n"
    "length quads = 4" "\<forall>c. Some c \<in> set quads \<longrightarrow> tree_items c \<noteq> {#} \<and> (\<exists>h. slim h c)"
    "set_mset (quads_items quads) \<subseteq> set [0..series_NumSegments series - 1]" "bounds_ok b"
    using n by (auto simp: node_at_def tree_ok_simp quads_ok_def slim_simp)
  show ?thesis
    using nearby_quads_run [OF data d wf ok(1,3) b(2) ok(5,4) assms(5)] True
    unfolding four_quads [OF ok(2)] index_at_bytes [OF b(1)] rbind_simps by simp
next
  case False
  have "quads_items quads = {#}" using n False by (auto simp: node_at_def tree_ok_simp quads_ok_def)
  moreover have "index_at data a = Inr 0" using rest False by (intro index_at_bytes) simp
  ultimately show ?thesis using False grown_refl [OF assms(5)] by (intro exI [of _ "{#}"]) simp
qed

lemma nearby_visit_run:
  assumes data: "length data < 2 ^ 63" and d: "dist_bound series dR dS" and wf: "series_wf series"
    and n: "node_at data series a b n" and "heap q"
  shows "\<exists>P q'. nearby_visit data series dR dS a b q = Inr q' \<and> grown data series dR dS q P q' \<and>
    (\<forall>j \<in># tree_items n. \<exists>e \<in># P. reaches series dS e j) \<and>
    sum_mset (image_mset weight P) < length (node_bytes n)"
proof -
  obtain split items quads where nq: "n = QNode split items quads" by (cases n)
  let ?len = "put_uvarint (word_of_nat (length items))"
  let ?items = "concat (map put_uvarint (deltas 0 (sort items)))"
  let ?a1 = "a + int (length ?len)" and ?a2 = "a + int (length ?len) + int (length ?items)"
  have "bytes_at data a (?len @ ?items @ (if split then 1 # quads_bytes quads else [0]))"
    using n by (simp add: node_at_def nq)
  note parts = node_parts [OF data this]
  have ok: "\<forall>i \<in> set (sort items). item_ok series i" "length (bs_points series) < 2 ^ 63"
    "set (sort items) \<subseteq> set [0..series_NumSegments series - 1]"
    using n wf by (auto simp: node_at_def nq tree_ok_simp series_wf_def)
  let ?q = "case fold (nearer series dS) (sort items) None of None \<Rightarrow> q | Some m \<Rightarrow> queue_push q m"
  obtain P where P: "grown data series dR dS q P ?q" "\<forall>j \<in> set (sort items). \<exists>e \<in># P. reaches series dS e j"
    "sum_mset (image_mset weight P) = 0"
    using nearest_item_pushed [OF d wf assms(5) ok(3)] by blast
  have start: "nearby_visit data series dR dS a b q = rbind (index_at data ?a2) (\<lambda>b'.
      if b' = 1 then nearby_quads data b dR [0, 1, 2, 3] (?a2 + 1) ?q else Inr ?q)"
    unfolding nearby_visit_def uv.dec_at [OF parts(1)] rbind_simps prod.case parts(4)
    using nearby_items_run [OF parts(2) ok(1,2), of dS None] by (simp add: Let_def)
  obtain P' q' where q': "nearby_visit data series dR dS a b q = Inr q'" "grown data series dR dS ?q P' q'"
    "\<forall>j \<in># quads_items quads. \<exists>e \<in># P'. reaches series dS e j"
    "sum_mset (image_mset weight P') \<le> (if split then length (quads_bytes quads) else 0)"
    using nearby_rest_run [OF data d wf n [unfolded nq] grown_heap [OF P(1)] parts(3)] unfolding start by blast
  have "sum_mset (image_mset weight (P + P')) < length (node_bytes n)"
    unfolding image_mset_union sum_mset.union P(3) nq using q'(4)
    by (cases split) (simp_all del: sum_mset_0_iff)
  moreover have "\<forall>j \<in># tree_items n. \<exists>e \<in># P + P'. reaches series dS e j"
    using P(2) q'(3) by (auto simp: nq)
  ultimately show ?thesis using q'(1) grown_trans [OF P(1) q'(2)] by blast
qed

section \<open>The whole search\<close>

text \<open>
  Every round replaces a subtree by smaller ones and loses no segment, and a segment at the front of
  the queue is at least as near as anything behind it. So the loop ends, with a nearest segment.
\<close>

abbreviation segs :: "baseSeries \<Rightarrow> int set" where
  "segs series \<equiv> set [0..series_NumSegments series - 1]"

definition pending :: "u8 list \<Rightarrow> baseSeries \<Rightarrow> (Rect \<Rightarrow> f64) \<Rightarrow> (Segment \<Rightarrow> f64) \<Rightarrow>
  (qnode \<times> qNode option) multiset \<Rightarrow> queue \<Rightarrow> bool" where
  "pending data series dR dS P q \<longleftrightarrow> heap q \<and> mset q = image_mset fst P \<and> (\<forall>e \<in># P. entry_ok data series dR dS e)"

lemma pending_visit:
  "pending data series dR dS P q \<Longrightarrow> grown data series dR dS q P' q' \<Longrightarrow> pending data series dR dS (P + P') q'"
  by (auto simp: pending_def grown_def)

lemma pending_pop:
  assumes "pending data series dR dS P q" "queue_pop q = (q', Some m)"
  obtains t P' where "P = add_mset (m, t) P'" "pending data series dR dS P' q'"
proof -
  have h: "heap q" using assms(1) by (simp add: pending_def)
  have m: "image_mset fst P = add_mset m (mset q')"
    using pq.pop_elems [OF h assms(2)] assms(1) by (simp add: pending_def)
  then obtain e P' where e: "P = add_mset e P'" "m = fst e" "mset q' = image_mset fst P'"
    by (metis msed_map_invR)
  then show thesis
    using that [of "snd e" P'] pq.pop_inv [OF h assms(2)] assms(1) by (auto simp: pending_def)
qed

lemma pending_front:
  assumes d: "dist_bound series dR dS" and p: "pending data series dR dS P q" and "queue_pop q = (q', Some m)"
    and "\<exists>e \<in># P. reaches series dS e j"
  shows "q_dist m \<le> dS (item_seg series j)"
proof -
  obtain e where e: "e \<in># P" "reaches series dS e j" using assms(4) by blast
  have h: "heap q" "fst e \<in># mset q" "m \<in># mset q" using p e(1) pq.pop_member [OF _ assms(3)] by (auto simp: pending_def)
  then have "q_ok m" by (auto simp: heap_def)
  have "q_key m \<le> q_key (fst e)" using pq.pop_least_all [OF h(1) assms(3) h(2)] .
  then have "fkey (q_dist m) \<le> fkey (q_dist (fst e))" by (auto simp: q_key_def less_eq_prod_def)
  moreover have "q_dist (fst e) \<le> dS (item_seg series j)"
    using entry_least [OF d _ e(2)] p e(1) by (auto simp: pending_def)
  ultimately show ?thesis using \<open>q_ok m\<close> by (simp add: less_eq_f64_def q_ok_def)
qed

lemma nearby_loop_run:
  assumes data: "length data < 2 ^ 63" and d: "dist_bound series dR dS" and wf: "series_wf series"
    and ne: "segs series \<noteq> {}"
  shows "node_at data series a b n \<Longrightarrow> pending data series dR dS P q \<Longrightarrow>
    \<forall>j \<in> segs series. j \<in># tree_items n \<or> (\<exists>e \<in># P. reaches series dS e j) \<Longrightarrow>
    \<exists>i \<in> segs series. nearby_loop data series dR dS a b q =
        Some (Inr (item_seg series i, i, dS (item_seg series i))) \<and>
      (\<forall>j \<in> segs series. dS (item_seg series i) \<le> dS (item_seg series j))"
proof (induction "length (node_bytes n) + sum_mset (image_mset weight P)" arbitrary: a b n P q rule: less_induct)
  case less
  have "heap q" using less.prems(2) by (simp add: pending_def)
  then obtain P1 q1 where v: "nearby_visit data series dR dS a b q = Inr q1" "grown data series dR dS q P1 q1"
    "\<forall>j \<in># tree_items n. \<exists>e \<in># P1. reaches series dS e j" "sum_mset (image_mset weight P1) < length (node_bytes n)"
    using nearby_visit_run [OF data d wf less.prems(1)] by blast
  have p1: "pending data series dR dS (P + P1) q1" using pending_visit [OF less.prems(2) v(2)] .
  have cov: "\<forall>j \<in> segs series. \<exists>e \<in># P + P1. reaches series dS e j" using less.prems(3) v(3) by fastforce
  then have "P + P1 \<noteq> {#}" using ne by fastforce
  then have "mset q1 \<noteq> {#}" using p1 by (auto simp: pending_def)
  then obtain q2 m where pop: "queue_pop q1 = (q2, Some m)"
    using queue_pop_empty [of q1] by (metis mset.simps(1) not_Some_eq surj_pair)
  obtain t P2 where t: "P + P1 = add_mset (m, t) P2" "pending data series dR dS P2 q2"
    using pending_pop [OF p1 pop] .
  have e: "entry_ok data series dR dS (m, t)" using p1 t(1) by (auto simp: pending_def)
  show ?case
  proof (cases t)
    case None
    then obtain i where i: "i \<in> segs series" "m = seg_node series dS i" using e by (auto simp: entry_ok_def)
    have "nearby_loop data series dR dS a b q = Some (Inr (item_seg series i, i, dS (item_seg series i)))"
      unfolding nearby_loop.simps [of data series dR dS a b q] v(1) using pop
      by (simp add: i(2) seg_node_def mk_segment_def)
    moreover have "\<forall>j \<in> segs series. dS (item_seg series i) \<le> dS (item_seg series j)"
      using pending_front [OF d p1 pop] cov i(2) by (simp add: seg_node_def)
    ultimately show ?thesis using i(1) by blast
  next
    case (Some n')
    let ?b = "mk_rect (q_a m) (q_b m)"
    have m: "q_kind m = qrect" "node_at data series (q_pos m) ?b n'" using e Some by (auto simp: entry_ok_def)
    have "sum_mset (image_mset weight (P + P1)) = length (node_bytes n') + sum_mset (image_mset weight P2)"
      unfolding t(1) Some by (simp add: weight_def)
    then have "length (node_bytes n') + sum_mset (image_mset weight P2) < length (node_bytes n) + sum_mset (image_mset weight P)"
      using v(4) by simp
    moreover have "\<forall>j \<in> segs series. j \<in># tree_items n' \<or> (\<exists>e \<in># P2. reaches series dS e j)"
      using cov unfolding t(1) Some by (auto simp: reaches_def)
    ultimately obtain i where "i \<in> segs series"
      "nearby_loop data series dR dS (q_pos m) ?b q2 = Some (Inr (item_seg series i, i, dS (item_seg series i)))"
      "\<forall>j \<in> segs series. dS (item_seg series i) \<le> dS (item_seg series j)"
      using less.hyps [OF _ m(2) t(2)] by blast
    then show ?thesis
      using v(1) pop m(1) by (subst nearby_loop.simps) auto
  qed
qed


section \<open>Distances to a series\<close>

lemma nearest_loop_run:
  assumes "s_ok series" "\<forall>j \<in> set js. j \<in> set [0..sNumSegments series - 1] \<and> j \<noteq> 0 \<and> \<not> is_nan (dS (s_seg series j))"
    and "k \<in> set [0..sNumSegments series - 1]" "\<not> is_nan (dS (s_seg series k))"
  shows "\<exists>i \<in> insert k (set js). nearest_loop series dS js (s_seg series k, dS (s_seg series k)) =
      Inr (s_seg series i, dS (s_seg series i)) \<and>
    (\<forall>j \<in> insert k (set js). dS (s_seg series i) \<le> dS (s_seg series j))"
  using assms(2-)
proof (induction js arbitrary: k)
  case Nil
  then show ?case by (simp add: f64_order)
next
  case (Cons h js)
  let ?d = "\<lambda>i. dS (s_seg series i)" and ?k = "if dS (s_seg series h) < dS (s_seg series k) then h else k"
  have h: "sSegmentAt series h = Inr (s_seg series h)" using s_ok_SegmentAt [OF assms(1)] Cons.prems(1) by simp
  obtain i where i: "i \<in> insert ?k (set js)" "\<forall>j \<in> insert ?k (set js). ?d i \<le> ?d j"
    "nearest_loop series dS js (s_seg series ?k, ?d ?k) = Inr (s_seg series i, ?d i)"
  proof -
    have "\<forall>j \<in> set js. j \<in> set [0..sNumSegments series - 1] \<and> j \<noteq> 0 \<and> \<not> is_nan (?d j)"
      "?k \<in> set [0..sNumSegments series - 1]" "\<not> is_nan (?d ?k)" using Cons.prems by auto
    from Cons.IH [OF this] show thesis using that by blast
  qed
  have "?d ?k \<le> ?d h" "?d ?k \<le> ?d k" using Cons.prems by (auto simp: f64_order)
  moreover have "?d i \<le> ?d ?k" using i(2) by blast
  ultimately have "?d i \<le> ?d h" "?d i \<le> ?d k" by (auto simp: less_eq_f64_def)
  moreover have "nearest_loop series dS (h # js) (s_seg series k, ?d k) = nearest_loop series dS js (s_seg series ?k, ?d ?k)"
    using h Cons.prems(1) by (simp add: Let_def)
  ultimately show ?case using i by (intro bexI [of _ i]) (auto split: if_splits)
qed

lemma nearest_linear:
  assumes "s_ok series" "0 < sNumSegments series" "\<forall>j \<in> set [0..sNumSegments series - 1]. \<not> is_nan (dS (s_seg series j))"
  shows "\<exists>i \<in> set [0..sNumSegments series - 1]. nearest_loop series dS [0..sNumSegments series - 1] st =
      Inr (s_seg series i, dS (s_seg series i)) \<and>
    (\<forall>j \<in> set [0..sNumSegments series - 1]. dS (s_seg series i) \<le> dS (s_seg series j))"
proof -
  let ?js = "[1..sNumSegments series - 1]"
  have up: "[0..sNumSegments series - 1] = 0 # ?js" using assms(2) by (simp add: upto_rec1)
  have js: "\<forall>j \<in> set ?js. j \<in> set [0..sNumSegments series - 1] \<and> j \<noteq> 0 \<and> \<not> is_nan (dS (s_seg series j))"
    "0 \<in> set [0..sNumSegments series - 1]" "\<not> is_nan (dS (s_seg series 0))" using assms(2,3) by auto
  have "nearest_loop series dS (0 # ?js) st = nearest_loop series dS ?js (s_seg series 0, dS (s_seg series 0))"
    using s_ok_SegmentAt [OF assms(1) js(2)] by (cases st) (simp add: Let_def)
  moreover have "insert 0 (set ?js) = set [0..sNumSegments series - 1]" unfolding up by simp
  ultimately show ?thesis using nearest_loop_run [OF assms(1) js] by (simp only: up)
qed

lemma nearby_index:
  assumes s: "searchable base" "bounds_ok (bs_rect base)" "dist_bound base dR dS" "0 < series_NumSegments base"
    and data: "bs_index base = Some data"
  shows "\<exists>i \<in> segs base. DistanceToSeries (BaseSeries base) dR dS = Inr (item_seg base i, i, dS (item_seg base i)) \<and>
    (\<forall>j \<in> segs base. dS (item_seg base i) \<le> dS (item_seg base j))"
proof -
  have wf: "series_wf base" "index_ok base" "length data < 2 ^ 32"
    using s(1) data by (auto simp: searchable_def series_Index_def)
  obtain n where n: "stree_ok base (bs_rect base) n" "slim qMaxDepth n" "tree_items n = mset [0..series_NumSegments base - 1]"
    "uint32_at1 data = Inr (word_of_nat (length data))" "bytes_at data 5 (node_bytes n)"
    "length data = 5 + length (node_bytes n)" using wf(2) data by (auto simp: index_ok_def)
  have u: "unat (word_of_nat (length data) :: u32) = length data"
    using wf(3) by (simp add: unat_word_of_nat_small)
  have "node_at data base 5 (bs_rect base) n"
    using n s(2) by (auto simp: node_at_def)
  moreover have "pending data base dR dS {#} []" using pq.emp by (simp add: pending_def)
  moreover have "segs base \<noteq> {}" using s(4) by auto
  moreover have "length data < 2 ^ 63" using wf(3) by simp
  ultimately obtain i where "i \<in> segs base"
    "nearby_loop data base dR dS 5 (bs_rect base) [] = Some (Inr (item_seg base i, i, dS (item_seg base i)))"
    "\<forall>j \<in> segs base. dS (item_seg base i) \<le> dS (item_seg base j)"
    using nearby_loop_run [OF _ s(3) wf(1), of data] n(3) by (metis set_mset_mset)
  moreover have "data \<noteq> []" using n(6) by auto
  ultimately show ?thesis
    using n(4) u data
    by (intro bexI [of _ i]) (auto simp: DistanceToSeries_def Let_def series_Index_def slice_to_def qCompressNearbySegment_def)
qed


definition rect_fin_corners :: "Rect \<Rightarrow> bool" where
  "rect_fin_corners r \<longleftrightarrow> point_fin (RMin r) \<and> point_fin (RMax r)"

lemma fin_rect:
  assumes "\<forall>p \<in> set (bs_points series). point_fin p"
    and "bs_rect series = fst (snd (processPoints (bs_points series) (bs_closed series)))"
  shows "rect_fin_corners (bs_rect series)"
proof (cases "(bs_closed series \<and> length (bs_points series) < 3) \<or> length (bs_points series) < 2")
  case True
  then show ?thesis using assms(2) by (simp add: processPoints_def rect_fin_corners_def point_fin_def zero_rect_def zero_point_def)
next
  case False
  define big where "big = f_mk False (inf_mag - 1)"
  have big: "is_fin big" "fkey big = int inf_mag - 1" "\<not> is_nan big"
    using inf_mag_bound by (auto simp: big_def is_fin_def is_nan_def fkey_f_mk inf_mag_def)
  let ?t = "mk_rect (mk_point (- big) (- big)) (mk_point big big)"
  have in_t: "rect_ContainsPoint ?t p" if "point_fin p" for p
    using that big f_class(1) by (auto simp: rect_ContainsPoint_def point_fin_def less_eq_f64_def is_fin_key)
  have t: "rect_ok ?t" using big by (auto simp: rect_ok_def less_eq_f64_def inf_mag_def)
  have ok: "\<forall>p \<in> set (bs_points series). point_ok p" using assms(1) point_fin_ok by blast
  note box = processPoints_rect_ok [OF ok False, folded assms(2)]
  then have r: "rect_ok (bs_rect series)" "rect_ContainsRect ?t (bs_rect series)"
    using in_t assms(1) t by blast+
  have fin: "is_fin x" if "\<not> is_nan x" "\<not> x < - big" "\<not> big < x" for x
    using that big by (auto simp: less_f64_def is_fin_key)
  have nn: "\<not> is_nan (X (RMin (bs_rect series)))" "\<not> is_nan (Y (RMin (bs_rect series)))"
    "\<not> is_nan (X (RMax (bs_rect series)))" "\<not> is_nan (Y (RMax (bs_rect series)))"
    and le: "X (RMin (bs_rect series)) \<le> X (RMax (bs_rect series))" "Y (RMin (bs_rect series)) \<le> Y (RMax (bs_rect series))"
    using r(1) by (auto simp: rect_ok_def less_eq_f64_def)
  have c: "\<not> X (RMin (bs_rect series)) < - big" "\<not> Y (RMin (bs_rect series)) < - big"
    "\<not> big < X (RMax (bs_rect series))" "\<not> big < Y (RMax (bs_rect series))"
    using r(2) by (auto simp: rect_ContainsRect_def split: if_splits)
  have tr: "\<not> y < - big" "\<not> big < x" if "x \<le> y" "\<not> x < - big" "\<not> big < y" for x y
    using that big(3) by (auto simp: f64_order)
  have "is_fin (X (RMin (bs_rect series)))" "is_fin (Y (RMin (bs_rect series)))"
    "is_fin (X (RMax (bs_rect series)))" "is_fin (Y (RMax (bs_rect series)))"
    using fin nn c tr [OF le(1) c(1,3)] tr [OF le(2) c(2,4)] by blast+
  then show ?thesis by (simp add: rect_fin_corners_def point_fin_def)
qed

lemma fin_corners_bounds: "rect_fin_corners r \<Longrightarrow> bounds_ok r"
  using f_class(1) by (auto simp: rect_fin_corners_def point_fin_def bounds_ok_def axis_ok_def)

lemma makeSeries_fin:
  assumes "\<forall>p \<in> set points. point_fin p" "length points \<le> 2 ^ 20"
    and "makeSeries points copyPoints is_closed opts = Inr series"
  shows "searchable series" "rect_fin_corners (bs_rect series)" "bs_points series = points"
proof -
  have ok: "\<forall>p \<in> set points. point_ok p" "length points < 2 ^ 63" using assms(1,2) point_fin_ok by auto
  have s: "bs_points series = points" "bs_closed series = is_closed"
    "(bs_convex series, bs_rect series, bs_clockwise series) = processPoints points is_closed"
    "series_wf series" "index_ok series"
    using makeSeries_ok [OF ok, of copyPoints is_closed opts] assms(3) by auto
  show "bs_points series = points" by (rule s(1))
  show "searchable series" using searchable_small [OF s(4,5)] s(1) assms(2) by simp
  have "bs_rect series = fst (snd (processPoints (bs_points series) (bs_closed series)))"
    unfolding s(1,2) s(3) [symmetric] by simp
  then show "rect_fin_corners (bs_rect series)" using fin_rect [of series] assms(1) unfolding s(1) by blast
qed

lemma segs_nonempty: "0 < series_NumSegments series \<longleftrightarrow> segs series \<noteq> {}"
  by simp

lemma DistanceToSeries_linear:
  assumes "searchable base" "bs_index base = None" "0 < series_NumSegments base"
    and "\<forall>j \<in> segs base. \<not> is_nan (dS (item_seg base j))"
  shows "\<exists>i \<in> segs base. DistanceToSeries (BaseSeries base) dR dS = Inr (item_seg base i, 0, dS (item_seg base i)) \<and>
    (\<forall>j \<in> segs base. dS (item_seg base i) \<le> dS (item_seg base j))"
  using nearest_linear [of "BaseSeries base" dS "(zero_segment, f_nan)"] assms
  by (auto simp: DistanceToSeries_def Let_def series_Index_def)

text \<open>
  C4: \<open>DistanceToSeries\<close> finds a nearest segment. For a series of finite points, and distances by
  which no rectangle is farther than a segment it covers, the search returns a segment of the
  series and its distance, and no other segment is nearer. With an index the search through the
  queue also returns the position of the segment; without one the position is always 0.
\<close>

theorem DistanceToSeries_nearest:
  assumes "\<forall>p \<in> set points. point_fin p" "length points \<le> 2 ^ 20"
    and "makeSeries points copyPoints is_closed opts = Inr series" "0 < series_NumSegments series"
    and "dist_bound series distToRect distToSegment"
  shows "\<exists>i. 0 \<le> i \<and> i < series_NumSegments series \<and>
    DistanceToSeries (BaseSeries series) distToRect distToSegment =
      Inr (item_seg series i, if series_Index series = [] then 0 else i, distToSegment (item_seg series i)) \<and>
    (\<forall>j. 0 \<le> j \<and> j < series_NumSegments series \<longrightarrow>
      distToSegment (item_seg series i) \<le> distToSegment (item_seg series j))"
proof -
  note s = makeSeries_fin [OF assms(1-3)]
  have wf: "series_wf series" "index_ok series" using s(1) by (auto simp: searchable_def)
  have nn: "\<forall>j \<in> segs series. \<not> is_nan (distToSegment (item_seg series j))"
    using dist_bound_nan [OF assms(5) _ wf(1)] by blast
  show ?thesis
  proof (cases "bs_index series")
    case None
    then show ?thesis
      using DistanceToSeries_linear [OF s(1) None assms(4) nn, of distToRect] by (auto simp: series_Index_def)
  next
    case (Some data)
    then have "series_Index series \<noteq> []" using index_ok_nonempty [OF wf(2)] by (simp add: series_Index_def)
    then show ?thesis using nearby_index [OF s(1) fin_corners_bounds [OF s(2)] assms(5,4) Some] by auto
  qed
qed

text \<open>A pair of distances for the witness: how far right the left side and the first end are.\<close>

lemma dist_bound_left:
  assumes "series_wf series"
  shows "dist_bound series (\<lambda>b. X (RMin b)) (\<lambda>s. X (SegA s))"
  unfolding dist_bound_def
proof (intro ballI allI impI)
  fix i b
  assume i: "i \<in> segs series" and b: "rect_num b" "rect_ContainsRect b (seg_Rect (item_seg series i))"
  let ?s = "item_seg series i"
  have ok: "seg_ok ?s" using wf_item_ok [OF _ i] assms item_okD(2) by (simp add: series_wf_def)
  then have "X (RMin (seg_Rect ?s)) \<le> X (SegA ?s)" by (auto simp: seg_Rect_sel seg_ok_def point_ok_def f64_order)
  moreover have "\<not> X (RMin (seg_Rect ?s)) < X (RMin b)" using b(2) by (auto simp: rect_ContainsRect_def split: if_splits)
  ultimately show "X (RMin b) \<le> X (SegA ?s)" using b(1) by (auto simp: rect_num_def point_ok_def f64_order)
qed

theorem DistanceToSeries_nearest_witness:
  "\<exists>series idx. makeSeries [ipoint 3 1, ipoint 0 0, ipoint 4 4] True False
       (Some \<lparr>Kind = KindQuadTree, MinPoints = 1\<rparr>) = Inr series \<and>
     DistanceToSeries (BaseSeries series) (\<lambda>b. X (RMin b)) (\<lambda>s. X (SegA s)) = Inr (iseg 0 0 4 4, idx, f_of_int 0)"
proof -
  let ?pts = "[ipoint 3 1, ipoint 0 0, ipoint 4 4]" and ?o = "Some \<lparr>Kind = KindQuadTree, MinPoints = 1\<rparr>"
  have ok: "\<forall>p \<in> set ?pts. point_fin p" "length ?pts \<le> 2 ^ 20" by (auto simp: point_fin_def)
  have ok': "\<forall>p \<in> set ?pts. point_ok p" "length ?pts < 2 ^ 63" using ok(1) point_fin_ok by auto
  obtain s where s: "makeSeries ?pts True False ?o = Inr s" "bs_points s = ?pts" "\<not> bs_closed s" "series_wf s"
    using makeSeries_ok [OF ok', of True False ?o] by auto
  have n: "series_NumSegments s = 2" using s(2,3) by (simp add: series_NumSegments_def Let_def)
  have seg: "item_seg s 0 = iseg 3 1 0 0" "item_seg s 1 = iseg 0 0 4 4"
    using s(2) by (simp_all add: item_seg_def series_SegmentAt_def index_at_def iseg_def)
  obtain i where i: "0 \<le> i" "i < 2" "X (SegA (item_seg s i)) \<le> X (SegA (item_seg s 1))"
    "DistanceToSeries (BaseSeries s) (\<lambda>b. X (RMin b)) (\<lambda>s. X (SegA s)) =
      Inr (item_seg s i, if series_Index s = [] then 0 else i, X (SegA (item_seg s i)))"
    using DistanceToSeries_nearest [OF ok s(1) _ dist_bound_left [OF s(4)]] n by auto
  have "i = 0 \<or> i = 1" using i(1,2) by auto
  then have "i = 1" using i(3) seg by auto
  then show ?thesis using i(4) seg s(1) by auto
qed

lemma no_entries:
  assumes "entry_ok data series dR dS e"
  shows "segs series \<noteq> {}"
proof (cases "snd e")
  case (Some n)
  then have "tree_items n \<noteq> {#}" "set_mset (tree_items n) \<subseteq> segs series"
    using assms by (cases e; auto simp: entry_ok_def node_at_def)+
  then show ?thesis by (metis set_mset_eq_empty_iff subset_empty)
qed (use assms in \<open>cases e; auto simp: entry_ok_def\<close>)

text \<open>
  For a series without segments \<open>DistanceToSeries\<close> returns the distance NaN, whatever the distances:
  at position -1 if there is an index and 0 otherwise.
\<close>

lemma DistanceToSeries_empty:
  assumes "\<forall>p \<in> set points. point_fin p" "length points \<le> 2 ^ 20"
    and "makeSeries points copyPoints is_closed opts = Inr series" "series_NumSegments series = 0"
  shows "DistanceToSeries (BaseSeries series) distToRect distToSegment =
    Inr (zero_segment, if series_Index series = [] then 0 else - 1, f_nan)"
proof (cases "bs_index series")
  case None
  then show ?thesis using assms(4) by (simp add: DistanceToSeries_def series_Index_def)
next
  case (Some data)
  note s = makeSeries_fin [OF assms(1-3)]
  have wf: "series_wf series" "index_ok series" "length data < 2 ^ 32"
    using s(1) Some by (auto simp: searchable_def series_Index_def)
  obtain n where n: "stree_ok series (bs_rect series) n" "slim qMaxDepth n" "tree_items n = mset [0..series_NumSegments series - 1]"
    "uint32_at1 data = Inr (word_of_nat (length data))" "bytes_at data 5 (node_bytes n)"
    "length data = 5 + length (node_bytes n)" using wf(2) Some by (auto simp: index_ok_def)
  have u: "unat (word_of_nat (length data) :: u32) = length data"
    using wf(3) by (simp add: unat_word_of_nat_small)
  have d: "dist_bound series distToRect distToSegment" using assms(4) by (simp add: dist_bound_def)
  have "node_at data series 5 (bs_rect series) n" using n fin_corners_bounds [OF s(2)] by (auto simp: node_at_def)
  then obtain P q where q: "nearby_visit data series distToRect distToSegment 5 (bs_rect series) [] = Inr q"
    "grown data series distToRect distToSegment [] P q"
    using nearby_visit_run [OF _ d wf(1), of data 5 "bs_rect series" n "[]"] wf(3) pq.emp(1) by auto
  have "P = {#}"
  proof (rule ccontr)
    assume "P \<noteq> {#}"
    then obtain e where "e \<in># P" by blast
    then show False using no_entries [of data series _ _ e] q(2) assms(4) by (auto simp: grown_def)
  qed
  then have "q = []" using q(2) by (simp add: grown_def)
  then have "nearby_loop data series distToRect distToSegment 5 (bs_rect series) [] = Some (Inr (zero_segment, - 1, f_nan))"
    using q(1) by (subst nearby_loop.simps) (simp add: queue_pop_def)
  moreover have "data \<noteq> []" using n(6) by auto
  ultimately show ?thesis
    using n(4) u Some by (auto simp: DistanceToSeries_def Let_def series_Index_def slice_to_def qCompressNearbySegment_def)
qed

end
