(* ===== verification/Safety.thy ===== *)
theory Safety
  imports Lines Nearest
begin

text \<open>
  Every predicate of every kind of shape returns: for shapes with finite ordinates nothing is out of
  range and no loop runs for ever, except in \<open>Line.ContainsLine\<close>. The rules for computations that
  return are collected in \<open>returns_intro\<close>; searches with a callback are covered by the contract of
  \<open>Search\<close>.
\<close>


section \<open>Searches that return\<close>

context segment_search
begin

lemma search_returns:
  assumes "wf r" "\<And>i s. i \<in> set [0..num r - 1] \<Longrightarrow> returns (iter (seg r i) i s)"
  shows "returns (search r t iter s)"
proof -
  obtain "is" where m: "mset is = mset (filter (\<lambda>i. rect_IntersectsRect (seg_Rect (seg r i)) t) [0..num r - 1])"
    and s: "search r t iter s = rbind (run_iter iter (map (\<lambda>i. (seg r i, i)) is) s) (\<lambda>(_, s). Inr s)"
    using search_hits [OF assms(1)] by blast
  have "set is \<subseteq> set [0..num r - 1]" using m by (metis filter_is_subset set_mset_mset)
  then have "returns (run_iter iter (map (\<lambda>i. (seg r i, i)) is) s)" for s
    using assms(2) by (induction "is" arbitrary: s) (auto intro!: returns_intro)
  then show ?thesis unfolding s by (auto intro!: returns_intro)
qed

end

section \<open>Segments\<close>

definition seg_fin :: "Segment \<Rightarrow> bool" where
  "seg_fin seg \<longleftrightarrow> is_fin (Y (SegA seg)) \<and> is_fin (Y (SegB seg))"

lemma returns_Raycast [returns_intro]: "seg_fin seg \<Longrightarrow> returns (seg_Raycast seg p)"
  using seg_Raycast_total [of seg p] by (auto simp: returns_def seg_fin_def)

lemma returns_IntersectsSegment [returns_intro]: "seg_fin seg \<Longrightarrow> returns (seg_IntersectsSegment seg other)"
  unfolding seg_IntersectsSegment_def Let_def by (intro returns_intro)

lemma returns_ContainsSegment [returns_intro]: "seg_fin seg \<Longrightarrow> returns (seg_ContainsSegment seg other)"
  unfolding seg_ContainsSegment_def by (intro returns_intro)

lemma returns_off_segment [returns_intro]: "seg_fin seg \<Longrightarrow> returns (off_segment seg ps)"
  unfolding off_segment_def by (intro returns_intro)

lemma returns_crossing [returns_intro]:
  "seg_fin seg \<Longrightarrow> returns (test seg2) \<Longrightarrow> returns (crossing_searcher seg test seg2 i s)"
  unfolding crossing_searcher_def by (intro returns_intro)

lemma returns_intersects_searcher [returns_intro]: "seg_fin seg \<Longrightarrow> returns (intersectsSegmentSearcher seg e seg2 i s)"
  unfolding intersectsSegmentSearcher_def by (intro returns_intro)

section \<open>Rings\<close>

text \<open>A ring with finite ordinates, those of its rectangle included.\<close>

definition ring_fin :: "Ring \<Rightarrow> bool" where
  "ring_fin ring \<longleftrightarrow> ring_ok ring \<and> is_fin (Y (RMin (sRect ring))) \<and> is_fin (Y (RMax (sRect ring)))"

lemma ring_seg_fin: "ring_ok ring \<Longrightarrow> i \<in> set [0..sNumSegments ring - 1] \<Longrightarrow> seg_fin (s_seg ring i)"
  by (simp add: ring_ok_def seg_fin_def)

lemma returns_SegmentAt [returns_intro]:
  "ring_ok ring \<Longrightarrow> i \<in> set [0..sNumSegments ring - 1] \<Longrightarrow> returns (sSegmentAt ring i)"
  using s_ok_SegmentAt [of ring i] by (auto simp: ring_ok_def returns_def)

lemma SegmentAt_fin:
  "ring_ok ring \<Longrightarrow> i \<in> set [0..sNumSegments ring - 1] \<Longrightarrow> sSegmentAt ring i = Inr seg \<Longrightarrow> seg_fin seg"
  using s_ok_SegmentAt [of ring i] ring_seg_fin [of ring i] by (auto simp: ring_ok_def)

lemma returns_PointAt [returns_intro]: "i \<in> set [0..sNumPoints ring - 1] \<Longrightarrow> returns (sPointAt ring i)"
  by (cases ring) (auto simp: returns_def series_PointAt_def series_NumPoints_def index_at_def
      rect_PointAt_def rect_NumPoints_def)

lemma returns_ContainsPoint [returns_intro]: "ring_ok ring \<Longrightarrow> returns (ringContainsPoint ring p e)"
  using ringContainsPoint_parity [of ring p e] by (auto simp: returns_def)

lemma ContainsPoint_idx:
  "ring_ok ring \<Longrightarrow> ringContainsPoint ring p e = Inr res \<Longrightarrow> rr_idx res = - 1 \<or> rr_idx res \<in> set [0..sNumSegments ring - 1]"
  using ringContainsPoint_parity [of ring p e] by (auto simp: at_height_def split: if_splits)

lemma returns_no_crossing [returns_intro]:
  assumes "ring_ok ring" "seg_fin seg" "\<And>i. i \<in> set [0..sNumSegments ring - 1] \<Longrightarrow> returns (test (s_seg ring i))"
  shows "returns (no_crossing ring seg test)"
  unfolding no_crossing_def using assms
  by (intro returns_intro s_search.search_returns) (auto simp: ring_ok_def)

lemma returns_ContainsRingSegment [returns_intro]:
  assumes "ring_ok ring" "seg_fin seg"
  shows "returns (ringContainsSegment ring seg e)"
  unfolding ringContainsSegment_def Let_def
  using assms ContainsPoint_idx [OF assms(1)]
  by (intro returns_intro) (auto intro: ring_seg_fin)

lemma returns_IntersectsRingSegment [returns_intro]:
  assumes "ring_ok ring" "seg_fin seg"
  shows "returns (ringIntersectsSegment ring seg e)"
  unfolding ringIntersectsSegment_def using assms
  by (intro returns_intro s_search.search_returns) (auto simp: ring_ok_def)

lemma rect_ring_fin: "is_fin (Y (RMin r)) \<Longrightarrow> is_fin (Y (RMax r)) \<Longrightarrow> ring_fin (RectSeries r)"
  using rect_ring_ok [of r] by (simp add: ring_fin_def rect_Rect_def)

lemma ring_fin_ok: "ring_fin ring \<Longrightarrow> ring_ok ring"
  by (simp add: ring_fin_def)

lemma returns_ContainsRing [returns_intro]:
  "ring_fin ring \<Longrightarrow> ring_fin other \<Longrightarrow> returns (ringContainsRing ring other e)"
proof (induction ring other e rule: ringContainsRing.induct)
  case (1 ring other e)
  have ok: "ring_ok ring" "ring_ok other" using "1.prems" ring_fin_ok by blast+
  have "ring_fin (RectSeries (sRect other))" using "1.prems"(2) by (intro rect_ring_fin) (auto simp: ring_fin_def)
  then have IH: "\<not> (sEmpty ring \<or> sEmpty other) \<Longrightarrow> complexRingMinPoints \<le> sNumPoints other \<Longrightarrow>
      returns (ringContainsRing ring (RectSeries (sRect other)) e)" using "1.IH" "1.prems"(1) by blast
  show ?case
    using ok SegmentAt_fin [OF ok(2)] by (subst ringContainsRing.simps) (intro returns_intro IH; assumption?)
qed

lemma returns_IntersectsRing [returns_intro]:
  assumes "ring_ok ring" "ring_ok other"
  shows "returns (ringIntersectsRing ring other e)"
  unfolding ringIntersectsRing_def Let_def
  using assms SegmentAt_fin [OF assms(1)] SegmentAt_fin [OF assms(2)]
  by (auto intro!: returns_intro)

lemma returns_ringContainsLine [returns_intro]:
  "ring_fin ring \<Longrightarrow> ring_fin (BaseSeries line) \<Longrightarrow> returns (ringContainsLine ring line e)"
  unfolding ringContainsLine_def by (intro returns_intro)

lemma returns_ringIntersectsLine [returns_intro]:
  assumes "ring_ok ring" "ring_ok (BaseSeries line)"
  shows "returns (ringIntersectsLine ring line e)"
  unfolding ringIntersectsLine_def
  using assms SegmentAt_fin [OF assms(2)] returns_SegmentAt [OF assms(2)] returns_PointAt [of _ "BaseSeries line"]
  by (auto intro!: returns_intro)

section \<open>Lines\<close>

definition line_fin :: "Line \<Rightarrow> bool" where
  "line_fin line \<longleftrightarrow> ring_fin (BaseSeries line)"

lemma line_fin_ring: "line_fin line \<Longrightarrow> ring_fin (BaseSeries line)" "line_fin line \<Longrightarrow> ring_ok (BaseSeries line)"
  by (auto simp: line_fin_def ring_fin_def)

lemma line_fin_seg:
  assumes "line_fin line" "i \<in> segs line"
  shows "returns (series_SegmentAt line i)" "series_SegmentAt line i = Inr seg \<Longrightarrow> seg_fin seg"
    "seg_fin (item_seg line i)" "searchable line"
  using returns_SegmentAt [OF line_fin_ring(2) [OF assms(1)], of i] ring_seg_fin [OF line_fin_ring(2) [OF assms(1)], of i]
    SegmentAt_fin [OF line_fin_ring(2) [OF assms(1)], of i] assms
  by (auto simp: line_fin_def ring_fin_def ring_ok_def)

lemma line_fin_searchable: "line_fin line \<Longrightarrow> searchable line"
  by (simp add: line_fin_def ring_fin_def ring_ok_def)

lemma returns_line_ContainsPoint [returns_intro]:
  "(\<And>l. line = Some l \<Longrightarrow> line_fin l) \<Longrightarrow> returns (line_ContainsPoint line p)"
  unfolding line_ContainsPoint_def line_Searcher_def
  by (auto split: option.split intro!: returns_intro base_search.search_returns line_fin_searchable line_fin_seg)

lemma returns_legs_loop [returns_intro]:
  assumes "line_fin l" "line_fin l'"
  shows "returns (exM (\<lambda>i. rbind (series_SegmentAt l i) (\<lambda>segA.
    series_Search l' (seg_Rect segA) (lines_Searcher segA) False)) [0..series_NumSegments l - 1])"
proof (rule returns_exM, rule returns_bind)
  fix i segA
  assume i: "i \<in> segs l"
  show "returns (series_SegmentAt l i)" using line_fin_seg(1) [OF assms(1) i] .
  assume "series_SegmentAt l i = Inr segA"
  then have "seg_fin segA" using line_fin_seg(2) [OF assms(1) i] by blast
  then show "returns (series_Search l' (seg_Rect segA) (lines_Searcher segA) False)"
    unfolding lines_Searcher_def
    by (intro base_search.search_returns line_fin_searchable [OF assms(2)] returns_intro)
qed

lemma returns_line_IntersectsLine [returns_intro]:
  assumes "\<And>l. line = Some l \<Longrightarrow> line_fin l" "\<And>l. other = Some l \<Longrightarrow> line_fin l"
  shows "returns (line_IntersectsLine line other)"
  unfolding line_IntersectsLine_def Let_def using assms by (auto split: option.split intro!: returns_legs_loop)

lemma returns_first_containing [returns_intro]:
  assumes "line_fin line" "set js \<subseteq> segs line" "returns (series_SegmentAt other 0)"
  shows "returns (first_containing line other js)"
  using assms(2)
proof (induction js)
  case (Cons j js)
  then show ?case using line_fin_seg [OF assms(1), of j] assms(3) by (auto intro!: returns_intro)
qed simp

text \<open>The line that \<open>ContainsPoly\<close> makes has one segment, so the loop that may not end is not entered.\<close>

lemma returns_line_ContainsPoly [returns_intro]:
  assumes "\<And>l. line = Some l \<Longrightarrow> line_fin l"
  shows "returns (line_ContainsPoly line poly)"
proof -
  let ?other = "zero_series\<lparr>bs_points := [RMin (poly_Rect poly), RMax (poly_Rect poly)], bs_rect := poly_Rect poly\<rparr>"
  have "\<not> bs_closed ?other" by (simp add: zero_series_def)
  then have n: "series_NumSegments ?other = 1" "returns (series_SegmentAt ?other 0)"
    by (simp_all add: series_NumSegments_def Let_def series_SegmentAt_def index_at_def)
  have follow: "follow_line l ?other 1 j = Some (Inr True)" for l j by (simp add: follow_line.simps n(1))
  have "returns (line_ContainsLine line (Some ?other))"
  proof (cases line)
    case (Some l)
    then show ?thesis
      using assms n(2) follow unfolding line_ContainsLine_def
      by (auto intro!: returns_intro)
  qed (simp add: line_ContainsLine_def)
  then show ?thesis by (simp add: line_ContainsPoly_def Let_def)
qed

section \<open>Polygons\<close>

definition poly_fin :: "Poly \<Rightarrow> bool" where
  "poly_fin poly \<longleftrightarrow> (\<forall>ext. Exterior poly = Some ext \<longrightarrow> ring_fin ext) \<and> (\<forall>h \<in> set (Holes poly). ring_fin h)"

lemma poly_fin_rect: "is_fin (Y (RMin r)) \<Longrightarrow> is_fin (Y (RMax r)) \<Longrightarrow> poly_fin (poly_of_rect r)"
  by (simp add: poly_fin_def poly_of_rect_def rect_ring_fin)

lemma returns_hole_at: "\<forall>h \<in> set hs. ring_ok h \<Longrightarrow> returns (hole_at hs p i)"
  by (induction hs arbitrary: i) (auto intro!: returns_intro)

lemma returns_holes_clear:
  "\<forall>h \<in> set hs. ring_fin h \<Longrightarrow> ring_fin ext \<Longrightarrow> \<forall>h \<in> set hs'. ring_fin h \<Longrightarrow> returns (holes_clear hs ext hs')"
  by (induction hs) (auto intro!: returns_intro ring_fin_ok)

lemma returns_poly_ContainsPoint [returns_intro]:
  "(\<And>p. poly = Some p \<Longrightarrow> poly_fin p) \<Longrightarrow> returns (poly_ContainsPoint poly point)"
  unfolding poly_ContainsPoint_def poly_ContainsPointEx_def
  by (auto simp: poly_fin_def split: option.split intro!: returns_intro returns_hole_at ring_fin_ok)

lemma returns_poly_lines [returns_intro]:
  assumes "\<And>p. poly = Some p \<Longrightarrow> poly_fin p" "\<And>l. line = Some l \<Longrightarrow> line_fin l"
  shows "returns (poly_ContainsLine poly line)" "returns (poly_IntersectsLine poly line)"
  unfolding poly_ContainsLine_def poly_IntersectsLine_def using assms
  by (auto simp: poly_fin_def split: option.split intro!: returns_intro ring_fin_ok line_fin_ring)

lemma returns_poly_polys [returns_intro]:
  assumes "\<And>p. poly = Some p \<Longrightarrow> poly_fin p" "\<And>p. other = Some p \<Longrightarrow> poly_fin p"
  shows "returns (poly_ContainsPoly poly other)" "returns (poly_IntersectsPoly poly other)"
  unfolding poly_ContainsPoly_def poly_IntersectsPoly_def using assms
  by (auto simp: poly_fin_def split: option.split intro!: returns_intro returns_holes_clear ring_fin_ok)

section \<open>Every shape\<close>

fun geom_fin :: "Geometry \<Rightarrow> bool" where
  "geom_fin (GPoint p) = True"
| "geom_fin (GRect r) = (is_fin (Y (RMin r)) \<and> is_fin (Y (RMax r)))"
| "geom_fin (GLine line) = (\<forall>l. line = Some l \<longrightarrow> line_fin l)"
| "geom_fin (GPoly poly) = (\<forall>p. poly = Some p \<longrightarrow> poly_fin p)"

text \<open>What the constructors make of finite points.\<close>

lemma makeSeries_ring_fin:
  assumes "\<forall>p \<in> set points. point_fin p" "length points \<le> 2 ^ 20"
  shows "\<exists>series. makeSeries points copyPoints is_closed opts = Inr series \<and> ring_fin (BaseSeries series)"
proof -
  have ok: "\<forall>p \<in> set points. point_ok p" "length points < 2 ^ 63" using assms point_fin_ok by auto
  obtain series where s: "makeSeries points copyPoints is_closed opts = Inr series" "series_wf series" "index_ok series"
    using makeSeries_ok [OF ok, of copyPoints is_closed opts] by blast
  note f = makeSeries_fin [OF assms s(1)]
  have "ring_ok (BaseSeries series)" using base_ring_ok [OF s(2,3)] f(3) assms by simp
  then show ?thesis
    using s(1) f(2) by (auto simp: ring_fin_def series_Rect_def rect_fin_corners_def point_fin_def)
qed

lemma NewLine_fin:
  assumes "\<forall>p \<in> set points. point_fin p" "length points \<le> 2 ^ 20"
  shows "\<exists>line. NewLine points opts = Inr line \<and> geom_fin (GLine (Some line))"
  using makeSeries_ring_fin [OF assms, of True False opts] by (simp add: NewLine_def line_fin_def)

lemma newRing_fin:
  assumes "\<forall>p \<in> set points. point_fin p" "length points \<le> 2 ^ 20"
  shows "\<exists>ring. newRing points opts = Inr ring \<and> ring_fin ring"
  using makeSeries_ring_fin [OF assms, of True True opts] by (auto simp: newRing_def)

lemma newRings_fin:
  "\<forall>h \<in> set hs. (\<forall>p \<in> set h. point_fin p) \<and> length h \<le> 2 ^ 20 \<Longrightarrow>
     \<exists>rings. newRings hs opts = Inr rings \<and> (\<forall>r \<in> set rings. ring_fin r)"
  using newRing_fin by (induction hs) fastforce+

lemma NewPoly_fin:
  assumes "\<forall>h \<in> set (ext # holes). (\<forall>p \<in> set h. point_fin p) \<and> length h \<le> 2 ^ 20"
  shows "\<exists>poly. NewPoly ext holes opts = Inr poly \<and> geom_fin (GPoly (Some poly))"
proof -
  obtain e hs where "newRing ext opts = Inr e" "ring_fin e" "newRings holes opts = Inr hs" "\<forall>r \<in> set hs. ring_fin r"
    using newRing_fin [of ext opts] newRings_fin [of holes opts] assms by auto
  then show ?thesis by (cases "holes = []") (auto simp: NewPoly_def poly_fin_def)
qed

text \<open>
  C16: every \<open>Intersects\<close> method of every kind of shape returns: for shapes with finite ordinates no
  index, segment or hole is out of range, no loop runs for ever, and a nil line or polygon is handled.
\<close>

theorem geometry_intersects_returns:
  assumes "geom_fin g" "geom_fin (GRect rect)" "geom_fin (GLine line)" "geom_fin (GPoly poly)"
  shows "(\<exists>b. geom_IntersectsPoint g point = Inr b) \<and> (\<exists>b. geom_IntersectsRect g rect = Inr b) \<and>
    (\<exists>b. geom_IntersectsLine g line = Inr b) \<and> (\<exists>b. geom_IntersectsPoly g poly = Inr b)"
proof -
  have r: "ring_fin (RectSeries rect)" "poly_fin (poly_of_rect rect)"
    using assms(2) rect_ring_fin poly_fin_rect by auto
  have "returns (geom_IntersectsPoint g point)" "returns (geom_IntersectsRect g rect)"
    "returns (geom_IntersectsLine g line)" "returns (geom_IntersectsPoly g poly)"
    using assms r rect_ring_fin poly_fin_rect
    by (cases g; auto simp: line_IntersectsPoint_def poly_IntersectsPoint_def line_IntersectsRect_def
        rect_IntersectsLine_def poly_IntersectsRect_def point_IntersectsLine_def point_IntersectsPoly_def
        rect_IntersectsPoly_def line_IntersectsPoly_def
        split: option.split intro!: returns_intro ring_fin_ok line_fin_ring)+
  then show ?thesis by (simp add: returns_def)
qed

theorem geometry_intersects_returns_witness:
  "\<exists>line poly b. NewLine [ipoint 0 0, ipoint 9 9] None = Inr line \<and>
     NewPoly [ipoint 0 0, ipoint 4 0, ipoint 0 4] [] None = Inr poly \<and>
     geom_IntersectsLine (GPoly (Some poly)) (Some line) = Inr b"
proof -
  obtain line where l: "NewLine [ipoint 0 0, ipoint 9 9] None = Inr line" "geom_fin (GLine (Some line))"
    using NewLine_fin [of "[ipoint 0 0, ipoint 9 9]" None] by (auto simp: point_fin_def)
  obtain poly where p: "NewPoly [ipoint 0 0, ipoint 4 0, ipoint 0 4] [] None = Inr poly" "geom_fin (GPoly (Some poly))"
    using NewPoly_fin [of "[ipoint 0 0, ipoint 4 0, ipoint 0 4]" "[]" None] by (auto simp: point_fin_def)
  have "geom_fin (GRect (irect 0 0 1 1))" by simp
  from geometry_intersects_returns [OF p(2) this l(2) p(2), of "ipoint 0 0"] show ?thesis using l(1) p(1) by blast
qed

text \<open>
  C17: every \<open>Contains\<close> method of every kind of shape returns, in the same way, but for the method of a line
  that takes a line.
\<close>

theorem geometry_contains_returns:
  assumes "geom_fin g" "geom_fin (GRect rect)" "geom_fin (GLine line)" "geom_fin (GPoly poly)"
  shows "(\<exists>b. geom_ContainsPoint g point = Inr b) \<and> (\<exists>b. geom_ContainsRect g rect = Inr b) \<and>
    (\<exists>b. geom_ContainsPoly g poly = Inr b) \<and> ((\<nexists>l. g = GLine l) \<longrightarrow> (\<exists>b. geom_ContainsLine g line = Inr b))"
proof -
  have r: "ring_fin (RectSeries rect)" "poly_fin (poly_of_rect rect)"
    using assms(2) rect_ring_fin poly_fin_rect by auto
  have "returns (geom_ContainsPoint g point)" "returns (geom_ContainsRect g rect)"
    "returns (geom_ContainsPoly g poly)" "(\<nexists>l. g = GLine l) \<Longrightarrow> returns (geom_ContainsLine g line)"
    using assms r
    by (cases g; auto simp: line_ContainsRect_def poly_ContainsRect_def
        split: option.split intro!: returns_intro)+
  then show ?thesis by (auto simp: returns_def)
qed

theorem geometry_contains_returns_witness:
  "\<exists>line poly b. NewLine [ipoint 0 0, ipoint 9 9] None = Inr line \<and>
     NewPoly [ipoint 0 0, ipoint 4 0, ipoint 0 4] [] None = Inr poly \<and>
     geom_ContainsLine (GPoly (Some poly)) (Some line) = Inr b"
proof -
  obtain line where l: "NewLine [ipoint 0 0, ipoint 9 9] None = Inr line" "geom_fin (GLine (Some line))"
    using NewLine_fin [of "[ipoint 0 0, ipoint 9 9]" None] by (auto simp: point_fin_def)
  obtain poly where p: "NewPoly [ipoint 0 0, ipoint 4 0, ipoint 0 4] [] None = Inr poly" "geom_fin (GPoly (Some poly))"
    using NewPoly_fin [of "[ipoint 0 0, ipoint 4 0, ipoint 0 4]" "[]" None] by (auto simp: point_fin_def)
  have "geom_fin (GRect (irect 0 0 1 1))" by simp
  from geometry_contains_returns [OF p(2) this l(2) p(2), of "ipoint 0 0"] show ?thesis using l(1) p(1) by blast
qed

end
