(* ===== verification/Convexity.thy ===== *)
theory Convexity
  imports Moving Safety
begin

text \<open>
  The convexity flag that \<open>processPoints\<close> computes, as a statement about the turns of the path, and what
  goes wrong with it for a ring that repeats its first point.
\<close>


section \<open>The turns of a path\<close>

definition corner_cross :: "Point list \<Rightarrow> nat \<Rightarrow> f64" where
  "corner_cross points i = (case corner points i of (a, b, c) \<Rightarrow>
     (X b - X a) * (Y c - Y b) - (Y b - Y a) * (X c - X b))"

definition turn_step :: "f64 \<Rightarrow> turning \<Rightarrow> turning" where
  "turn_step z t = (if t_concave t then t else turn t z)"

lemma process_turns:
  "snd (snd (fold (process_step points) is (rect, cwc, t))) = fold turn_step (map (corner_cross points) is) t"
  by (induction "is" arbitrary: rect cwc t)
    (auto simp: process_step_def turn_step_def corner_cross_def Let_def split: prod.split)

text \<open>The state after the turns \<open>zs\<close>: both directions were seen, or the direction of the turns so far.\<close>

definition turns_state :: "f64 list \<Rightarrow> turning \<Rightarrow> bool" where
  "turns_state zs t \<longleftrightarrow> (t_concave t \<longleftrightarrow> (\<exists>z \<in> set zs. z < 0) \<and> (\<exists>z \<in> set zs. 0 < z)) \<and>
     (\<not> t_concave t \<longrightarrow> t_dir t = (if \<exists>z \<in> set zs. z < 0 then - 1 else if \<exists>z \<in> set zs. 0 < z then 1 else 0))"

lemma turn_step_state: "turns_state zs t \<Longrightarrow> turns_state (zs @ [z]) (turn_step z t)"
proof -
  assume t: "turns_state zs t"
  have ex: "\<not> (z < 0 \<and> 0 < z)" by (auto simp: less_f64_def)
  show ?thesis
    using t ex
    by (cases "\<exists>z \<in> set zs. z < 0"; cases "\<exists>z \<in> set zs. 0 < z"; cases "z < 0"; cases "0 < z")
      (simp_all add: turns_state_def turn_step_def turn_def bex_Un)
qed

lemma fold_turns: "turns_state zs t \<Longrightarrow> turns_state (zs @ ws) (fold turn_step ws t)"
  using turn_step_state by (induction ws arbitrary: zs t) (simp, fastforce)

lemma ex_map_upt: "(\<exists>z \<in> set (map f [0..<n]). P z) \<longleftrightarrow> (\<exists>i < n. P (f i))"
  by auto

lemma processPoints_turns:
  assumes "\<not> (is_closed \<and> length points < 3)" "2 \<le> length points"
  shows "fst (processPoints points is_closed) \<longleftrightarrow>
    \<not> (\<exists>i < length points. \<exists>j < length points. corner_cross points i < 0 \<and> 0 < corner_cross points j)"
proof -
  let ?t0 = "\<lparr>t_concave = False, t_dir = 0\<rparr>" and ?zs = "map (corner_cross points) [0..<length points]"
  have "turns_state [] ?t0" by (simp add: turns_state_def)
  then have "turns_state ?zs (snd (snd (process_loop points)))"
    unfolding process_loop_def process_turns using fold_turns [of "[]" ?t0 ?zs] by simp
  then have "t_concave (snd (snd (process_loop points))) \<longleftrightarrow>
      (\<exists>i < length points. \<exists>j < length points. corner_cross points i < 0 \<and> 0 < corner_cross points j)"
    unfolding turns_state_def ex_map_upt by blast
  then show ?thesis using assms by (auto simp: processPoints_def split: prod.split)
qed

text \<open>
  C23: a series is convex, by the flag that \<open>processPoints\<close> computes, exactly if no two of the corners it
  looks at turn in opposite directions, by the signs of their cross products in floating point.
\<close>

theorem processPoints_convex:
  assumes "\<not> (is_closed \<and> length points < 3)" "2 \<le> length points"
  shows "fst (processPoints points is_closed) \<longleftrightarrow>
    \<not> (\<exists>i < length points. \<exists>j < length points. corner_cross points i < 0 \<and> 0 < corner_cross points j)"
  using processPoints_turns [OF assms] .

text \<open>The cross products on the grid.\<close>

definition icross :: "(int \<times> int) list \<Rightarrow> nat \<Rightarrow> nat \<Rightarrow> nat \<Rightarrow> int" where
  "icross pts i j k =
     (fst (pts ! j) - fst (pts ! i)) * (snd (pts ! k) - snd (pts ! j)) -
     (snd (pts ! j) - snd (pts ! i)) * (fst (pts ! k) - fst (pts ! j))"

lemma corner_cross_grid:
  assumes "\<forall>(x, y) \<in> set pts. \<bar>x\<bar> \<le> 2 ^ 24 \<and> \<bar>y\<bar> \<le> 2 ^ 24" "2 \<le> length pts" "i < length pts"
  shows "fint (corner_cross (ipoints pts) i)
    (if i = length pts - 1 then icross pts i 0 1
     else if i = length pts - 2 then icross pts i (i + 1) 0 else icross pts i (i + 1) (i + 2))"
proof -
  have g: "grid (fst (pts ! k)) \<and> grid (snd (pts ! k))" if "k < length pts" for k
    using assms(1) nth_mem [OF that] by (auto simp: grid_def split_beta)
  have p: "ipoints pts ! k = ipoint (fst (pts ! k)) (snd (pts ! k))" if "k < length pts" for k
    using that by (simp add: split_beta)
  have c: "fint ((X (ipoints pts ! j) - X (ipoints pts ! i)) * (Y (ipoints pts ! k) - Y (ipoints pts ! j)) -
      (Y (ipoints pts ! j) - Y (ipoints pts ! i)) * (X (ipoints pts ! k) - X (ipoints pts ! j))) (icross pts i j k)"
    if "j < length pts" "k < length pts" for j k
    using grid_cross(1) [of "fst (pts ! j)" "snd (pts ! k)" "snd (pts ! j)" "fst (pts ! k)"
        "fst (pts ! i)" "snd (pts ! j)" "snd (pts ! i)" "fst (pts ! j)"] g that assms(3)
    by (simp add: p icross_def split_beta)
  consider (last) "i = length pts - 1" | (before) "i \<noteq> length pts - 1" "i = length pts - 2"
    | (inner) "i \<noteq> length pts - 1" "i \<noteq> length pts - 2" by blast
  then show ?thesis
  proof cases
    case last
    have "0 < length pts" "1 < length pts" using assms(2) by auto
    from c [OF this] show ?thesis using last unfolding corner_cross_def corner_def length_map by (simp only: simp_thms if_True prod.case)
  next
    case before
    have "i + 1 < length pts" "0 < length pts" using assms(2,3) before by auto
    from c [OF this] show ?thesis
      using before unfolding corner_cross_def corner_def length_map by (simp only: simp_thms if_True if_False prod.case)
  next
    case inner
    have "i + 1 < length pts" "i + 2 < length pts" using assms(2,3) inner by auto
    from c [OF this] show ?thesis
      using inner unfolding corner_cross_def corner_def length_map by (simp only: simp_thms if_False prod.case)
  qed
qed

text \<open>The turn at a corner, and the flag of a ring that turns both ways.\<close>

definition turn_at :: "(int \<times> int) list \<Rightarrow> nat \<Rightarrow> int" where
  "turn_at pts i =
     (if i = length pts - 1 then icross pts i 0 1
      else if i = length pts - 2 then icross pts i (i + 1) 0 else icross pts i (i + 1) (i + 2))"

lemma corner_cross_turn: "grid_ring pts \<Longrightarrow> i < length pts \<Longrightarrow> fint (corner_cross (ipoints pts) i) (turn_at pts i)"
  unfolding turn_at_def by (rule corner_cross_grid) (auto simp: grid_ring_def)

lemma newRing_flag:
  assumes "grid_ring pts" "newRing (ipoints pts) opts = Inr ring"
  shows "sConvex ring \<longleftrightarrow> \<not> (\<exists>i < length pts. \<exists>j < length pts. turn_at pts i < 0 \<and> 0 < turn_at pts j)"
proof -
  have fin: "\<forall>p \<in> set (ipoints pts). point_fin p" "length (ipoints pts) \<le> 2 ^ 20" "3 \<le> length (ipoints pts)"
    using assms(1) by (auto simp: grid_ring_def point_fin_def)
  obtain bs where bs: "ring = BaseSeries bs" "bs_convex bs = fst (processPoints (ipoints pts) True)"
    using newRing_ok [OF fin(1,2) assms(2)] by auto
  have "corner_cross (ipoints pts) i < 0 \<and> 0 < corner_cross (ipoints pts) j \<longleftrightarrow> turn_at pts i < 0 \<and> 0 < turn_at pts j"
    if "i < length pts" "j < length pts" for i j
    using fint_less [OF corner_cross_turn [OF assms(1) that(1)] fint_0] fint_less [OF fint_0 corner_cross_turn [OF assms(1) that(2)]] by simp
  then have "(\<exists>i < length (ipoints pts). \<exists>j < length (ipoints pts). corner_cross (ipoints pts) i < 0 \<and> 0 < corner_cross (ipoints pts) j) \<longleftrightarrow>
      (\<exists>i < length pts. \<exists>j < length pts. turn_at pts i < 0 \<and> 0 < turn_at pts j)" by auto
  then show ?thesis
    unfolding bs(1) sConvex.simps series_Convex_def bs(2) using processPoints_turns [of True "ipoints pts"] fin(3) by simp
qed

lemma concave_flag:
  assumes "grid_ring pts" "newRing (ipoints pts) opts = Inr ring" "i < length pts" "j < length pts" "turn_at pts i < 0" "0 < turn_at pts j"
  shows "\<not> sConvex ring"
  unfolding newRing_flag [OF assms(1,2)] using assms(3-6) by blast

theorem processPoints_convex_witness: "fst (processPoints [ipoint 0 0, ipoint 4 0, ipoint 0 4] True)"
proof -
  let ?pts = "[(0, 0), (4, 0), (0, 4)] :: (int \<times> int) list"
  have "\<not> corner_cross (ipoints ?pts) i < 0" if i: "i < 3" for i
  proof -
    consider "i = 0" | "i = 1" | "i = 2" using i by linarith
    then show ?thesis
      using corner_cross_grid [of ?pts i] fint_less [OF _ fint_0] by cases (auto simp: icross_def)
  qed
  then show ?thesis using processPoints_convex [of True "ipoints ?pts"] by auto
qed

section \<open>A ring that repeats its first point\<close>

text \<open>
  Where the last point repeats the first one, the two corners at the end of the list have a leg of
  length zero, and the corner at the first point is never looked at.
\<close>

abbreviation chevron :: "(int \<times> int) list" where
  "chevron \<equiv> [(2, 1), (4, 0), (2, 4), (0, 0), (2, 1)]"

lemma chevron_convex: "fst (processPoints (ipoints chevron) True)"
proof -
  have "\<not> corner_cross (ipoints chevron) i < 0" if i: "i < 5" for i
  proof -
    consider "i = 0" | "i = 1" | "i = 2" | "i = 3" | "i = 4" using i by linarith
    then show ?thesis
      using corner_cross_grid [of chevron i] fint_less [OF _ fint_0] by cases (auto simp: icross_def)
  qed
  then show ?thesis using processPoints_turns [of True "ipoints chevron"] by auto
qed

lemma makeSeries_box:
  assumes "makeSeries points copyPoints is_closed opts = Inr series" "\<forall>p \<in> set points. point_fin p" "length points < 2 ^ 63"
    and "\<not> ((is_closed \<and> length points < 3) \<or> length points < 2)"
  shows "rect_ok (bs_rect series)" "\<forall>p \<in> set points. rect_ContainsPoint (bs_rect series) p"
    and "rect_ok t \<Longrightarrow> \<forall>p \<in> set points. rect_ContainsPoint t p \<Longrightarrow> rect_ContainsRect t (bs_rect series)"
proof -
  have ok: "\<forall>p \<in> set points. point_ok p" using assms(2) point_fin_ok by blast
  have "(bs_convex series, bs_rect series, bs_clockwise series) = processPoints points is_closed"
    using makeSeries_ok [OF ok assms(3), of copyPoints is_closed opts] assms(1) by auto
  then have r: "fst (snd (processPoints points is_closed)) = bs_rect series" by (metis fst_conv snd_conv)
  note box = processPoints_rect_ok [OF ok assms(4), unfolded r]
  have "rect_ContainsRect (bs_rect series) (bs_rect series)" by (simp add: rect_ContainsRect_def less_f64_def)
  then show "rect_ok (bs_rect series)" "\<forall>p \<in> set points. rect_ContainsPoint (bs_rect series) p"
    and "rect_ok t \<Longrightarrow> \<forall>p \<in> set points. rect_ContainsPoint t p \<Longrightarrow> rect_ContainsRect t (bs_rect series)"
    using box by blast+
qed

lemma convex_ring_contains:
  assumes ring: "ring_ok (BaseSeries bs)" "bs_convex bs" "\<not> series_Empty (Some bs)"
    and line: "\<not> series_Empty (Some line)" "length (bs_points line) < 16"
    and rect: "rect_ContainsRect (bs_rect bs) (bs_rect line)"
  shows "ringContainsLine (BaseSeries bs) line e = Inr (\<forall>p \<in> set (bs_points line). in_ring (BaseSeries bs) p e)"
proof -
  let ?n = "int (length (bs_points line))"
  have "allM (\<lambda>i. rbind (sPointAt (BaseSeries line) i) (\<lambda>p. rbind (ringContainsPoint (BaseSeries bs) p e) (\<lambda>r. Inr (hit r))))
      [0..?n - 1] = Inr (\<forall>i \<in> set [0..?n - 1]. in_ring (BaseSeries bs) (bs_points line ! nat i) e)"
  proof (rule allM_total)
    fix i assume "i \<in> set [0..?n - 1]"
    then have "sPointAt (BaseSeries line) i = Inr (bs_points line ! nat i)"
      by (auto simp: series_PointAt_def index_at_def)
    then show "rbind (sPointAt (BaseSeries line) i) (\<lambda>p. rbind (ringContainsPoint (BaseSeries bs) p e) (\<lambda>r. Inr (hit r))) =
        Inr (in_ring (BaseSeries bs) (bs_points line ! nat i) e)"
      using ring_ok_in_ring [OF ring(1), of "bs_points line ! nat i" e] by auto
  qed
  also have "(\<forall>i \<in> set [0..?n - 1]. in_ring (BaseSeries bs) (bs_points line ! nat i) e) \<longleftrightarrow>
      (\<forall>p \<in> set (bs_points line). in_ring (BaseSeries bs) p e)"
    using ex_upto [of "bs_points line" "\<lambda>p. \<not> in_ring (BaseSeries bs) p e"] by blast
  finally show ?thesis
    using assms(2-) unfolding ringContainsLine_def
    by (subst ringContainsRing.simps)
      (simp add: series_NumPoints_def complexRingMinPoints_def series_Rect_def series_Convex_def)
qed

text \<open>
  C34: a polygon whose ring repeats its first point, as GeoJSON rings do, may be taken for convex where it
  is not: the polygon with the corners (2, 1), (4, 0), (2, 4), (0, 0) and again (2, 1) contains the line from (0, 0) to (4, 0),
  by \<open>ContainsLine\<close>, but not the point (2, 0) of that line.
\<close>

theorem poly_ContainsLine_closed_ring:
  "\<exists>poly line. NewPoly (map (\<lambda>(x, y). ipoint x y) [(2, 1), (4, 0), (2, 4), (0, 0), (2, 1)]) [] None = Inr poly \<and>
    NewLine (map (\<lambda>(x, y). ipoint x y) [(0, 0), (4, 0)]) None = Inr line \<and>
    poly_ContainsLine (Some poly) (Some line) = Inr True \<and>
    line_ContainsPoint (Some line) (ipoint 2 0) = Inr True \<and> poly_ContainsPoint (Some poly) (ipoint 2 0) = Inr False"
proof -
  let ?line = "[(0, 0), (4, 0)] :: (int \<times> int) list"
  have g: "grid_ring chevron" "grid_line ?line" by (simp_all add: grid_ring_def grid_line_def)
  obtain ring where r: "newRing (ipoints chevron) None = Inr ring" "ring_of ring chevron"
    using newRing_ring_of [OF g(1)] by blast
  have fin: "\<forall>p \<in> set (ipoints chevron). point_fin p" by (auto simp: point_fin_def)
  obtain bs where bs: "ring = BaseSeries bs" "bs_points bs = ipoints chevron" "bs_closed bs" "ring_ok ring"
    "bs_convex bs" using newRing_ok [OF fin _ r(1)] chevron_convex by auto
  obtain line where l: "NewLine (ipoints ?line) None = Inr line" "line_of line ?line" using NewLine_line_of [OF g(2)] by blast
  have pts: "bs_points line = ipoints ?line" "\<not> bs_closed line" using l(2) by (auto simp: line_of_def)
  have "rect_ContainsRect (bs_rect bs) (bs_rect line)"
  proof -
    have "rect_ok (bs_rect bs)" "\<forall>p \<in> set (ipoints chevron). rect_ContainsPoint (bs_rect bs) p"
      using makeSeries_box [of "ipoints chevron" True True None bs] r(1) fin bs(1)
      by (auto simp: newRing_def)
    moreover have "rect_ContainsRect t (bs_rect line)" if "rect_ok t" "\<forall>p \<in> set (ipoints ?line). rect_ContainsPoint t p" for t
      using makeSeries_box [of "ipoints ?line" True False None line] l(1) that by (auto simp: NewLine_def point_fin_def)
    ultimately show ?thesis by simp
  qed
  moreover have "\<not> series_Empty (Some bs)" "\<not> series_Empty (Some line)" using bs(2,3) pts by (simp_all add: series_Empty_def)
  moreover have "in_ring ring (ipoint 0 0) True" "in_ring ring (ipoint 4 0) True"
    using ring_of_in [OF r(2), of 0 0 True] ring_of_in [OF r(2), of 4 0 True]
    by (simp_all add: even_odd_def edges_def edge_on_def on_seg_def)
  ultimately have c: "ringContainsLine ring line True = Inr True"
    using convex_ring_contains [of bs line True] bs(1,4,5) pts by simp
  let ?poly = "\<lparr>Exterior = Some ring, Holes = []\<rparr>"
  have p: "NewPoly (ipoints chevron) [] None = Inr ?poly" using r(1) by (simp add: NewPoly_def)
  have "poly_of ?poly chevron []" using r(2) by (simp add: poly_of_def)
  from poly_of_contains [OF this, of 2 0] have "poly_ContainsPoint (Some ?poly) (ipoint 2 0) = Inr False"
    by (simp add: even_odd_def edges_def edge_on_def on_seg_def edge_crosses_def crosses_def crosses_up_def)
  moreover have "poly_ContainsLine (Some ?poly) (Some line) = Inr True" using c by (simp add: poly_ContainsLine_def)
  moreover have "line_ContainsPoint (Some line) (ipoint 2 0) = Inr True"
    using line_of_ContainsPoint [OF l(2), of 2 0] by (simp add: grid_def legs_def edge_on_def on_seg_def)
  ultimately show ?thesis using p l(1) by blast
qed

end
