(* ===== verification/Crossing_Parity.thy ===== *)
theory Crossing_Parity
  imports Lines
begin

text \<open>
  How a segment crosses a ring, over the integers: an edge that the segment properly crosses is one that
  exactly one of the rays from its two ends crosses, up to the corners in the strip between the rays. Around
  the ring these corners cancel, so a segment with both ends outside crosses the ring an even number of
  times, and meets two edges as soon as it meets one.
\<close>

section \<open>A segment that crosses an edge\<close>

definition side :: "int \<Rightarrow> int \<Rightarrow> int \<Rightarrow> int \<Rightarrow> int \<Rightarrow> int \<Rightarrow> int" where
  "side ax ay bx b px py = (b - ay) * (px - ax) - (py - ay) * (bx - ax)"

lemma affine_zero:
  fixes p q lo hi :: rat
  assumes "lo \<le> hi"
  shows "(\<exists>h. lo \<le> h \<and> h \<le> hi \<and> p + q * h = 0) \<longleftrightarrow> (p + q * lo) * (p + q * hi) \<le> 0"
proof
  assume "\<exists>h. lo \<le> h \<and> h \<le> hi \<and> p + q * h = 0"
  then obtain h where h: "lo \<le> h" "h \<le> hi" "p + q * h = 0" by blast
  have "(p + q * lo) * (p + q * hi) = - (q * q) * ((h - lo) * (hi - h))"
  proof -
    have p: "p = - (q * h)" using h(3) by (simp add: eq_neg_iff_add_eq_0)
    show ?thesis unfolding p by (simp add: algebra_simps)
  qed
  moreover have "0 \<le> (q * q) * ((h - lo) * (hi - h))" using h by (intro mult_nonneg_nonneg zero_le_square) auto
  ultimately show "(p + q * lo) * (p + q * hi) \<le> 0" by simp
next
  assume le: "(p + q * lo) * (p + q * hi) \<le> 0"
  show "\<exists>h. lo \<le> h \<and> h \<le> hi \<and> p + q * h = 0"
  proof (cases "p + q * lo = 0 \<or> p + q * hi = 0")
    case True
    then show ?thesis using assms by auto
  next
    case False
    then have s: "(p + q * lo < 0 \<and> 0 < p + q * hi) \<or> (0 < p + q * lo \<and> p + q * hi < 0)"
      using le by (auto simp: mult_le_0_iff)
    then have q: "q \<noteq> 0" by auto
    let ?h = "- p / q"
    have up: "p + q * lo < 0 \<and> 0 < p + q * hi" if "0 < q"
      using s mult_left_mono [of lo hi q] assms that by linarith
    have down: "0 < p + q * lo \<and> p + q * hi < 0" if "q < 0"
      using s mult_left_mono_neg [of lo hi q] assms that by linarith
    have "lo \<le> ?h \<and> ?h \<le> hi"
      using up down q by (cases "0 < q") (auto simp: field_simps)
    moreover have "p + q * ?h = 0" using q by simp
    ultimately show ?thesis by blast
  qed
qed

lemma side_along:
  "(of_int (b - ay) :: rat) * (along ux vx t - of_int ax) - (along uy v t - of_int ay) * of_int (bx - ax) =
    of_int (side ax ay bx b ux uy) + of_int (side ax ay bx b vx v - side ax ay bx b ux uy) * t"
  by (simp add: side_def along_def algebra_simps)

lemma meet_sides:
  assumes "segs_meet ax ay bx b ux uy vx v"
  shows "side ax ay bx b ux uy * side ax ay bx b vx v \<le> 0"
proof -
  obtain t u where m: "0 \<le> u" "u \<le> 1" "along ax bx t = along ux vx u" "along ay b t = along uy v u"
    using assms by (auto simp: segs_meet_def)
  have "(of_int (b - ay) :: rat) * (along ux vx u - of_int ax) - (along uy v u - of_int ay) * of_int (bx - ax) = 0"
    unfolding m(3,4) [symmetric] by (simp add: along_def algebra_simps)
  then have "\<exists>h. 0 \<le> h \<and> h \<le> 1 \<and> (of_int (side ax ay bx b ux uy) :: rat) +
      of_int (side ax ay bx b vx v - side ax ay bx b ux uy) * h = 0"
    using m(1,2) unfolding side_along by blast
  then have "(of_int (side ax ay bx b ux uy) :: rat) * of_int (side ax ay bx b vx v) \<le> 0"
    using affine_zero [of 0 1 "of_int (side ax ay bx b ux uy) :: rat" "of_int (side ax ay bx b vx v - side ax ay bx b ux uy)"]
    by simp
  then show ?thesis by (metis of_int_le_0_iff of_int_mult)
qed

lemma segs_meet_sym: "segs_meet cx cy dx d ax ay bx b = segs_meet ax ay bx b cx cy dx d"
  unfolding segs_meet_def by metis

lemma segs_meet_flip: "segs_meet bx b ax ay cx cy dx d = segs_meet ax ay bx b cx cy dx d"
proof -
  have a: "along q p (1 - t) = along p q t" for p q t by (simp add: along_def algebra_simps)
  have "segs_meet x1 y1 x0 y0 cx cy dx d" if m: "segs_meet x0 y0 x1 y1 cx cy dx d" for x0 y0 x1 y1
  proof -
    obtain t u where "0 \<le> t" "t \<le> 1" "0 \<le> u" "u \<le> 1" "along x0 x1 t = along cx dx u" "along y0 y1 t = along cy d u"
      using m unfolding segs_meet_def by blast
    then show ?thesis unfolding segs_meet_def
      by (intro exI [of _ "1 - t"] exI [of _ u]) (simp add: a)
  qed
  then show ?thesis by blast
qed

text \<open>An end of one segment on the other is a common point.\<close>

lemma no_meet_off:
  assumes "\<not> segs_meet ax ay bx b ux uy vx v"
  shows "\<not> on_seg ax ay bx b ux uy" "\<not> on_seg ax ay bx b vx v" "\<not> on_seg ux uy vx v ax ay" "\<not> on_seg ux uy vx v bx b"
  using assms on_both_meet on_seg_ends by metis+

lemma side_on_seg: "side ax ay bx b px py = 0 \<Longrightarrow> ay < b \<Longrightarrow> ay \<le> py \<Longrightarrow> py \<le> b \<Longrightarrow> on_seg ax ay bx b px py"
proof -
  assume a: "side ax ay bx b px py = 0" "ay < b" "ay \<le> py" "py \<le> b"
  let ?t = "of_int (py - ay) / of_int (b - ay) :: rat"
  have pos: "0 < (of_int (b - ay) :: rat)" using a(2) by simp
  have t: "0 \<le> ?t" "?t \<le> 1" using a pos by (auto simp: field_simps)
  have e: "(of_int (b - ay) :: rat) * of_int (px - ax) = of_int (py - ay) * of_int (bx - ax)"
    using a(1) unfolding side_def by (metis of_int_mult right_minus_eq)
  have x: "of_int px = along ax bx ?t" using e pos by (simp add: along_def field_simps)
  have y: "of_int py = along ay b ?t" using pos by (simp add: along_def field_simps)
  show ?thesis unfolding on_seg_along using t x y by blast
qed


text \<open>
  How far apart two segments that go up are at a height, times both rises, is an affine function of the
  height; where it is 0 the points at this height are the same.
\<close>

lemma gap_at_heights:
  fixes ax ay bx b ux uy vx v :: int and t u :: rat
  defines "p \<equiv> (b - ay) * ((v - uy) * ux - uy * (vx - ux)) - (v - uy) * ((b - ay) * ax - ay * (bx - ax))"
    and "q \<equiv> (b - ay) * (vx - ux) - (v - uy) * (bx - ax)"
  assumes "along ay b t = along uy v u"
  shows "of_int p + of_int q * along ay b t =
    of_int (b - ay) * of_int (v - uy) * (along ux vx u - along ax bx t)"
proof -
  have "of_int p + of_int q * h = of_int (b - ay) * (of_int (v - uy) * of_int ux + (h - of_int uy) * of_int (vx - ux)) -
      of_int (v - uy) * (of_int (b - ay) * of_int ax + (h - of_int ay) * of_int (bx - ax))" for h :: rat
    by (simp add: p_def q_def algebra_simps)
  moreover have "(along ay b t - of_int uy) * of_int (vx - ux) = u * of_int (v - uy) * of_int (vx - ux)"
    unfolding assms(3) by (simp add: along_def)
  moreover have "(along ay b t - of_int ay) * of_int (bx - ax) = t * of_int (b - ay) * of_int (bx - ax)"
    by (simp add: along_def)
  ultimately show ?thesis by (simp only:) (simp add: along_def algebra_simps)
qed

text \<open>
  Two segments that go up meet exactly if the difference of their horizontal positions has a zero on the
  heights that they share. It is affine, so its signs at the lowest and the highest of these decide.
\<close>

lemma upright_meet:
  fixes ax ay bx b ux uy vx v :: int
  assumes "ay < b" "uy < v" "uy \<le> b" "ay \<le> v"
  defines "lo \<equiv> if uy \<le> ay then - ((b - ay) * side ux uy vx v ax ay) else (v - uy) * side ax ay bx b ux uy"
    and "hi \<equiv> if b < v then - ((b - ay) * side ux uy vx v bx b) else (v - uy) * side ax ay bx b vx v"
  shows "segs_meet ax ay bx b ux uy vx v \<longleftrightarrow> lo * hi \<le> 0"
proof -
  define p where "p = (b - ay) * ((v - uy) * ux - uy * (vx - ux)) - (v - uy) * ((b - ay) * ax - ay * (bx - ax))"
  define q where "q = (b - ay) * (vx - ux) - (v - uy) * (bx - ax)"
  note gap = gap_at_heights [of ay b _ uy v _ ux vx ax bx, folded p_def q_def]
  let ?l = "of_int (max ay uy) :: rat" and ?h = "of_int (min b v) :: rat"
  have "segs_meet ax ay bx b ux uy vx v \<longleftrightarrow> (\<exists>h. ?l \<le> h \<and> h \<le> ?h \<and> of_int p + of_int q * h = 0)"
  proof
    assume "segs_meet ax ay bx b ux uy vx v"
    then obtain t u where m: "0 \<le> t" "t \<le> 1" "0 \<le> u" "u \<le> 1" "along ax bx t = along ux vx u" "along ay b t = along uy v u"
      unfolding segs_meet_def by blast
    have "of_int p + of_int q * along ay b t = 0" using gap [OF m(6)] m(5) by simp
    moreover have "?l \<le> along ay b t \<and> along ay b t \<le> ?h"
      using along_range [OF m(1,2), of ay b] along_range [OF m(3,4), of uy v] m(6) assms(1,2)
      by (auto simp: max_def min_def)
    ultimately show "\<exists>h. ?l \<le> h \<and> h \<le> ?h \<and> of_int p + of_int q * h = 0" by blast
  next
    assume "\<exists>h. ?l \<le> h \<and> h \<le> ?h \<and> of_int p + of_int q * h = 0"
    then obtain h where h: "?l \<le> h" "h \<le> ?h" "of_int p + of_int q * h = 0" by blast
    let ?t = "(h - of_int ay) / of_int (b - ay)" and ?u = "(h - of_int uy) / of_int (v - uy)"
    have pos: "0 < (of_int (b - ay) :: rat)" "0 < (of_int (v - uy) :: rat)" using assms(1,2) by simp_all
    have "of_int ay \<le> h" "h \<le> of_int b" "of_int uy \<le> h" "h \<le> of_int v" using h(1,2) by (auto simp: max_def min_def split: if_splits)
    then have "0 \<le> ?t" "?t \<le> 1" "0 \<le> ?u" "?u \<le> 1" using pos by (auto simp: field_simps)
    moreover have at: "along ay b ?t = h" "along uy v ?u = h" using pos by (simp_all add: along_def)
    moreover have "along ax bx ?t = along ux vx ?u" using gap [of ?t ?u] h(3) pos unfolding at by simp
    ultimately show "segs_meet ax ay bx b ux uy vx v" unfolding segs_meet_def by metis
  qed
  also have "\<dots> \<longleftrightarrow> (of_int p + of_int q * ?l) * (of_int p + of_int q * ?h) \<le> 0"
    using assms(1-4) by (intro affine_zero) auto
  also have "\<dots> \<longleftrightarrow> (p + q * max ay uy) * (p + q * min b v) \<le> 0"
    by (metis of_int_add of_int_le_0_iff of_int_mult)
  also have "p + q * max ay uy = lo" by (auto simp: lo_def p_def q_def side_def max_def algebra_simps)
  also have "p + q * min b v = hi" by (auto simp: hi_def p_def q_def side_def min_def algebra_simps)
  finally show ?thesis .
qed

lemma level_meet:
  fixes ax ay bx b ux uy vx v :: int
  assumes "uy < v" "uy \<le> ay" "ay \<le> b" "b \<le> v"
  shows "segs_meet ax ay bx b ux uy vx v \<longleftrightarrow> side ux uy vx v ax ay * side ux uy vx v bx b \<le> 0"
proof
  assume "segs_meet ax ay bx b ux uy vx v"
  then show "side ux uy vx v ax ay * side ux uy vx v bx b \<le> 0" using meet_sides segs_meet_sym by blast
next
  let ?s = "side ux uy vx v ax ay" and ?s' = "side ux uy vx v bx b"
  assume "?s * ?s' \<le> 0"
  then have "(of_int ?s :: rat) * of_int ?s' \<le> 0" by (metis of_int_le_0_iff of_int_mult)
  then obtain t where t: "0 \<le> t" "t \<le> 1" "of_int ?s + of_int (?s' - ?s) * t = (0 :: rat)"
    using affine_zero [of 0 1 "of_int ?s :: rat" "of_int (?s' - ?s)"] by auto
  let ?u = "(along ay b t - of_int uy) / of_int (v - uy)"
  have pos: "0 < (of_int (v - uy) :: rat)" using assms(1) by simp
  have "of_int uy \<le> along ay b t" "along ay b t \<le> of_int v"
    using along_range [OF t(1,2), of ay b] assms by (auto simp: min_def max_def split: if_splits)
  then have "0 \<le> ?u" "?u \<le> 1" using pos by (auto simp: field_simps)
  moreover have "along ay b t = along uy v ?u" using pos by (simp add: along_def [of uy])
  moreover have "along ax bx t = along ux vx ?u"
  proof -
    have "of_int (v - uy) * (along ax bx t - of_int ux) = (along ay b t - of_int uy) * of_int (vx - ux)"
      using t(3) unfolding side_along [symmetric] by (simp only: right_minus_eq)
    then show ?thesis using pos by (simp add: along_def [of ux] field_simps)
  qed
  ultimately show "segs_meet ax ay bx b ux uy vx v" unfolding segs_meet_def using t by blast
qed

lemma apart_no_meet:
  assumes "ay \<le> b" "uy \<le> v" "\<not> (uy \<le> b \<and> ay < v)"
    and off: "\<not> on_seg ax ay bx b ux uy" "\<not> on_seg ax ay bx b vx v" "\<not> on_seg ux uy vx v ax ay" "\<not> on_seg ux uy vx v bx b"
  shows "\<not> segs_meet ax ay bx b ux uy vx v"
proof
  assume meet: "segs_meet ax ay bx b ux uy vx v"
  have v: "v = ay" using meet_boxes [OF meet] assms(1-3) by simp
  obtain t u where m: "0 \<le> t" "t \<le> 1" "0 \<le> u" "u \<le> 1" "along ax bx t = along ux vx u" "along ay b t = along uy v u"
    using meet unfolding segs_meet_def by blast
  have y: "along ay b t = of_int ay" "along uy v u = of_int v"
    using along_range [OF m(1,2), of ay b] along_range [OF m(3,4), of uy v] m(6) assms(1,2) v by auto
  show False
  proof (cases "ay = b \<and> uy = v")
    case True
    then show ?thesis using collinear_meet [OF _ _ meet] off v by simp
  next
    case False
    then consider "ay \<noteq> b" | "uy \<noteq> v" by blast
    then show ?thesis
    proof cases
      case 1
      then have "t = 0" using y(1) by (simp add: along_def)
      then have "on_seg ux uy vx v ax ay" unfolding on_seg_along using m by (intro exI [of _ u]) simp
      then show ?thesis using off by blast
    next
      case 2
      have "(1 - u) * (of_int v - of_int uy) = (0 :: rat)" using y(2) by (simp add: along_def algebra_simps)
      then have "u = 1" using 2 by simp
      then have "on_seg ax ay bx b vx v" unfolding on_seg_along using m by (intro exI [of _ t]) simp
      then show ?thesis using off by blast
    qed
  qed
qed

text \<open>
  The points to the right of a segment that goes up: above the ray to the right of its lower end, and not
  above that of its upper end.
\<close>

definition right_of :: "int \<Rightarrow> int \<Rightarrow> int \<Rightarrow> int \<Rightarrow> int \<times> int \<Rightarrow> bool" where
  "right_of ax ay bx b = (\<lambda>(px, py). ay < py \<and> py \<le> b \<and> 0 < side ax ay bx b px py)"

lemma crosses_up_side: "crosses_up ux uy vx v px py \<longleftrightarrow> uy \<le> py \<and> py < v \<and> side ux uy vx v px py < 0"
  by (auto simp: crosses_up_def side_def)

lemma crosses_up_only: "uy \<le> v \<Longrightarrow> crosses ux uy vx v px py \<longleftrightarrow> crosses_up ux uy vx v px py"
  by (auto simp: crosses_def crosses_up_def)

lemma up_edge_parity:
  assumes le: "ay \<le> b" "uy \<le> v"
    and off: "\<not> on_seg ax ay bx b ux uy" "\<not> on_seg ax ay bx b vx v" "\<not> on_seg ux uy vx v ax ay" "\<not> on_seg ux uy vx v bx b"
  shows "segs_meet ax ay bx b ux uy vx v \<longleftrightarrow>
    ((crosses ux uy vx v ax ay \<noteq> crosses ux uy vx v bx b) \<noteq> (right_of ax ay bx b (ux, uy) \<noteq> right_of ax ay bx b (vx, v)))"
proof (cases "uy \<le> b \<and> ay < v")
  case False
  then show ?thesis
    using apart_no_meet [OF le _ off] le
    by (auto simp: crosses_up_only [OF le(2)] crosses_up_side right_of_def)
next
  case True
  then have o: "uy \<le> b" "ay < v" by auto
  let ?tA = "side ux uy vx v ax ay" and ?tB = "side ux uy vx v bx b"
  let ?sU = "side ax ay bx b ux uy" and ?sV = "side ax ay bx b vx v"
  have nz: "uy \<le> ay \<Longrightarrow> ?tA \<noteq> 0" "b < v \<Longrightarrow> ?tB \<noteq> 0" "ay < uy \<Longrightarrow> ?sU \<noteq> 0" "v \<le> b \<Longrightarrow> ?sV \<noteq> 0"
    using side_on_seg off le o by force+
  let ?lo = "if uy \<le> ay then ?tA < 0 else 0 < ?sU" and ?hi = "if b < v then ?tB < 0 else 0 < ?sV"
  have "segs_meet ax ay bx b ux uy vx v \<longleftrightarrow> ?lo \<noteq> ?hi"
  proof -
    consider (upright) "ay < b" "uy < v" | (level) "ay = b" | (level') "uy = v" using le by linarith
    then show ?thesis
    proof cases
      case upright
      then show ?thesis
        using upright_meet [OF upright o(1) less_imp_le [OF o(2)], of ax bx ux vx] nz
        by (cases "uy \<le> ay"; cases "b < v") (simp_all add: mult_le_0_iff zero_le_mult_iff, linarith+)
    next
      case level
      then have "uy < v" "uy \<le> ay" "ay \<le> b" "b \<le> v" using o by auto
      then show ?thesis using level_meet [of uy v ay b ax bx ux vx] nz level o by (auto simp: mult_le_0_iff)
    next
      case level'
      then have "ay < b" "ay \<le> uy" "uy \<le> v" "v \<le> b" using o by auto
      then show ?thesis
        using level_meet [of ay b uy v ux vx ax bx] segs_meet_sym [of ax ay bx b ux uy vx v] nz level' o
        by (auto simp: mult_le_0_iff)
    qed
  qed
  moreover have "crosses ux uy vx v ax ay \<longleftrightarrow> uy \<le> ay \<and> ?tA < 0" "crosses ux uy vx v bx b \<longleftrightarrow> b < v \<and> ?tB < 0"
    using o by (auto simp: crosses_up_only [OF le(2)] crosses_up_side)
  moreover have "right_of ax ay bx b (ux, uy) \<longleftrightarrow> ay < uy \<and> 0 < ?sU" "right_of ax ay bx b (vx, v) \<longleftrightarrow> v \<le> b \<and> 0 < ?sV"
    using o by (auto simp: right_of_def)
  ultimately show ?thesis by (cases "uy \<le> ay"; cases "b < v") (simp_all, blast+)
qed

lemma edge_parity:
  assumes "ay \<le> b"
    and off: "\<not> on_seg ax ay bx b ux uy" "\<not> on_seg ax ay bx b vx v" "\<not> on_seg ux uy vx v ax ay" "\<not> on_seg ux uy vx v bx b"
  shows "segs_meet ax ay bx b ux uy vx v \<longleftrightarrow>
    ((crosses ux uy vx v ax ay \<noteq> crosses ux uy vx v bx b) \<noteq> (right_of ax ay bx b (ux, uy) \<noteq> right_of ax ay bx b (vx, v)))"
proof (cases "uy \<le> v")
  case True
  then show ?thesis using up_edge_parity [OF assms(1) True off] by blast
next
  case False
  have "segs_meet ax ay bx b vx v ux uy = segs_meet ax ay bx b ux uy vx v" using segs_meet_sym segs_meet_flip by metis
  moreover have "crosses vx v ux uy px py = crosses ux uy vx v px py" for px py by (auto simp: crosses_def)
  ultimately show ?thesis
    using up_edge_parity [of ay b v uy ax bx vx ux] False assms on_seg_sym by auto
qed

section \<open>A segment that crosses a ring\<close>

text \<open>Around a ring a property of the corners changes an even number of times.\<close>

lemma even_changes:
  fixes f :: "int \<times> int \<Rightarrow> bool"
  shows "even (length (filter (\<lambda>(u, v). f u \<noteq> f v) (edges pts)))"
proof -
  have "length (filter (\<lambda>(u, v). f u \<noteq> f v) (zip us vs)) mod 2 =
      ((\<Sum>u \<leftarrow> us. of_bool (f u)) + (\<Sum>v \<leftarrow> vs. of_bool (f v))) mod 2" if "length us = length vs" for us vs
    using that
  proof (induction us vs rule: list_induct2)
    case (Cons u us v vs)
    then show ?case by (cases "f u"; cases "f v") (simp_all, presburger+)
  qed simp
  from this [of pts "rotate1 pts"] have "length (filter (\<lambda>(u, v). f u \<noteq> f v) (edges pts)) mod 2 =
      ((\<Sum>u \<leftarrow> pts. of_bool (f u)) + (\<Sum>v \<leftarrow> rotate1 pts. of_bool (f v))) mod 2" by (simp add: edges_def)
  moreover have "(\<Sum>v \<leftarrow> rotate1 pts. of_bool (f v)) = (\<Sum>u \<leftarrow> pts. of_bool (f u) :: nat)" by (cases pts) simp_all
  ultimately show ?thesis by (simp add: even_iff_mod_2_eq_zero mult_2 [symmetric])
qed

lemma even_xor:
  "even (length (filter (\<lambda>x. P x \<noteq> Q x) xs)) \<longleftrightarrow> (even (length (filter P xs)) \<longleftrightarrow> even (length (filter Q xs)))"
  by (induction xs) auto

lemma even_meets_up:
  assumes "ay \<le> b"
    and off: "\<forall>e \<in> set (edges pts). \<not> edge_on ax ay e \<and> \<not> edge_on bx b e"
      "\<forall>(x, y) \<in> set pts. \<not> on_seg ax ay bx b x y"
  shows "even (length (filter (edges_meet ((ax, ay), (bx, b))) (edges pts))) \<longleftrightarrow>
    (even (length (filter (edge_crosses ax ay) (edges pts))) \<longleftrightarrow> even (length (filter (edge_crosses bx b) (edges pts))))"
proof -
  let ?R = "\<lambda>(u, v). right_of ax ay bx b u \<noteq> right_of ax ay bx b v"
  have "edges_meet ((ax, ay), (bx, b)) e \<longleftrightarrow> ((edge_crosses ax ay e \<noteq> edge_crosses bx b e) \<noteq> ?R e)" if "e \<in> set (edges pts)" for e
  proof -
    obtain ux uy vx v where e: "e = ((ux, uy), (vx, v))" by (metis prod.exhaust)
    then have "(ux, uy) \<in> set pts" "(vx, v) \<in> set pts"
      using that unfolding edges_def by (metis set_zip_leftD set_zip_rightD set_rotate1)+
    then have "\<not> on_seg ax ay bx b ux uy" "\<not> on_seg ax ay bx b vx v" using off(2) by auto
    moreover have "\<not> on_seg ux uy vx v ax ay" "\<not> on_seg ux uy vx v bx b"
      using bspec [OF off(1) that] by (simp_all add: e edge_on_def)
    ultimately show ?thesis using edge_parity [OF assms(1)] by (simp add: e edges_meet_def edge_crosses_def)
  qed
  then have "filter (edges_meet ((ax, ay), (bx, b))) (edges pts) =
      filter (\<lambda>e. (edge_crosses ax ay e \<noteq> edge_crosses bx b e) \<noteq> ?R e) (edges pts)" by (intro filter_cong refl) blast
  then have "even (length (filter (edges_meet ((ax, ay), (bx, b))) (edges pts))) \<longleftrightarrow>
      (even (length (filter (\<lambda>e. edge_crosses ax ay e \<noteq> edge_crosses bx b e) (edges pts))) \<longleftrightarrow>
       even (length (filter ?R (edges pts))))"
    using even_xor [of "\<lambda>e. edge_crosses ax ay e \<noteq> edge_crosses bx b e" ?R "edges pts"] by presburger
  moreover note even_xor [of "edge_crosses ax ay" "edge_crosses bx b" "edges pts"]
  ultimately show ?thesis using even_changes [of "right_of ax ay bx b" pts] by blast
qed

lemma even_meets:
  assumes "\<forall>e \<in> set (edges pts). \<not> edge_on ax ay e \<and> \<not> edge_on bx b e"
      "\<forall>(x, y) \<in> set pts. \<not> on_seg ax ay bx b x y"
  shows "even (length (filter (edges_meet ((ax, ay), (bx, b))) (edges pts))) \<longleftrightarrow>
    (even (length (filter (edge_crosses ax ay) (edges pts))) \<longleftrightarrow> even (length (filter (edge_crosses bx b) (edges pts))))"
proof (cases "ay \<le> b")
  case True
  then show ?thesis using even_meets_up assms by blast
next
  case False
  have "edges_meet ((ax, ay), (bx, b)) = edges_meet ((bx, b), (ax, ay))" by (auto simp: edges_meet_def segs_meet_flip)
  then show ?thesis using even_meets_up [of b ay pts bx ax] False assms on_seg_sym by auto
qed

text \<open>Two distinct positions of a list.\<close>

lemma two_positions:
  assumes "i < j" "j < length xs" "P (xs ! i)" "P (xs ! j)"
  shows "2 \<le> length (filter P xs)"
proof -
  have "xs = take j xs @ xs ! j # drop (Suc j) xs" using assms(2) by (rule id_take_nth_drop)
  then have l: "length (filter P xs) = length (filter P (take j xs)) + 1 + length (filter P (drop (Suc j) xs))"
    using assms(4) by (metis (no_types, lifting) filter.simps(2) filter_append length_Cons length_append add_Suc_right Suc_eq_plus1 add_Suc)
  have "take j xs ! i \<in> set (take j xs)" using assms by (intro nth_mem) simp
  then have "filter P (take j xs) \<noteq> []" using assms by (auto simp: filter_empty_conv)
  then show ?thesis using l by (cases "filter P (take j xs)") simp_all
qed

text \<open>
  A segment whose ends are outside of a ring meets none of its edges or at least two of them: at a corner
  two edges meet it, and away from the corners it crosses the ring an even number of times.
\<close>

lemma two_edges_meet:
  assumes "2 \<le> length pts" "\<not> even_odd pts ax ay True" "\<not> even_odd pts bx b True"
    and meet: "e \<in> set (edges pts)" "edges_meet ((ax, ay), (bx, b)) e"
  shows "2 \<le> length (filter (edges_meet ((ax, ay), (bx, b))) (edges pts))"
proof (cases "\<exists>(x, y) \<in> set pts. on_seg ax ay bx b x y")
  case True
  then obtain k x y where k: "k < length pts" "pts ! k = (x, y)" "on_seg ax ay bx b x y"
    by (metis (mono_tags, lifting) case_prodE in_set_conv_nth)
  have m: "edges_meet ((ax, ay), (bx, b)) ((x, y), w)" "edges_meet ((ax, ay), (bx, b)) (w, (x, y))" for w
    using on_both_meet [OF k(3)] on_seg_ends by (auto simp: edges_meet_def split: prod.split)
  have here: "edges_meet ((ax, ay), (bx, b)) (edges pts ! k)" using edges_nth [OF k(1)] k(2) m(1) by simp
  show ?thesis
  proof (cases k)
    case 0
    then have "edges_meet ((ax, ay), (bx, b)) (edges pts ! (length pts - 1))"
      using edges_nth [of "length pts - 1" pts] assms(1) k(2) m(2) by simp
    then show ?thesis using two_positions [of 0 "length pts - 1" "edges pts"] here assms(1) 0 by simp
  next
    case (Suc j)
    then have "edges_meet ((ax, ay), (bx, b)) (edges pts ! j)"
      using edges_nth [of j pts] k(1,2) m(2) Suc by auto
    then show ?thesis using two_positions [of j k "edges pts"] here k(1) Suc by simp
  qed
next
  case False
  have "even (length (filter (edges_meet ((ax, ay), (bx, b))) (edges pts)))"
    using assms(2,3) False by (subst even_meets) (auto simp: even_odd_def split: if_splits)
  moreover have "filter (edges_meet ((ax, ay), (bx, b))) (edges pts) \<noteq> []" using meet by (auto simp: filter_empty_conv)
  ultimately show ?thesis
    by (cases "length (filter (edges_meet ((ax, ay), (bx, b))) (edges pts))") (auto elim: oddE evenE)
qed

text \<open>Along a segment that meets no edge nothing changes.\<close>

lemma meets_on_edge:
  assumes "f \<in> set (edges pts)" "edge_on px py f" "on_seg ax ay bx b px py"
  shows "edges_meet ((ax, ay), (bx, b)) f"
  using assms on_both_meet by (auto simp: edge_on_def edges_meet_def split: prod.splits)

lemma no_meet_same_side:
  assumes "\<forall>f \<in> set (edges pts). \<not> edges_meet ((ax, ay), (bx, b)) f"
  shows "even_odd pts ax ay allow = even_odd pts bx b allow"
proof -
  have off: "\<forall>e \<in> set (edges pts). \<not> edge_on ax ay e \<and> \<not> edge_on bx b e"
    using assms meets_on_edge on_seg_ends by blast
  have "\<not> on_seg ax ay bx b x y" if xy: "(x, y) \<in> set pts" for x y
  proof -
    obtain k where k: "k < length pts" "pts ! k = (x, y)" using xy by (auto simp: in_set_conv_nth)
    then obtain w where w: "edges pts ! k = ((x, y), w)" using edges_nth [of k pts] by simp
    have "edges pts ! k \<in> set (edges pts)" using k(1) by (intro nth_mem) simp
    moreover have "edge_on x y (edges pts ! k)" unfolding w using on_seg_ends by (cases w) (simp add: edge_on_def)
    ultimately show ?thesis using assms meets_on_edge by blast
  qed
  moreover have "filter (edges_meet ((ax, ay), (bx, b))) (edges pts) = []" using assms by (simp only: filter_empty_conv)
  ultimately have "even (length (filter (edge_crosses ax ay) (edges pts))) \<longleftrightarrow> even (length (filter (edge_crosses bx b) (edges pts)))"
    using even_meets [OF off] by force
  then show ?thesis using off by (auto simp: even_odd_def)
qed

section \<open>Points with rational coordinates\<close>

text \<open>
  The point \<open>(px / q, py / q)\<close> is in the ring if \<open>(px, py)\<close> is in the ring with all coordinates multiplied
  by \<open>q\<close>, which has integer corners.
\<close>

definition scaled :: "int \<Rightarrow> (int \<times> int) list \<Rightarrow> (int \<times> int) list" where
  "scaled q = map (\<lambda>(x, y). (q * x, q * y))"

definition region :: "(int \<times> int) list \<Rightarrow> int \<Rightarrow> int \<Rightarrow> int \<Rightarrow> bool" where
  "region pts q px py \<longleftrightarrow> even_odd (scaled q pts) px py True"

definition scaled_edge :: "int \<Rightarrow> (int \<times> int) \<times> (int \<times> int) \<Rightarrow> (int \<times> int) \<times> (int \<times> int)" where
  "scaled_edge q = (\<lambda>((ax, ay), (bx, b)). ((q * ax, q * ay), (q * bx, q * b)))"

lemma scaled_edges: "edges (scaled q pts) = map (scaled_edge q) (edges pts)"
  by (auto simp: edges_def scaled_def scaled_edge_def rotate1_map zip_map_map)

lemma scaled_1 [simp]: "scaled 1 pts = pts"
  by (induction pts) (auto simp: scaled_def)

lemma along_scaled: "along (q * a) (q * b) t = of_int q * along a b t"
  by (simp add: along_def algebra_simps)

lemma segs_meet_scaled:
  "0 < q \<Longrightarrow> segs_meet (q * ax) (q * ay) (q * bx) (q * b) (q * cx) (q * cy) (q * dx) (q * d) = segs_meet ax ay bx b cx cy dx d"
  by (simp add: segs_meet_def along_scaled)

lemma on_seg_scaled: "0 < q \<Longrightarrow> on_seg (q * ax) (q * ay) (q * bx) (q * b) (q * px) (q * py) = on_seg ax ay bx b px py"
  by (simp add: on_seg_along along_scaled)

lemma crosses_up_scaled: "0 < q \<Longrightarrow> crosses_up (q * ax) (q * ay) (q * bx) (q * b) (q * px) (q * py) = crosses_up ax ay bx b px py"
proof -
  assume q: "0 < q"
  have "(q * b - q * ay) * (q * px - q * ax) = q * q * ((b - ay) * (px - ax))"
    "(q * py - q * ay) * (q * bx - q * ax) = q * q * ((py - ay) * (bx - ax))" by (simp_all add: algebra_simps)
  then show ?thesis using q unfolding crosses_up_def by simp
qed

lemma even_odd_scaled: "0 < q \<Longrightarrow> even_odd (scaled q pts) (q * px) (q * py) a = even_odd pts px py a"
proof -
  assume q: "0 < q"
  have "edge_on (q * px) (q * py) (scaled_edge q e) = edge_on px py e"
    "edge_crosses (q * px) (q * py) (scaled_edge q e) = edge_crosses px py e" for e
    using q by (auto simp: edge_on_def edge_crosses_def scaled_edge_def on_seg_scaled crosses_def crosses_up_scaled split: prod.splits)
  then show ?thesis by (simp add: even_odd_def scaled_edges filter_map comp_def)
qed

text \<open>A segment with an end on another one that starts at the same point is a part of it.\<close>

lemma segs_meet_part:
  assumes "on_seg ax ay bx b px py" "segs_meet ax ay px py cx cy dx d"
  shows "segs_meet ax ay bx b cx cy dx d"
proof -
  obtain s where s: "0 \<le> s" "s \<le> 1" "of_int px = along ax bx s" "of_int py = along ay b s"
    using assms(1) unfolding on_seg_along by blast
  obtain t u where m: "0 \<le> t" "t \<le> 1" "0 \<le> u" "u \<le> 1" "along ax px t = along cx dx u" "along ay py t = along cy d u"
    using assms(2) unfolding segs_meet_def by blast
  have "along ax px t = along ax bx (s * t)" "along ay py t = along ay b (s * t)"
    unfolding along_def [of ax px] along_def [of ay py] s(3,4) by (simp_all add: along_def algebra_simps)
  moreover have "0 \<le> s * t" "s * t \<le> 1" using s(1,2) m(1,2) by (auto intro: mult_le_one)
  ultimately show ?thesis using m unfolding segs_meet_def by metis
qed

text \<open>A segment that meets no edge is in the ring as a whole or outside of it as a whole.\<close>

lemma region_along:
  assumes none: "\<forall>f \<in> set (edges pts). \<not> edges_meet ((ax, ay), (bx, b)) f"
    and q: "0 < q" "on_seg (q * ax) (q * ay) (q * bx) (q * b) px py"
  shows "region pts q px py = even_odd pts ax ay True"
proof -
  have "\<not> edges_meet ((q * ax, q * ay), (px, py)) f" if f: "f \<in> set (edges (scaled q pts))" for f
  proof
    assume m: "edges_meet ((q * ax, q * ay), (px, py)) f"
    obtain cx cy dx d where g: "((cx, cy), (dx, d)) \<in> set (edges pts)" "f = ((q * cx, q * cy), (q * dx, q * d))"
      using f unfolding scaled_edges by (auto simp: scaled_edge_def)
    have "segs_meet (q * ax) (q * ay) px py (q * cx) (q * cy) (q * dx) (q * d)" using m g(2) by (simp add: edges_meet_def)
    from segs_meet_part [OF q(2) this] have "edges_meet ((ax, ay), (bx, b)) ((cx, cy), (dx, d))"
      using segs_meet_scaled [OF q(1)] by (simp add: edges_meet_def)
    then show False using none g(1) by blast
  qed
  then have "even_odd (scaled q pts) (q * ax) (q * ay) True = even_odd (scaled q pts) px py True"
    using no_meet_same_side [of "scaled q pts"] by blast
  then show ?thesis using even_odd_scaled [OF q(1)] by (simp add: region_def)
qed

text \<open>A segment shares a point with a ring exactly if it starts in it or meets one of its edges.\<close>

lemma segment_meets_region:
  "(\<exists>q px py. 0 < q \<and> on_seg (q * ax) (q * ay) (q * bx) (q * b) px py \<and> region pts q px py) \<longleftrightarrow>
    even_odd pts ax ay True \<or> (\<exists>f \<in> set (edges pts). edges_meet ((ax, ay), (bx, b)) f)"
proof
  assume "\<exists>q px py. 0 < q \<and> on_seg (q * ax) (q * ay) (q * bx) (q * b) px py \<and> region pts q px py"
  then show "even_odd pts ax ay True \<or> (\<exists>f \<in> set (edges pts). edges_meet ((ax, ay), (bx, b)) f)"
    using region_along [of pts ax ay bx b] by blast
next
  assume "even_odd pts ax ay True \<or> (\<exists>f \<in> set (edges pts). edges_meet ((ax, ay), (bx, b)) f)"
  then show "\<exists>q px py. 0 < q \<and> on_seg (q * ax) (q * ay) (q * bx) (q * b) px py \<and> region pts q px py"
  proof
    assume "even_odd pts ax ay True"
    then show ?thesis using on_seg_ends by (intro exI [of _ 1] exI [of _ ax] exI [of _ ay]) (simp add: region_def)
  next
    assume "\<exists>f \<in> set (edges pts). edges_meet ((ax, ay), (bx, b)) f"
    then obtain cx cy dx d where f: "((cx, cy), (dx, d)) \<in> set (edges pts)" "segs_meet ax ay bx b cx cy dx d"
      by (auto simp: edges_meet_def)
    then obtain t u where m: "0 \<le> t" "t \<le> 1" "0 \<le> u" "u \<le> 1" "along ax bx t = along cx dx u" "along ay b t = along cy d u"
      unfolding segs_meet_def by blast
    obtain n q where nq: "quotient_of t = (n, q)" by fastforce
    have q: "0 < q" "t = of_int n / of_int q" using nq quotient_of_denom_pos quotient_of_div by blast+
    have a: "of_int (q * x + n * (y - x)) = of_int q * along x y t" for x y
      unfolding q(2) using q(1) by (simp add: along_def field_simps)
    let ?px = "q * ax + n * (bx - ax)" and ?py = "q * ay + n * (b - ay)"
    have "on_seg (q * ax) (q * ay) (q * bx) (q * b) ?px ?py"
      unfolding on_seg_along a along_scaled using m(1,2) by blast
    moreover have "on_seg (q * cx) (q * cy) (q * dx) (q * d) ?px ?py"
      unfolding on_seg_along a along_scaled m(5,6) using m(3,4) by blast
    then have "edge_on ?px ?py (scaled_edge q ((cx, cy), (dx, d)))" by (simp add: edge_on_def scaled_edge_def)
    then have "region pts q ?px ?py" using f(1) unfolding region_def even_odd_def scaled_edges by auto
    ultimately show ?thesis using q(1) by blast
  qed
qed

end
