(* ===== verification/Ring_Segments.thy ===== *)
theory Ring_Segments
  imports Convexity Crossing_Parity
begin

text \<open>
  Segments, lines and polygons that intersect a ring, on a grid of integers: the search that stops at the
  second edge decides exactly whether there is a common point, because a segment with both ends outside
  that meets one edge meets two.
\<close>


section \<open>Searches that count\<close>

context segment_search
begin

text \<open>
  A callback that counts the segments with a property and stops at the second one: the order of the
  search does not matter for whether it counts two.
\<close>

lemma search_count:
  fixes count :: "'s \<Rightarrow> int"
  assumes "wf r" "count s < 2"
    and iter: "\<And>i s. i \<in> set (hit_indices r t) \<Longrightarrow> count s < 2 \<Longrightarrow>
      \<exists>s'. iter (seg r i) i s = Inr (count s' < 2, s') \<and> count s' = count s + of_bool (P i)"
  shows "\<exists>s'. search r t iter s = Inr s' \<and> (2 \<le> count s' \<longleftrightarrow> 2 \<le> count s + int (length (filter P (hit_indices r t))))"
proof -
  obtain "is" where m: "mset is = mset (hit_indices r t)"
    and s: "search r t iter s = rbind (run_iter iter (map (\<lambda>i. (seg r i, i)) is) s) (\<lambda>(_, s). Inr s)"
    using search_hits [OF assms(1)] unfolding hit_indices_def by blast
  have run: "\<exists>b s'. run_iter iter (map (\<lambda>i. (seg r i, i)) js) s = Inr (b, s') \<and>
      (2 \<le> count s' \<longleftrightarrow> 2 \<le> count s + int (length (filter P js)))"
    if "set js \<subseteq> set (hit_indices r t)" "count s < 2" for js s
    using that
  proof (induction js arbitrary: s)
    case (Cons j js)
    obtain s' where s': "iter (seg r j) j s = Inr (count s' < 2, s')" "count s' = count s + of_bool (P j)"
      using iter [of j s] Cons.prems by auto
    show ?case
    proof (cases "count s' < 2")
      case True
      then show ?thesis using Cons.IH [of s'] Cons.prems s' by (cases "P j") auto
    qed (use s' in auto)
  qed auto
  have "length (filter P is) = length (filter P (hit_indices r t))" using m by (metis mset_filter size_mset)
  moreover have "set is = set (hit_indices r t)" using m by (metis set_mset_mset)
  ultimately show ?thesis using run [of "is" s] assms(2) unfolding s by auto
qed

end

section \<open>The sides of a ring\<close>

text \<open>The corners without the repetition of the first one, and the edges between them.\<close>

definition corners :: "(int \<times> int) list \<Rightarrow> (int \<times> int) list" where
  "corners pts = (if last pts = hd pts then butlast pts else pts)"

abbreviation sides :: "(int \<times> int) list \<Rightarrow> ((int \<times> int) \<times> (int \<times> int)) list" where
  "sides pts \<equiv> edges (corners pts)"

lemma sides_take:
  assumes "2 \<le> length pts"
  shows "sides pts = take (length (corners pts)) (edges pts)"
proof (cases "last pts = hd pts")
  case True
  have ne: "pts \<noteq> []" using assms by auto
  have "edges (butlast pts) = take (length pts - 1) (edges pts)"
  proof (rule nth_equalityI)
    fix i assume "i < length (edges (butlast pts))"
    then have i: "i < length pts - 1" by simp
    have "pts ! (length pts - 1) = pts ! 0" using True ne by (simp add: last_conv_nth hd_conv_nth)
    moreover have "Suc (length pts - Suc (Suc 0)) = length pts - Suc 0" using assms by simp
    ultimately show "edges (butlast pts) ! i = take (length pts - 1) (edges pts) ! i"
      using i by (auto simp: edges_nth nth_butlast)
  qed simp
  then show ?thesis using True by (simp add: corners_def)
qed (simp add: corners_def)

lemma even_odd_corners:
  assumes "2 \<le> length pts"
  shows "even_odd (corners pts) = even_odd pts"
proof (cases "last pts = hd pts")
  case True
  then show ?thesis
    using sides_take [OF assms] even_odd_closed [OF assms True] by (simp add: fun_eq_iff even_odd_def corners_def)
qed (simp add: corners_def)

lemma corners_length: "3 \<le> length pts \<Longrightarrow> 2 \<le> length (corners pts)"
  by (auto simp: corners_def)

lemma edges_corner: "p \<in> set pts \<Longrightarrow> \<exists>q. (p, q) \<in> set (edges pts)"
  unfolding edges_def by (metis in_set_impl_in_set_zip1 length_rotate1)

text \<open>The edge from the last point to its repetition has no points of its own.\<close>

lemma sides_meet:
  assumes "2 \<le> length pts"
  shows "(\<exists>f \<in> set (sides pts). edges_meet e f) \<longleftrightarrow> (\<exists>f \<in> set (edges pts). edges_meet e f)"
proof (cases "last pts = hd pts")
  case True
  let ?n = "length pts - 1"
  have ne: "pts \<noteq> []" "butlast pts \<noteq> []" using assms by (cases pts; auto)+
  have "edges pts ! ?n = (hd pts, hd pts)"
    using assms ne True by (subst edges_nth) (auto simp: last_conv_nth hd_conv_nth)
  then have e: "edges pts = sides pts @ [(hd pts, hd pts)]"
    using take_Suc_conv_app_nth [of ?n "edges pts"] assms sides_take [OF assms] True by (simp add: corners_def)
  have h: "hd pts \<in> set (butlast pts)" using ne by (metis append_butlast_last_id hd_append2 hd_in_set)
  obtain q where q: "(hd pts, q) \<in> set (sides pts)" using edges_corner [OF h] True by (auto simp: corners_def)
  have "edges_meet e (hd pts, q)" if m: "edges_meet e (hd pts, hd pts)"
  proof -
    obtain ax ay bx b x y qx qy where s: "e = ((ax, ay), (bx, b))" "hd pts = (x, y)" "q = (qx, qy)" by (metis prod.exhaust)
    obtain t u where "0 \<le> t" "t \<le> 1" "along ax bx t = along x x u" "along ay b t = along y y u"
      using m unfolding s edges_meet_def segs_meet_def by auto
    then have "segs_meet ax ay bx b x y qx qy"
      unfolding segs_meet_def by (intro exI [of _ t] exI [of _ 0]) (simp add: along_def)
    then show ?thesis by (simp add: s edges_meet_def)
  qed
  then show ?thesis using q by (subst e) auto
qed (simp add: corners_def)

lemma ContainsRect_irect:
  "rect_ContainsRect R (irect a c b d) \<longleftrightarrow>
    \<not> f_of_int a < X (RMin R) \<and> \<not> X (RMax R) < f_of_int b \<and> \<not> f_of_int c < Y (RMin R) \<and> \<not> Y (RMax R) < f_of_int d"
  by (auto simp: rect_ContainsRect_def irect_def ipoint_def mk_rect_def mk_point_def)

text \<open>
  A series, of whatever kind, that runs around the points: its segments are the sides and its rectangle covers
  them. Rings made by \<open>newRing\<close> are such series, and rectangles.
\<close>

definition grid_series :: "Ring \<Rightarrow> (int \<times> int) list \<Rightarrow> bool" where
  "grid_series ring pts \<longleftrightarrow> grid_ring pts \<and> ring_ok ring \<and> \<not> sEmpty ring \<and> sNumSegments ring = int (length (sides pts)) \<and>
     (\<forall>i \<in> set [0..sNumSegments ring - 1]. s_seg ring i = edge_seg (sides pts ! nat i) \<and>
        rect_ContainsRect (sRect ring) (seg_Rect (s_seg ring i)))"

lemma grid_series_sides:
  assumes "grid_series ring pts"
  shows "s_ok ring" "sNumSegments ring = int (length (sides pts))"
    and "i \<in> set [0..sNumSegments ring - 1] \<Longrightarrow> s_seg ring i = edge_seg (sides pts ! nat i)"
    and "e \<in> set (sides pts) \<Longrightarrow> grid_edge e"
proof -
  have g: "\<forall>(x, y) \<in> set (corners pts). grid x \<and> grid y"
    using assms in_set_butlastD by (fastforce simp: grid_series_def grid_ring_def grid_def corners_def split: if_splits)
  show "s_ok ring" "sNumSegments ring = int (length (sides pts))"
    "i \<in> set [0..sNumSegments ring - 1] \<Longrightarrow> s_seg ring i = edge_seg (sides pts ! nat i)"
    using assms by (simp_all add: grid_series_def ring_ok_def)
  show "e \<in> set (sides pts) \<Longrightarrow> grid_edge e" using grid_edges [OF g] by blast
qed

lemma grid_series_in:
  assumes "grid_series ring pts" "\<bar>px\<bar> \<le> 2 ^ 24" "\<bar>py\<bar> \<le> 2 ^ 24"
  shows "in_ring ring (ipoint px py) a = even_odd pts px py a"
proof -
  have g: "grid px" "grid py" using assms(2,3) by (simp_all only: grid_def)
  have ok: "ring_ok ring" and len: "2 \<le> length pts" using assms(1) by (simp_all add: grid_series_def grid_ring_def)
  note s = grid_series_sides [OF assms(1)]
  let ?n = "length (sides pts)"
  have i: "at_height ring (ipoint px py) = filter (\<lambda>i. rect_IntersectsRect (seg_Rect (s_seg ring i)) (ray_rect (ipoint px py))) [0..int ?n - 1]"
    by (simp only: at_height_def s(2))
  have seg: "s_seg ring i = edge_seg (sides pts ! nat i)" if "i \<in> set [0..int ?n - 1]" for i
    using s(3) [unfolded s(2), OF that] .
  have e: "\<forall>e \<in> set (sides pts). grid_edge e" using s(4) by blast
  let ?on = "\<exists>i \<in> set (at_height ring (ipoint px py)). On (ray (s_seg ring i) (ipoint px py))"
    and ?odd = "odd (length (filter (\<lambda>i. In (ray (s_seg ring i) (ipoint px py))) (at_height ring (ipoint px py))))"
  have par1: "?on \<longleftrightarrow> (\<exists>e \<in> set (sides pts). edge_on px py e)"
    using parity_edges(1) [OF i seg order.refl e g] unfolding take_all [OF order.refl] by blast
  have par2: "length (filter (\<lambda>i. In (ray (s_seg ring i) (ipoint px py))) (at_height ring (ipoint px py))) =
      length (filter (edge_crosses px py) (sides pts))" if "\<not> (\<exists>e \<in> set (sides pts). edge_on px py e)"
    using parity_edges(2) [OF i seg order.refl e g] that unfolding take_all [OF order.refl] by blast
  obtain idx where "ringContainsPoint ring (ipoint px py) a = Inr \<lparr>hit = (if ?on then a else ?odd), rr_idx = idx\<rparr>"
    using ringContainsPoint_parity [OF ok, of "ipoint px py" a] by blast
  then have "in_ring ring (ipoint px py) a = (if ?on then a else ?odd)"
    by (simp only: in_ring_def sum.sel ringResult.select_convs)
  also have "\<dots> = even_odd (corners pts) px py a"
  proof (cases "\<exists>e \<in> set (sides pts). edge_on px py e")
    case True
    then show ?thesis unfolding even_odd_def par1 by (simp only: if_True)
  next
    case False
    then show ?thesis unfolding even_odd_def par1 par2 [OF False] by (simp only: if_False)
  qed
  finally have "in_ring ring (ipoint px py) a = even_odd (corners pts) px py a" .
  then show ?thesis by (simp add: even_odd_corners [OF len])
qed

lemma ring_of_grid_series: "ring_of ring pts \<Longrightarrow> grid_series ring pts"
proof -
  assume r: "ring_of ring pts"
  then obtain bs where bs: "ring = BaseSeries bs" "bs_points bs = ipoints pts" "bs_closed bs" "ring_ok ring" by (auto simp: ring_of_def)
  have g: "\<forall>(x, y) \<in> set pts. grid x \<and> grid y" "3 \<le> length pts" "grid_ring pts" using r by (auto simp: ring_of_def grid_ring_def grid_def)
  have s: "sides pts = take (length (corners pts)) (edges pts)" using g(2) by (intro sides_take) simp
  note e = ring_edges [OF bs(2,3) g(2,1)]
  have n: "sNumSegments ring = int (length (sides pts))" using e(1) bs(1) by (auto simp: corners_def)
  moreover have "s_seg ring i = edge_seg (sides pts ! nat i)" if "i \<in> set [0..sNumSegments ring - 1]" for i
  proof -
    have "nat i < length (corners pts)" using that unfolding n by auto
    then show ?thesis using e(2) [of i] that bs(1) unfolding s by simp
  qed
  moreover have "rect_ContainsRect (bs_rect bs) (item_rect bs i)" if "i \<in> set [0..series_NumSegments bs - 1]" for i
    using bs(1,4) that by (simp add: ring_ok_def searchable_def series_wf_def)
  then have "rect_ContainsRect (sRect ring) (seg_Rect (s_seg ring i))" if "i \<in> set [0..sNumSegments ring - 1]" for i
    using that bs(1) by (simp add: item_rect_def series_Rect_def)
  moreover have "\<not> sEmpty ring" using bs(1-3) g(2) by (simp add: series_Empty_def)
  ultimately show ?thesis using g(3) bs(4) by (simp add: grid_series_def)
qed

lemma newRing_grid_series: "grid_ring pts \<Longrightarrow> \<exists>ring. newRing (ipoints pts) opts = Inr ring \<and> grid_series ring pts"
  using newRing_ring_of ring_of_grid_series by blast

text \<open>The corners of a rectangle as a ring, with the first one repeated.\<close>

definition rect_corners :: "int \<Rightarrow> int \<Rightarrow> int \<Rightarrow> int \<Rightarrow> (int \<times> int) list" where
  "rect_corners x0 y0 x1 y1 = [(x0, y0), (x1, y0), (x1, y1), (x0, y1), (x0, y0)]"

lemma rect_grid_series:
  assumes "grid x0" "grid y0" "grid x1" "grid y1" "x0 \<le> x1" "y0 \<le> y1"
  shows "grid_series (RectSeries (irect x0 y0 x1 y1)) (rect_corners x0 y0 x1 y1)"
proof -
  let ?r = "irect x0 y0 x1 y1"
  have c: "corners (rect_corners x0 y0 x1 y1) = [(x0, y0), (x1, y0), (x1, y1), (x0, y1)]" by (simp add: corners_def rect_corners_def)
  have e: "sides (rect_corners x0 y0 x1 y1) = [((x0, y0), (x1, y0)), ((x1, y0), (x1, y1)), ((x1, y1), (x0, y1)), ((x0, y1), (x0, y0))]"
    unfolding c by (simp add: edges_def)
  have "ring_ok (RectSeries ?r)" using assms by (intro rect_ring_ok) (simp_all add: irect_def ipoint_def mk_rect_def mk_point_def)
  moreover have "grid_ring (rect_corners x0 y0 x1 y1)" using assms by (simp add: grid_ring_def rect_corners_def grid_def)
  moreover have seg: "rect_seg ?r 0 = iseg x0 y0 x1 y0" "rect_seg ?r 1 = iseg x1 y0 x1 y1" "rect_seg ?r 2 = iseg x1 y1 x0 y1" "rect_seg ?r 3 = iseg x0 y1 x0 y0"
    unfolding rect_ring_segs rect_sides by (simp_all add: iseg_def irect_def ipoint_def mk_rect_def mk_point_def mk_segment_def)
  moreover have "rect_ContainsRect ?r (seg_Rect (iseg x0 y0 x1 y0))" "rect_ContainsRect ?r (seg_Rect (iseg x1 y0 x1 y1))"
    "rect_ContainsRect ?r (seg_Rect (iseg x1 y1 x0 y1))" "rect_ContainsRect ?r (seg_Rect (iseg x0 y1 x0 y0))"
    using assms by (simp_all add: seg_Rect_grid ContainsRect_irect)
  moreover have "set [0..(3::int)] = {0, 1, 2, 3}" by auto
  ultimately show ?thesis
    unfolding grid_series_def sNumSegments.simps s_seg_simps sRect.simps sEmpty.simps e
    by (simp add: rect_NumSegments_def rect_Empty_def rect_Rect_def edge_seg_def)
qed

text \<open>The segments that a search of a ring finds, as sides.\<close>

lemma ring_hits:
  assumes "grid_series ring pts" "\<And>e. e \<in> set (sides pts) \<Longrightarrow> P e \<Longrightarrow> rect_IntersectsRect (seg_Rect (edge_seg e)) t"
  shows "length (filter (\<lambda>i. P (sides pts ! nat i)) (s_search.hit_indices ring t)) = length (filter P (sides pts))"
    and "(\<exists>i \<in> set (s_search.hit_indices ring t). P (sides pts ! nat i)) \<longleftrightarrow> (\<exists>e \<in> set (sides pts). P e)"
proof -
  let ?I = "[0..int (length (sides pts)) - 1]" and ?Q = "\<lambda>i. P (sides pts ! nat i)"
  note s = grid_series_sides [OF assms(1)]
  have "filter ?Q (s_search.hit_indices ring t) = filter ?Q ?I"
    unfolding s_search.hit_indices_def s(2) filter_filter
  proof (rule filter_cong)
    fix i assume i: "i \<in> set ?I"
    then have "sides pts ! nat i \<in> set (sides pts)" by (intro nth_mem) auto
    then show "(rect_IntersectsRect (seg_Rect (s_seg ring i)) t \<and> ?Q i) = ?Q i"
      using assms(2) [of "sides pts ! nat i"] s(3) [unfolded s(2), OF i] by auto
  qed simp
  moreover have "map (\<lambda>i. sides pts ! nat i) ?I = sides pts" using take_upto [of "length (sides pts)" "sides pts"] by simp
  ultimately have f: "map (\<lambda>i. sides pts ! nat i) (filter ?Q (s_search.hit_indices ring t)) = filter P (sides pts)"
    using filter_map [of P "\<lambda>i. sides pts ! nat i" ?I] by (simp add: comp_def)
  show "length (filter ?Q (s_search.hit_indices ring t)) = length (filter P (sides pts))"
    using arg_cong [OF f, of length] by simp
  moreover have "filter ?Q (s_search.hit_indices ring t) = [] \<longleftrightarrow> filter P (sides pts) = []"
    using arg_cong [OF f, of "\<lambda>xs. xs = []"] by simp
  moreover have "(\<exists>i \<in> set (s_search.hit_indices ring t). ?Q i) \<longleftrightarrow> filter ?Q (s_search.hit_indices ring t) \<noteq> []"
    by (simp add: filter_empty_conv)
  moreover have "(\<exists>e \<in> set (sides pts). P e) \<longleftrightarrow> filter P (sides pts) \<noteq> []" by (simp only: filter_empty_conv) blast
  ultimately show "(\<exists>i \<in> set (s_search.hit_indices ring t). ?Q i) \<longleftrightarrow> (\<exists>e \<in> set (sides pts). P e)" by blast
qed

section \<open>Segments that intersect a ring\<close>

lemma on_edge_in: "e \<in> set (edges pts) \<Longrightarrow> edge_on px py e \<Longrightarrow> even_odd pts px py True"
  by (auto simp: even_odd_def)

lemma edges_in: "(u, v) \<in> set (edges pts) \<Longrightarrow> u \<in> set pts \<and> v \<in> set pts"
  unfolding edges_def by (metis set_zip_leftD set_zip_rightD set_rotate1)

lemma two_sides_meet:
  assumes "3 \<le> length pts" "\<not> even_odd pts ax ay True" "\<not> even_odd pts bx b True"
  shows "2 \<le> length (filter (edges_meet ((ax, ay), (bx, b))) (sides pts)) \<longleftrightarrow> (\<exists>f \<in> set (edges pts). edges_meet ((ax, ay), (bx, b)) f)"
proof -
  let ?e = "((ax, ay), (bx, b))"
  have len: "2 \<le> length pts" "2 \<le> length (corners pts)" using assms(1) corners_length by auto
  then have out: "\<not> even_odd (corners pts) ax ay True" "\<not> even_odd (corners pts) bx b True"
    using even_odd_corners [OF len(1)] assms(2,3) by auto
  have "2 \<le> length (filter (edges_meet ?e) (sides pts)) \<longleftrightarrow> (\<exists>f \<in> set (sides pts). edges_meet ?e f)"
  proof
    assume "2 \<le> length (filter (edges_meet ?e) (sides pts))"
    then have "filter (edges_meet ?e) (sides pts) \<noteq> []" by auto
    then show "\<exists>f \<in> set (sides pts). edges_meet ?e f" by (simp only: filter_empty_conv) blast
  qed (use two_edges_meet [OF len(2) out] in blast)
  then show ?thesis unfolding sides_meet [OF len(1)] .
qed

text \<open>
  No corner of one on an edge of the other: where the border of one shape meets the other, it crosses. A segment that
  is so placed with regard to a ring counts every edge that it meets, also where the edge of the ring is not allowed.
\<close>

definition no_corner_on :: "(int \<times> int) list \<Rightarrow> ((int \<times> int) \<times> (int \<times> int)) list \<Rightarrow> bool" where
  "no_corner_on pts es \<longleftrightarrow> (\<forall>(x, y) \<in> set pts. \<forall>e \<in> set es. \<not> edge_on x y e)"

definition clear_of :: "(int \<times> int) list \<Rightarrow> (int \<times> int) \<times> (int \<times> int) \<Rightarrow> bool" where
  "clear_of pts e \<longleftrightarrow> no_corner_on pts [e] \<and> no_corner_on [fst e, snd e] (edges pts)"

lemma in_off_edges:
  assumes "no_corner_on [(x, y)] (edges pts)"
  shows "even_odd pts x y True = even_odd pts x y False"
  using assms by (auto simp: no_corner_on_def even_odd_def)

lemma clear_ends:
  assumes "clear_of pts ((ax, ay), (bx, b))"
  shows "even_odd pts ax ay e = even_odd pts ax ay True" "even_odd pts bx b e = even_odd pts bx b True"
  using assms in_off_edges [of ax ay pts] in_off_edges [of bx b pts]
  by (cases e; simp add: clear_of_def no_corner_on_def)+

lemma grid_point_eq: "grid ax \<Longrightarrow> grid ay \<Longrightarrow> grid bx \<Longrightarrow> grid b \<Longrightarrow> point_eq (ipoint ax ay) (ipoint bx b) \<longleftrightarrow> ax = bx \<and> ay = b"
  by (auto simp: point_eq_def grid_cmp ipoint_def mk_point_def)

lemma clear_counts:
  assumes "clear_of pts ((ax, ay), (bx, b))" "f \<in> set (edges pts)" "edges_meet ((ax, ay), (bx, b)) f" "grid_edge f"
    and g: "grid ax" "grid ay" "grid bx" "grid b"
  shows "\<not> (seg_CollinearPoint (iseg ax ay bx b) (SegA (edge_seg f)) \<and> seg_CollinearPoint (iseg ax ay bx b) (SegB (edge_seg f)))"
    and "\<not> point_eq (ipoint ax ay) (SegA (edge_seg f))" "\<not> point_eq (ipoint ax ay) (SegB (edge_seg f))"
    "\<not> point_eq (ipoint bx b) (SegA (edge_seg f))" "\<not> point_eq (ipoint bx b) (SegB (edge_seg f))"
proof -
  obtain cx cy dx d where f: "f = ((cx, cy), (dx, d))" by (metis prod.exhaust)
  have gf: "grid cx" "grid cy" "grid dx" "grid d" using assms(4) by (simp_all add: f grid_edge_def)
  have c: "(cx, cy) \<in> set pts" "(dx, d) \<in> set pts" using edges_in assms(2) unfolding f by blast+
  have off: "\<not> on_seg ax ay bx b cx cy" "\<not> on_seg ax ay bx b dx d" "\<not> on_seg cx cy dx d ax ay" "\<not> on_seg cx cy dx d bx b"
    using assms(1,2) c by (auto simp: clear_of_def no_corner_on_def edge_on_def f)
  have seg: "SegA (edge_seg f) = ipoint cx cy" "SegB (edge_seg f) = ipoint dx d" by (simp_all add: f edge_seg_def iseg_def)
  have meet: "segs_meet ax ay bx b cx cy dx d" using assms(3) by (simp add: f edges_meet_def)
  show "\<not> (seg_CollinearPoint (iseg ax ay bx b) (SegA (edge_seg f)) \<and> seg_CollinearPoint (iseg ax ay bx b) (SegB (edge_seg f)))"
  proof
    assume "seg_CollinearPoint (iseg ax ay bx b) (SegA (edge_seg f)) \<and> seg_CollinearPoint (iseg ax ay bx b) (SegB (edge_seg f))"
    then have col: "(cx - ax) * (b - ay) = (cy - ay) * (bx - ax)" "(dx - ax) * (b - ay) = (d - ay) * (bx - ax)"
      using g gf by (simp_all add: seg seg_CollinearPoint_grid)
    then have "(bx - ax) * (d - cy) = (b - ay) * (dx - cx)" by (simp add: algebra_simps)
    then show False using collinear_meet [OF _ col(1) meet] off by simp
  qed
  show "\<not> point_eq (ipoint ax ay) (SegA (edge_seg f))" "\<not> point_eq (ipoint ax ay) (SegB (edge_seg f))"
    "\<not> point_eq (ipoint bx b) (SegA (edge_seg f))" "\<not> point_eq (ipoint bx b) (SegB (edge_seg f))"
    using off on_seg_ends by (auto simp: seg grid_point_eq g gf)
qed

text \<open>The search that counts, for a segment with both ends outside of the ring.\<close>

lemma count_search:
  assumes "grid_series ring pts" "grid ax" "grid ay" "grid bx" "grid b" and out: "\<not> even_odd pts ax ay True"
    and place: "allow \<or> clear_of pts ((ax, ay), (bx, b))"
  shows "\<exists>st. sSearch ring (seg_Rect (iseg ax ay bx b)) (intersectsSegmentSearcher (iseg ax ay bx b) allow) (0, False, False) = Inr st \<and>
    (2 \<le> fst st \<longleftrightarrow> 2 \<le> length (filter (edges_meet ((ax, ay), (bx, b))) (sides pts)))"
proof -
  let ?e = "((ax, ay), (bx, b))" and ?seg = "iseg ax ay bx b"
  let ?it = "intersectsSegmentSearcher ?seg allow"
  have len: "2 \<le> length pts" using assms(1) by (simp add: grid_series_def grid_ring_def)
  note s = grid_series_sides [OF assms(1)]
  have ge: "grid_edge ?e" and seg: "edge_seg ?e = ?seg" using assms(2-5) by (simp_all add: grid_edge_def edge_seg_def)
  have "\<not> even_odd (corners pts) ax ay True" using out even_odd_corners [OF len] by simp
  then have free: "\<not> edge_swallowed ?e f" if "f \<in> set (sides pts)" for f
    using on_edge_in [OF that] by (auto simp: edge_swallowed_def swallowed_def edge_on_def split: prod.splits)
  have meets: "seg_IntersectsSegment ?seg (edge_seg f) = Inr (edges_meet ?e f)" if "f \<in> set (sides pts)" for f
    using edges_IntersectsSegment [OF ge s(4) [OF that]] free [OF that] seg by simp
  have near: "rect_IntersectsRect (seg_Rect (edge_seg f)) (seg_Rect ?seg)" if "f \<in> set (sides pts)" "edges_meet ?e f" for f
    using edges_meet_rects [OF ge s(4) [OF that(1)] that(2)] seg by simp
  have one: "\<exists>st'. ?it (edge_seg f) i st = Inr (fst st' < 2, st') \<and> fst st' = fst st + of_bool (edges_meet ?e f)"
    if f: "f \<in> set (sides pts)" and "fst st < 2" for f i and st :: "int \<times> bool \<times> bool"
  proof (cases "edges_meet ?e f \<and> \<not> allow")
    case True
    have "f \<in> set (edges pts)" using f sides_take [OF len] by (metis in_set_takeD)
    note c = clear_counts [OF _ this _ s(4) [OF f] assms(2-5)]
    show ?thesis using c place True meets [OF f] by (cases st) (simp add: intersectsSegmentSearcher_def iseg_def)
  next
    case False
    then show ?thesis using meets [OF f] \<open>fst st < 2\<close> by (cases st) (auto simp: intersectsSegmentSearcher_def)
  qed
  have step: "\<exists>st'. ?it (s_seg ring i) i st = Inr (fst st' < 2, st') \<and>
      fst st' = fst st + of_bool (edges_meet ?e (sides pts ! nat i))"
    if "i \<in> set (s_search.hit_indices ring (seg_Rect ?seg))" "fst st < 2" for i and st :: "int \<times> bool \<times> bool"
  proof -
    have i: "i \<in> set [0..sNumSegments ring - 1]" using that(1) by (simp add: s_search.hit_indices_def)
    then have "sides pts ! nat i \<in> set (sides pts)" unfolding s(2) by (intro nth_mem) auto
    then show ?thesis using one that(2) s(3) [OF i] by simp
  qed
  show ?thesis
    using s_search.search_count [of ring fst "(0, False, False)" "seg_Rect ?seg" ?it "\<lambda>i. edges_meet ?e (sides pts ! nat i)"]
      s(1) step ring_hits(1) [OF assms(1) near] by auto
qed

lemma grid_series_IntersectsSegment:
  assumes "grid_series ring pts" "grid ax" "grid ay" "grid bx" "grid b" "allow \<or> clear_of pts ((ax, ay), (bx, b))"
  shows "ringIntersectsSegment ring (iseg ax ay bx b) allow =
    Inr (even_odd pts ax ay True \<or> (\<exists>f \<in> set (edges pts). edges_meet ((ax, ay), (bx, b)) f))"
proof -
  have ok: "ring_ok ring" "3 \<le> length pts" using assms(1) by (simp_all add: grid_series_def grid_ring_def)
  have g: "\<bar>ax\<bar> \<le> 2 ^ 24" "\<bar>ay\<bar> \<le> 2 ^ 24" "\<bar>bx\<bar> \<le> 2 ^ 24" "\<bar>b\<bar> \<le> 2 ^ 24" using assms(2-5) by (simp_all only: grid_def)
  have same: "even_odd pts ax ay allow = even_odd pts ax ay True" "even_odd pts bx b allow = even_odd pts bx b True"
    using assms(6) clear_ends [of pts ax ay bx b allow] by auto
  have A: "\<exists>res. ringContainsPoint ring (ipoint ax ay) allow = Inr res \<and> hit res = even_odd pts ax ay True"
    and B: "\<exists>res. ringContainsPoint ring (ipoint bx b) allow = Inr res \<and> hit res = even_odd pts bx b True"
    using ring_ok_in_ring [OF ok(1)] grid_series_in [OF assms(1) g(1,2)] grid_series_in [OF assms(1) g(3,4)] same by metis+
  show ?thesis
  proof (cases "even_odd pts ax ay True \<or> even_odd pts bx b True")
    case True
    then have "even_odd pts ax ay True \<or> (\<exists>f \<in> set (edges pts). edges_meet ((ax, ay), (bx, b)) f)"
      using no_meet_same_side [of pts ax ay bx b True] by blast
    then show ?thesis using True A B by (auto simp: ringIntersectsSegment_def iseg_def)
  next
    case False
    then show ?thesis
      using count_search [OF assms(1-5) _ assms(6)] two_sides_meet [OF ok(2), of ax ay bx b] A B
      by (auto simp: ringIntersectsSegment_def iseg_def split_beta)
  qed
qed

text \<open>A segment and a ring that have a point in common.\<close>

definition shares_point :: "(int \<times> int) list \<Rightarrow> (int \<times> int) \<times> (int \<times> int) \<Rightarrow> bool" where
  "shares_point pts e \<longleftrightarrow> (\<exists>q px py. 0 < q \<and> edge_on px py (scaled_edge q e) \<and> region pts q px py)"

lemma shares_point_iff:
  "shares_point pts ((ax, ay), (bx, b)) \<longleftrightarrow>
    even_odd pts ax ay True \<or> (\<exists>f \<in> set (edges pts). edges_meet ((ax, ay), (bx, b)) f)"
  unfolding segment_meets_region [symmetric] by (simp add: shares_point_def edge_on_def scaled_edge_def)

lemma shares_point_end: "even_odd pts bx b True \<Longrightarrow> shares_point pts ((ax, ay), (bx, b))"
  unfolding shares_point_iff using no_meet_same_side [of pts ax ay bx b True] by blast

lemma grid_series_shares_point:
  assumes "grid_series ring pts" "grid_edge e" "allow \<or> clear_of pts e"
  shows "ringIntersectsSegment ring (edge_seg e) allow = Inr (shares_point pts e)"
proof -
  obtain ax ay bx b where e: "e = ((ax, ay), (bx, b))" by (metis prod.exhaust)
  show ?thesis
    using grid_series_IntersectsSegment [OF assms(1), of ax ay bx b allow] assms(2,3)
    by (simp add: e shares_point_iff grid_edge_def edge_seg_def)
qed

section \<open>Points in a ring and its corners\<close>

text \<open>
  Whatever changes at no corner does not change around a ring; so a point that the even-odd rule puts inside
  has corners strictly on each side of it.
\<close>

lemma odd_crossings:
  fixes f :: "int \<times> int \<Rightarrow> bool"
  assumes "odd (length (filter (edge_crosses px py) (edges pts)))"
    and "\<And>u v. (u, v) \<in> set (edges pts) \<Longrightarrow> edge_crosses px py (u, v) \<longleftrightarrow> f u \<noteq> f v"
  shows False
proof -
  have "filter (edge_crosses px py) (edges pts) = filter (\<lambda>(u, v). f u \<noteq> f v) (edges pts)"
    using assms(2) by (intro filter_cong) auto
  then show False using assms(1) even_changes [of f pts] by simp
qed

lemma not_crosses_right: "ux \<le> px \<Longrightarrow> vx \<le> px \<Longrightarrow> \<not> crosses ux uy vx v px py"
proof -
  have *: "\<not> crosses_up ux uy vx v px py" if "ux \<le> px" "vx \<le> px" for ux uy vx v
  proof
    assume c: "crosses_up ux uy vx v px py"
    have "(py - uy) * (vx - ux) \<le> (py - uy) * (px - ux)" using c that by (intro mult_left_mono) (auto simp: crosses_up_def)
    also have "\<dots> \<le> (v - uy) * (px - ux)" using c that by (intro mult_right_mono) (auto simp: crosses_up_def)
    finally show False using c by (simp add: crosses_up_def)
  qed
  show "ux \<le> px \<Longrightarrow> vx \<le> px \<Longrightarrow> \<not> crosses ux uy vx v px py" using * by (auto simp: crosses_def)
qed

lemma crosses_left:
  assumes "px \<le> ux" "px \<le> vx" "\<not> on_seg ux uy vx v px py"
  shows "crosses ux uy vx v px py \<longleftrightarrow> (uy \<le> py) \<noteq> (v \<le> py)"
proof -
  have *: "crosses_up ux uy vx v px py" if "px \<le> ux" "px \<le> vx" "\<not> on_seg ux uy vx v px py" "uy \<le> py" "py < v" for ux uy vx v
  proof -
    have "side ux uy vx v px py \<noteq> 0" using side_on_seg [of ux uy vx v px py] that by auto
    moreover have "side ux uy vx v px py \<le> 0"
    proof -
      have "(v - uy) * (px - ux) \<le> (py - uy) * (px - ux)" using that by (intro mult_right_mono_neg) auto
      also have "\<dots> \<le> (py - uy) * (vx - ux)" using that by (intro mult_left_mono) auto
      finally show ?thesis by (simp add: side_def)
    qed
    ultimately show ?thesis using that unfolding crosses_up_side by simp
  qed
  show ?thesis
    using *[of ux vx uy v] *[of vx ux v uy] assms on_seg_sym by (auto simp: crosses_def crosses_up_def)
qed

lemma crosses_bottom:
  assumes "py \<le> uy" "py \<le> v" "\<not> on_seg ux uy vx v px py"
  shows "crosses ux uy vx v px py \<longleftrightarrow> (uy = py \<and> px < ux) \<noteq> (v = py \<and> px < vx)"
proof -
  consider "uy = py" "v = py" | "uy = py" "py < v" | "py < uy" "v = py" | "py < uy" "py < v" using assms by linarith
  then show ?thesis
  proof cases
    case 1
    then show ?thesis using assms(3) by (auto simp: crosses_def crosses_up_def on_seg_def)
  next
    case 2
    then show ?thesis by (auto simp: crosses_def crosses_up_def mult_less_0_iff)
  next
    case 3
    then show ?thesis by (auto simp: crosses_def crosses_up_def mult_less_0_iff)
  next
    case 4
    then show ?thesis by (auto simp: crosses_def crosses_up_def)
  qed
qed

lemma strictly_surrounded:
  assumes off: "\<forall>e \<in> set (edges pts). \<not> edge_on px py e" and odd: "odd (length (filter (edge_crosses px py) (edges pts)))"
  shows "\<exists>(x, y) \<in> set pts. x < px" "\<exists>(x, y) \<in> set pts. px < x"
    "\<exists>(x, y) \<in> set pts. y < py" "\<exists>(x, y) \<in> set pts. py < y"
proof -
  have e: "\<not> on_seg ux uy vx v px py" "(ux, uy) \<in> set pts" "(vx, v) \<in> set pts" if "((ux, uy), (vx, v)) \<in> set (edges pts)" for ux uy vx v
    using edges_in [OF that] off that by (auto simp: edge_on_def)
  show "\<exists>(x, y) \<in> set pts. px < x"
  proof (rule ccontr)
    assume "\<not> ?thesis"
    then have a: "x \<le> px" if "(x, y) \<in> set pts" for x y using that by force
    have "\<not> crosses ux uy vx v px py" if "((ux, uy), (vx, v)) \<in> set (edges pts)" for ux uy vx v
      using a [OF e(2) [OF that]] a [OF e(3) [OF that]] by (rule not_crosses_right)
    then show False by (intro odd_crossings [OF odd, of "\<lambda>_. False"]) (auto simp: edge_crosses_def)
  qed
  show "\<exists>(x, y) \<in> set pts. x < px"
  proof (rule ccontr)
    assume "\<not> ?thesis"
    then have a: "px \<le> x" if "(x, y) \<in> set pts" for x y using that by force
    have "crosses ux uy vx v px py \<longleftrightarrow> (uy \<le> py) \<noteq> (v \<le> py)" if "((ux, uy), (vx, v)) \<in> set (edges pts)" for ux uy vx v
      using a [OF e(2) [OF that]] a [OF e(3) [OF that]] e(1) [OF that] by (rule crosses_left)
    then show False by (intro odd_crossings [OF odd, of "\<lambda>(x, y). y \<le> py"]) (auto simp: edge_crosses_def)
  qed
  show "\<exists>(x, y) \<in> set pts. py < y"
  proof (rule ccontr)
    assume "\<not> ?thesis"
    then have a: "y \<le> py" if "(x, y) \<in> set pts" for x y using that by force
    have "\<not> crosses ux uy vx v px py" if "((ux, uy), (vx, v)) \<in> set (edges pts)" for ux uy vx v
      using a [OF e(2) [OF that]] a [OF e(3) [OF that]] by (auto simp: crosses_def crosses_up_def)
    then show False by (intro odd_crossings [OF odd, of "\<lambda>_. False"]) (auto simp: edge_crosses_def)
  qed
  show "\<exists>(x, y) \<in> set pts. y < py"
  proof (rule ccontr)
    assume "\<not> ?thesis"
    then have a: "py \<le> y" if "(x, y) \<in> set pts" for x y using that by force
    have "crosses ux uy vx v px py \<longleftrightarrow> (uy = py \<and> px < ux) \<noteq> (v = py \<and> px < vx)" if "((ux, uy), (vx, v)) \<in> set (edges pts)" for ux uy vx v
      using a [OF e(2) [OF that]] a [OF e(3) [OF that]] e(1) [OF that] by (rule crosses_bottom)
    then show False by (intro odd_crossings [OF odd, of "\<lambda>(x, y). y = py \<and> px < x"]) (auto simp: edge_crosses_def)
  qed
qed

lemma surrounded:
  assumes "even_odd pts px py True"
  shows "\<exists>(x, y) \<in> set pts. x \<le> px" "\<exists>(x, y) \<in> set pts. px \<le> x"
    "\<exists>(x, y) \<in> set pts. y \<le> py" "\<exists>(x, y) \<in> set pts. py \<le> y"
proof -
  have "(\<exists>(x, y) \<in> set pts. x \<le> px) \<and> (\<exists>(x, y) \<in> set pts. px \<le> x) \<and>
    (\<exists>(x, y) \<in> set pts. y \<le> py) \<and> (\<exists>(x, y) \<in> set pts. py \<le> y)"
  proof (cases "\<exists>e \<in> set (edges pts). edge_on px py e")
    case True
    then obtain ux uy vx v where e: "((ux, uy), (vx, v)) \<in> set (edges pts)" "on_seg ux uy vx v px py"
      by (auto simp: edge_on_def)
    then have p: "(ux, uy) \<in> set pts" "(vx, v) \<in> set pts" using edges_in by blast+
    show ?thesis
      using p e(2) by (cases "ux \<le> vx"; cases "uy \<le> v") (force simp: on_seg_def min_def max_def)+
  next
    case False
    then have "odd (length (filter (edge_crosses px py) (edges pts)))" using assms by (simp add: even_odd_def)
    then show ?thesis using strictly_surrounded [of pts px py] False by fastforce
  qed
  then show "\<exists>(x, y) \<in> set pts. x \<le> px" "\<exists>(x, y) \<in> set pts. px \<le> x"
    "\<exists>(x, y) \<in> set pts. y \<le> py" "\<exists>(x, y) \<in> set pts. py \<le> y" by blast+
qed

text \<open>The rectangle of a ring covers its sides, and with its corners every point in it.\<close>

lemma grid_series_rect_side:
  assumes "grid_series ring pts" "e \<in> set (sides pts)"
  shows "rect_ContainsRect (sRect ring) (seg_Rect (edge_seg e))"
proof -
  note s = grid_series_sides [OF assms(1)]
  obtain k where k: "k < length (sides pts)" "e = sides pts ! k" using assms(2) by (auto simp: in_set_conv_nth)
  then have i: "int k \<in> set [0..sNumSegments ring - 1]" unfolding s(2) by auto
  then have "rect_ContainsRect (sRect ring) (seg_Rect (s_seg ring (int k)))" using assms(1) unfolding grid_series_def by blast
  then show ?thesis using s(3) [OF i] k(2) by simp
qed

lemma grid_lower: "\<not> f_of_int a < z \<Longrightarrow> a \<le> b \<Longrightarrow> grid a \<Longrightarrow> grid b \<Longrightarrow> \<not> f_of_int b < z"
  using grid_cmp(2) [of a b] by (auto simp: f64_order)

lemma grid_upper: "\<not> z < f_of_int b \<Longrightarrow> a \<le> b \<Longrightarrow> grid b \<Longrightarrow> grid a \<Longrightarrow> \<not> z < f_of_int a"
  using grid_cmp(2) [of a b] by (auto simp: f64_order)

lemma side_rect_ends:
  assumes "grid_edge ((ux, uy), (vx, v))" "rect_ContainsRect R (seg_Rect (edge_seg ((ux, uy), (vx, v))))"
  shows "rect_ContainsRect R (irect ux uy ux uy)" "rect_ContainsRect R (irect vx v vx v)"
proof -
  have g: "grid ux" "grid uy" "grid vx" "grid v" using assms(1) by (simp_all add: grid_edge_def)
  have "rect_ContainsRect R (irect (min ux vx) (min uy v) (max ux vx) (max uy v))"
    using assms(2) g by (simp add: edge_seg_def seg_Rect_grid)
  then have c: "\<not> f_of_int (min ux vx) < X (RMin R)" "\<not> X (RMax R) < f_of_int (max ux vx)"
    "\<not> f_of_int (min uy v) < Y (RMin R)" "\<not> Y (RMax R) < f_of_int (max uy v)" unfolding ContainsRect_irect by blast+
  note m = grid_minmax(1) [OF g(1,3)] grid_minmax(2) [OF g(1,3)] grid_minmax(1) [OF g(2,4)] grid_minmax(2) [OF g(2,4)]
  show "rect_ContainsRect R (irect ux uy ux uy)"
    unfolding ContainsRect_irect using grid_lower [OF c(1) _ m(1) g(1)] grid_upper [OF c(2) _ m(2) g(1)]
      grid_lower [OF c(3) _ m(3) g(2)] grid_upper [OF c(4) _ m(4) g(2)] by simp
  show "rect_ContainsRect R (irect vx v vx v)"
    unfolding ContainsRect_irect using grid_lower [OF c(1) _ m(1) g(3)] grid_upper [OF c(2) _ m(2) g(3)]
      grid_lower [OF c(3) _ m(3) g(4)] grid_upper [OF c(4) _ m(4) g(4)] by simp
qed

lemma grid_series_rect_corner:
  assumes "grid_series ring pts" "(x, y) \<in> set pts"
  shows "rect_ContainsRect (sRect ring) (irect x y x y)" "grid x" "grid y"
proof -
  have len: "3 \<le> length pts" using assms(1) by (simp add: grid_series_def grid_ring_def)
  then have ne: "pts \<noteq> []" "butlast pts \<noteq> []" by (cases pts; auto)+
  have "(x, y) \<in> set (corners pts)"
  proof (cases "last pts = hd pts")
    case True
    have "set pts = insert (last pts) (set (butlast pts))" using ne(1) by (metis append_butlast_last_id list.simps(15) rotate1.simps(2) set_rotate1 set_append Un_insert_right append_Nil2 Un_commute sup_bot_left list.set(1) list.set(2))
    moreover have "hd pts \<in> set (butlast pts)" using ne by (metis append_butlast_last_id hd_append2 hd_in_set)
    ultimately show ?thesis using assms(2) True by (auto simp: corners_def)
  qed (use assms(2) in \<open>simp add: corners_def\<close>)
  then obtain v where v: "((x, y), v) \<in> set (sides pts)" using edges_corner by blast
  obtain vx vy where e: "v = (vx, vy)" by fastforce
  note g = grid_series_sides(4) [OF assms(1) v]
  show "rect_ContainsRect (sRect ring) (irect x y x y)"
    using side_rect_ends(1) g grid_series_rect_side [OF assms(1) v] unfolding e by blast
  show "grid x" "grid y" using g by (auto simp: grid_edge_def e)
qed

lemma grid_series_rect_point:
  assumes "grid_series ring pts" "even_odd pts px py True" "grid px" "grid py"
  shows "rect_ContainsRect (sRect ring) (irect px py px py)"
proof -
  let ?R = "sRect ring"
  have c: "\<not> f_of_int x < X (RMin ?R)" "\<not> X (RMax ?R) < f_of_int x"
    "\<not> f_of_int y < Y (RMin ?R)" "\<not> Y (RMax ?R) < f_of_int y" if "(x, y) \<in> set pts" for x y
    using grid_series_rect_corner(1) [OF assms(1) that] unfolding ContainsRect_irect by simp_all
  note g = grid_series_rect_corner(2,3) [OF assms(1)]
  obtain x1 y1 where p1: "(x1, y1) \<in> set pts" "x1 \<le> px" using surrounded(1) [OF assms(2)] by blast
  obtain x2 y2 where p2: "(x2, y2) \<in> set pts" "px \<le> x2" using surrounded(2) [OF assms(2)] by blast
  obtain x3 y3 where p3: "(x3, y3) \<in> set pts" "y3 \<le> py" using surrounded(3) [OF assms(2)] by blast
  obtain x4 y4 where p4: "(x4, y4) \<in> set pts" "py \<le> y4" using surrounded(4) [OF assms(2)] by blast
  show ?thesis
    unfolding ContainsRect_irect
    using grid_lower [OF c(1) [OF p1(1)] p1(2) g(1) [OF p1(1)] assms(3)]
      grid_upper [OF c(2) [OF p2(1)] p2(2) g(1) [OF p2(1)] assms(3)]
      grid_lower [OF c(3) [OF p3(1)] p3(2) g(2) [OF p3(1)] assms(4)]
      grid_upper [OF c(4) [OF p4(1)] p4(2) g(2) [OF p4(1)] assms(4)] by blast
qed

section \<open>Lines that intersect a ring\<close>

lemma rect_meets_point:
  assumes "rect_ContainsRect R (irect x y x y)" "rect_ContainsRect S (irect x y x y)" "grid x" "grid y"
  shows "rect_IntersectsRect R S"
proof -
  have "rect_ok (irect x y x y)" "rect_IntersectsRect (irect x y x y) (irect x y x y)"
    using assms(3,4) by (simp_all add: rect_ok_def rect_IntersectsRect_grid)
  then show ?thesis using intersect_mono [OF assms(1,2)] by blast
qed

lemma legs_corner:
  assumes "2 \<le> length pts" "p \<in> set pts"
  shows "\<exists>v. (p, v) \<in> set (legs pts) \<or> (v, p) \<in> set (legs pts)"
proof -
  obtain k where k: "k < length pts" "p = pts ! k" using assms(2) by (auto simp: in_set_conv_nth)
  show ?thesis
  proof (cases "k < length pts - 1")
    case True
    then have "legs pts ! k \<in> set (legs pts)" by (intro nth_mem) simp
    then show ?thesis using legs_nth [OF True] k(2) by metis
  next
    case False
    then have j: "k - 1 < length pts - 1" "Suc (k - 1) = k" using assms(1) k(1) by auto
    then have "legs pts ! (k - 1) \<in> set (legs pts)" by (intro nth_mem) simp
    then show ?thesis using legs_nth [OF j(1)] k(2) j(2) by metis
  qed
qed

text \<open>The rectangle of a ring meets every rectangle around a segment that has a point in the ring.\<close>

lemma grid_series_meets_rect:
  assumes "grid_series ring pts" "grid_edge e" "rect_ContainsRect S (seg_Rect (edge_seg e))" "shares_point pts e"
  shows "rect_IntersectsRect (sRect ring) S"
proof -
  obtain ax ay bx b where e: "e = ((ax, ay), (bx, b))" by (metis prod.exhaust)
  have pt: "rect_ContainsRect S (irect ax ay ax ay)" "grid ax" "grid ay"
    using side_rect_ends(1) assms(2,3) unfolding e by (auto simp: grid_edge_def)
  from assms(4) show ?thesis unfolding e shares_point_iff
  proof
    assume "even_odd pts ax ay True"
    then show ?thesis using grid_series_rect_point [OF assms(1) _ pt(2,3)] rect_meets_point pt by blast
  next
    have len: "2 \<le> length pts" using assms(1) by (simp add: grid_series_def grid_ring_def)
    assume "\<exists>f \<in> set (edges pts). edges_meet ((ax, ay), (bx, b)) f"
    then obtain f where f: "f \<in> set (sides pts)" "edges_meet e f" using sides_meet [OF len] e by blast
    note gf = grid_series_sides(4) [OF assms(1) f(1)]
    show ?thesis
      using intersect_mono [OF grid_series_rect_side [OF assms(1) f(1)] assms(3)]
        edges_meet_rects [OF assms(2) gf f(2)] edge_rect_ok assms(2) gf by blast
  qed
qed

text \<open>The two loops of \<open>ringIntersectsLine\<close>: over the points of the line and over its segments.\<close>

lemma legs_ends: "(u, v) \<in> set (legs ls) \<Longrightarrow> u \<in> set ls \<and> v \<in> set ls"
proof -
  assume "(u, v) \<in> set (legs ls)"
  then have "u \<in> set ls" "v \<in> set (tl ls)" unfolding legs_def using set_zip_leftD set_zip_rightD by fast+
  then show ?thesis by (cases ls) auto
qed

lemma legs_clear:
  assumes "no_corner_on pts (legs qts)" "no_corner_on qts (edges pts)"
  shows "\<forall>e \<in> set (legs qts). clear_of pts e"
proof
  fix e assume e: "e \<in> set (legs qts)"
  then have "fst e \<in> set qts" "snd e \<in> set qts" using legs_ends [of "fst e" "snd e" qts] by simp_all
  then show "clear_of pts e" using assms e by (auto simp: clear_of_def no_corner_on_def)
qed

lemma line_points_loop:
  assumes "grid_series ring pts" "line_of line qts" "allow \<or> no_corner_on qts (edges pts)"
  shows "exM (\<lambda>i. rbind (series_PointAt line i) (\<lambda>p. rbind (ringContainsPoint ring p allow) (\<lambda>r. Inr (hit r))))
      [0..series_NumPoints line - 1] = Inr (\<exists>(x, y) \<in> set qts. even_odd pts x y True)"
proof -
  have pts: "bs_points line = ipoints qts" and gl: "grid_line qts" using assms(2) by (auto simp: line_of_def)
  have ok: "ring_ok ring" using assms(1) by (simp add: grid_series_def)
  let ?p = "\<lambda>i. case qts ! nat i of (x, y) \<Rightarrow> even_odd pts x y True"
  have "exM (\<lambda>i. rbind (series_PointAt line i) (\<lambda>p. rbind (ringContainsPoint ring p allow) (\<lambda>r. Inr (hit r))))
      [0..series_NumPoints line - 1] = Inr (\<exists>i \<in> set [0..series_NumPoints line - 1]. ?p i)"
  proof (rule exM_total)
    fix i assume "i \<in> set [0..series_NumPoints line - 1]"
    then have i: "0 \<le> i" "i < int (length qts)" by (auto simp: series_NumPoints_def pts)
    obtain x y where xy: "qts ! nat i = (x, y)" by fastforce
    have "(x, y) \<in> set qts" using i xy by (metis nat_less_iff nth_mem)
    then have "\<bar>x\<bar> \<le> 2 ^ 24" "\<bar>y\<bar> \<le> 2 ^ 24" using gl unfolding grid_line_def by blast+
    note r = grid_series_in [OF assms(1) this]
    have same: "even_odd pts x y allow = even_odd pts x y True"
      using assms(3) in_off_edges [of x y pts] \<open>(x, y) \<in> set qts\<close> by (cases allow) (auto simp: no_corner_on_def)
    have "series_PointAt line i = Inr (ipoint x y)" using i xy by (simp add: series_PointAt_def index_at_def pts nat_less_iff)
    then show "rbind (series_PointAt line i) (\<lambda>p. rbind (ringContainsPoint ring p allow) (\<lambda>r. Inr (hit r))) = Inr (?p i)"
      using ring_ok_in_ring [OF ok, of "ipoint x y" allow] r same xy by auto
  qed
  also have "(\<exists>i \<in> set [0..series_NumPoints line - 1]. ?p i) \<longleftrightarrow> (\<exists>(x, y) \<in> set qts. even_odd pts x y True)"
    using ex_upto [of qts "\<lambda>(x, y). even_odd pts x y True"] by (simp add: series_NumPoints_def pts)
  finally show ?thesis .
qed

lemma line_segments_loop:
  assumes "grid_series ring pts" "line_of line qts" "allow \<or> (\<forall>e \<in> set (legs qts). clear_of pts e)"
  shows "exM (\<lambda>i. rbind (series_SegmentAt line i) (\<lambda>s. ringIntersectsSegment ring s allow)) [0..series_NumSegments line - 1] =
    Inr (\<exists>e \<in> set (legs qts). shares_point pts e)"
proof -
  have gl: "grid_line qts" using assms(2) by (simp add: line_of_def)
  have "exM (\<lambda>i. rbind (series_SegmentAt line i) (\<lambda>s. ringIntersectsSegment ring s allow)) [0..series_NumSegments line - 1] =
      Inr (\<exists>i \<in> set [0..series_NumSegments line - 1]. shares_point pts (legs qts ! nat i))"
  proof (rule exM_total)
    fix i assume i: "i \<in> set [0..series_NumSegments line - 1]"
    then have "series_SegmentAt line i = Inr (item_seg line i)"
      using wf_item_ok item_okD(1) assms(2) by (simp add: line_of_def searchable_def series_wf_def)
    moreover have e: "legs qts ! nat i \<in> set (legs qts)" using i line_segs(1) [OF assms(2)] by auto
    moreover have "grid_edge (legs qts ! nat i)" using e by (rule legs_grid [OF gl])
    moreover have "allow \<or> clear_of pts (legs qts ! nat i)" using assms(3) e by blast
    ultimately show "rbind (series_SegmentAt line i) (\<lambda>s. ringIntersectsSegment ring s allow) = Inr (shares_point pts (legs qts ! nat i))"
      using line_segs(2) [OF assms(2) i] grid_series_shares_point [OF assms(1), of "legs qts ! nat i" allow] by simp
  qed
  also have "(\<exists>i \<in> set [0..series_NumSegments line - 1]. shares_point pts (legs qts ! nat i)) \<longleftrightarrow> (\<exists>e \<in> set (legs qts). shares_point pts e)"
    unfolding line_segs(1) [OF assms(2)] by (rule ex_upto)
  finally show ?thesis .
qed

lemma grid_series_IntersectsLine:
  assumes "grid_series ring pts" "line_of line qts" "allow \<or> no_corner_on pts (legs qts) \<and> no_corner_on qts (edges pts)"
  shows "ringIntersectsLine ring line allow = Inr (\<exists>e \<in> set (legs qts). shares_point pts e)"
proof -
  have place: "allow \<or> no_corner_on qts (edges pts)" "allow \<or> (\<forall>e \<in> set (legs qts). clear_of pts e)"
    using assms(3) legs_clear [of pts qts] by blast+
  have ne: "\<not> sEmpty ring" "series_Empty (Some line) \<longleftrightarrow> length qts < 2"
    using assms by (auto simp: grid_series_def line_of_def series_Empty_def)
  have near: "2 \<le> length qts \<and> rect_IntersectsRect (sRect ring) (series_Rect line)" if e: "e \<in> set (legs qts)" "shares_point pts e" for e
  proof
    show "2 \<le> length qts" using e(1) by (cases qts rule: list.exhaust; cases "tl qts") (auto simp: legs_def)
    have "grid_edge e" using legs_grid [OF _ e(1)] assms(2) by (simp add: line_of_def)
    then show "rect_IntersectsRect (sRect ring) (series_Rect line)"
      using grid_series_meets_rect [OF assms(1) _ line_rect_covers [OF assms(2) e(1)] e(2)] by blast
  qed
  have "\<exists>e \<in> set (legs qts). shares_point pts e" if p: "2 \<le> length qts" "(x, y) \<in> set qts" "even_odd pts x y True" for x y
  proof -
    obtain vx vy where v: "((x, y), (vx, vy)) \<in> set (legs qts) \<or> ((vx, vy), (x, y)) \<in> set (legs qts)"
      using legs_corner [OF p(1,2)] by fastforce
    moreover have "shares_point pts ((x, y), (vx, vy))" using p(3) by (simp add: shares_point_iff)
    moreover have "shares_point pts ((vx, vy), (x, y))" using p(3) by (rule shares_point_end)
    ultimately show ?thesis by blast
  qed
  then have points: "\<exists>e \<in> set (legs qts). shares_point pts e" if "2 \<le> length qts" "\<exists>(x, y) \<in> set qts. even_odd pts x y True"
    using that by blast
  show ?thesis
  proof (cases "2 \<le> length qts \<and> rect_IntersectsRect (sRect ring) (series_Rect line)")
    case False
    then have "\<not> (\<exists>e \<in> set (legs qts). shares_point pts e)" using near by blast
    then show ?thesis using False ne by (auto simp: ringIntersectsLine_def)
  next
    case True
    then show ?thesis
      unfolding ringIntersectsLine_def using ne points line_points_loop [OF assms(1,2) place(1)] line_segments_loop [OF assms(1,2) place(2)]
      by (cases "\<exists>(x, y) \<in> set qts. even_odd pts x y True") simp_all
  qed
qed

text \<open>
  C11: on integer coordinates of at most 2 ^ 24 \<open>ringIntersectsSegment\<close> with the edge allowed decides exactly
  whether some point of the segment, with any rational coordinates \<open>(px / q, py / q)\<close>, is in the ring: stopping at the
  second edge that meets the segment loses nothing, with and without an index.
\<close>

theorem ringIntersectsSegment_exact:
  assumes "grid_ring pts" "\<bar>ax\<bar> \<le> 2 ^ 24" "\<bar>ay\<bar> \<le> 2 ^ 24" "\<bar>bx\<bar> \<le> 2 ^ 24" "\<bar>b\<bar> \<le> 2 ^ 24"
  shows "\<exists>ring. newRing (map (\<lambda>(x, y). ipoint x y) pts) opts = Inr ring \<and>
    ringIntersectsSegment ring (iseg ax ay bx b) True =
      Inr (\<exists>q px py. 0 < q \<and> on_seg (q * ax) (q * ay) (q * bx) (q * b) px py \<and> region pts q px py)"
  using newRing_grid_series [OF assms(1), of opts] grid_series_IntersectsSegment [of _ pts ax ay bx b True] assms(2-5)
  unfolding grid_def segment_meets_region by blast

theorem ringIntersectsSegment_exact_witness:
  "\<exists>ring. newRing (map (\<lambda>(x, y). ipoint x y) [(0, 0), (4, 0), (0, 4)]) None = Inr ring \<and>
    ringIntersectsSegment ring (iseg (- 1) 2 5 2) True = Inr True"
proof -
  have "on_seg (- 1) 2 5 2 1 2 \<and> region [(0, 0), (4, 0), (0, 4)] 1 1 2"
    by (simp add: region_def even_odd_def edges_def edge_on_def edge_crosses_def on_seg_def crosses_def crosses_up_def)
  then have "\<exists>q px py. 0 < q \<and> on_seg (q * - 1) (q * 2) (q * 5) (q * 2) px py \<and> region [(0, 0), (4, 0), (0, 4)] q px py"
    by (intro exI [of _ 1] exI [of _ 2]) auto
  then show ?thesis
    using ringIntersectsSegment_exact [of "[(0, 0), (4, 0), (0, 4)]" "- 1" 2 5 2 None]
    by (simp add: grid_ring_def)
qed

end
