(* ===== verification/Ring_Contact.thy ===== *)
theory Ring_Contact
  imports Ring_Segments
begin

text \<open>
  Rings and polygons that intersect, on a grid of integers: two rings have a point in common exactly if an
  edge of one has a point of the other, and to look at the edges of the ring with the smaller rectangle, as
  \<open>ringIntersectsRing\<close> does, is enough.
\<close>


section \<open>Walking along a segment\<close>

text \<open>The point of the segment from \<open>(ax, ay)\<close> to \<open>(bx, b)\<close> at the parameter \<open>t\<close> is in the ring, or on an edge.\<close>

definition inside_at :: "(int \<times> int) list \<Rightarrow> int \<Rightarrow> int \<Rightarrow> int \<Rightarrow> int \<Rightarrow> rat \<Rightarrow> bool" where
  "inside_at pts ax ay bx b t = (case quotient_of t of (n, q) \<Rightarrow> region pts q (q * ax + n * (bx - ax)) (q * ay + n * (b - ay)))"

definition hits_edge :: "int \<Rightarrow> int \<Rightarrow> int \<Rightarrow> int \<Rightarrow> rat \<Rightarrow> (int \<times> int) \<times> (int \<times> int) \<Rightarrow> bool" where
  "hits_edge ax ay bx b t = (\<lambda>((cx, cy), (dx, d)).
     \<exists>u. 0 \<le> u \<and> u \<le> 1 \<and> along ax bx t = along cx dx u \<and> along ay b t = along cy d u)"

lemma region_scale: "0 < k \<Longrightarrow> 0 < q \<Longrightarrow> region pts (k * q) (k * px) (k * py) = region pts q px py"
proof -
  assume "0 < k"
  have "scaled (k * q) pts = scaled k (scaled q pts)" by (auto simp: scaled_def mult.assoc)
  then show ?thesis using even_odd_scaled [OF \<open>0 < k\<close>] by (simp add: region_def)
qed

lemma region_ratio:
  assumes "0 < q" "0 < q'" "of_int px / of_int q = (of_int px' / of_int q' :: rat)" "of_int py / of_int q = (of_int py' / of_int q' :: rat)"
  shows "region pts q px py = region pts q' px' py'"
proof -
  have e: "(of_int (q' * px) :: rat) = of_int (q * px')" "(of_int (q' * py) :: rat) = of_int (q * py')"
    using assms by (simp_all add: field_simps)
  then have "q' * px = q * px'" "q' * py = q * py'" by (simp_all only: of_int_eq_iff)
  then show ?thesis using region_scale [OF assms(2,1), of pts px py] region_scale [OF assms(1,2), of pts px' py'] by (simp add: mult.commute)
qed

lemma inside_at_region:
  assumes "0 < q" "of_int px = of_int q * along ax bx t" "of_int py = of_int q * along ay b t"
  shows "inside_at pts ax ay bx b t = region pts q px py"
proof -
  obtain n d where nd: "quotient_of t = (n, d)" by fastforce
  have d: "0 < d" "t = of_int n / of_int d" using nd quotient_of_denom_pos quotient_of_div by blast+
  have a: "of_int (d * x + n * (y - x)) / of_int d = along x y t" for x y
    unfolding d(2) using d(1) by (simp add: along_def field_simps)
  have "region pts d (d * ax + n * (bx - ax)) (d * ay + n * (b - ay)) = region pts q px py"
    by (rule region_ratio [OF d(1) assms(1)]) (use assms in \<open>simp_all only: a, simp_all\<close>)
  then show ?thesis by (simp add: inside_at_def nd)
qed

lemma common_denominator:
  obtains q :: int and px py where "0 < q" "of_int px = of_int q * along ax bx t" "of_int py = of_int q * along ay b t"
proof -
  obtain n d where nd: "quotient_of t = (n, d)" by fastforce
  have d: "0 < d" "t = of_int n / of_int d" using nd quotient_of_denom_pos quotient_of_div by blast+
  have "of_int (d * x + n * (y - x)) = of_int d * along x y t" for x y
    unfolding d(2) using d(1) by (simp add: along_def field_simps)
  then show ?thesis using that [OF d(1)] by blast
qed

lemma hits_edge_scaled:
  assumes "hits_edge ax ay bx b t f" "of_int px = of_int q * along ax bx t" "of_int py = of_int q * along ay b t"
  shows "edge_on px py (scaled_edge q f)"
proof -
  obtain cx cy dx d where f: "f = ((cx, cy), (dx, d))" by (metis prod.exhaust)
  obtain u where u: "0 \<le> u" "u \<le> 1" "along ax bx t = along cx dx u" "along ay b t = along cy d u"
    using assms(1) unfolding f hits_edge_def by blast
  have "of_int px = along (q * cx) (q * dx) u" "of_int py = along (q * cy) (q * d) u"
    unfolding assms(2,3) u(3,4) along_scaled by simp_all
  then have "on_seg (q * cx) (q * cy) (q * dx) (q * d) px py" unfolding on_seg_along using u(1,2) by blast
  then show ?thesis by (simp add: f scaled_edge_def edge_on_def)
qed

lemma hits_inside: "f \<in> set (edges pts) \<Longrightarrow> hits_edge ax ay bx b t f \<Longrightarrow> inside_at pts ax ay bx b t"
proof -
  assume f: "f \<in> set (edges pts)" "hits_edge ax ay bx b t f"
  obtain q px py where p: "0 < q" "of_int px = of_int q * along ax bx t" "of_int py = of_int q * along ay b t"
    by (rule common_denominator)
  have "edge_on px py (scaled_edge q f)" by (rule hits_edge_scaled [OF f(2) p(2,3)])
  then have "region pts q px py" using f(1) unfolding region_def even_odd_def scaled_edges by auto
  then show ?thesis using inside_at_region [OF p] by simp
qed

lemma hits_shares: "hits_edge ax ay bx b t e \<Longrightarrow> inside_at pts ax ay bx b t \<Longrightarrow> shares_point pts e"
proof -
  assume e: "hits_edge ax ay bx b t e" "inside_at pts ax ay bx b t"
  obtain q px py where p: "0 < q" "of_int px = of_int q * along ax bx t" "of_int py = of_int q * along ay b t"
    by (rule common_denominator)
  have "edge_on px py (scaled_edge q e)" by (rule hits_edge_scaled [OF e(1) p(2,3)])
  then show ?thesis using inside_at_region [OF p] e(2) p(1) unfolding shares_point_def by blast
qed

text \<open>Between a point in the ring and one outside of it there is an edge.\<close>

lemma walk:
  assumes "t1 \<le> t2" "inside_at pts ax ay bx b t1 \<noteq> inside_at pts ax ay bx b t2"
  shows "\<exists>f \<in> set (edges pts). \<exists>t. t1 \<le> t \<and> t \<le> t2 \<and> hits_edge ax ay bx b t f"
proof -
  obtain q1 x1 y1 where p1: "0 < q1" "of_int x1 = of_int q1 * along ax bx t1" "of_int y1 = of_int q1 * along ay b t1"
    by (rule common_denominator)
  obtain q2 x2 y2 where p2: "0 < q2" "of_int x2 = of_int q2 * along ax bx t2" "of_int y2 = of_int q2 * along ay b t2"
    by (rule common_denominator)
  let ?q = "q1 * q2"
  have q: "0 < ?q" using p1(1) p2(1) by simp
  have e1: "of_int (q2 * x1) = of_int ?q * along ax bx t1" "of_int (q2 * y1) = of_int ?q * along ay b t1" using p1 by simp_all
  have e2: "of_int (q1 * x2) = of_int ?q * along ax bx t2" "of_int (q1 * y2) = of_int ?q * along ay b t2" using p2 by simp_all
  have "even_odd (scaled ?q pts) (q2 * x1) (q2 * y1) True \<noteq> even_odd (scaled ?q pts) (q1 * x2) (q1 * y2) True"
    using assms(2) inside_at_region [OF q e1] inside_at_region [OF q e2] by (simp add: region_def)
  then obtain f where f: "f \<in> set (edges (scaled ?q pts))" "edges_meet ((q2 * x1, q2 * y1), (q1 * x2, q1 * y2)) f"
    using no_meet_same_side by blast
  then obtain cx cy dx d where g: "((cx, cy), (dx, d)) \<in> set (edges pts)" "f = ((?q * cx, ?q * cy), (?q * dx, ?q * d))"
    unfolding scaled_edges by (auto simp: scaled_edge_def)
  obtain s u where m: "0 \<le> s" "s \<le> 1" "0 \<le> u" "u \<le> 1"
    "along (q2 * x1) (q1 * x2) s = along (?q * cx) (?q * dx) u" "along (q2 * y1) (q1 * y2) s = along (?q * cy) (?q * d) u"
    using f(2) unfolding g(2) edges_meet_def segs_meet_def by auto
  let ?t = "t1 + s * (t2 - t1)"
  have pos: "(of_int ?q :: rat) \<noteq> 0" using p1(1) p2(1) by simp
  have comb: "along (q2 * x1) (q1 * x2) s = of_int ?q * along ax bx ?t" "along (q2 * y1) (q1 * y2) s = of_int ?q * along ay b ?t"
    unfolding along_def [of "q2 * x1"] along_def [of "q2 * y1"] e1 e2 by (simp_all add: along_def algebra_simps)
  have "of_int ?q * along ax bx ?t = of_int ?q * along cx dx u" "of_int ?q * along ay b ?t = of_int ?q * along cy d u"
    using m(5,6) unfolding comb along_scaled by simp_all
  then have "along ax bx ?t = along cx dx u" "along ay b ?t = along cy d u" using pos by simp_all
  then have "hits_edge ax ay bx b ?t ((cx, cy), (dx, d))" using m(3,4) unfolding hits_edge_def by auto
  moreover have "t1 \<le> ?t" "?t \<le> t2"
  proof -
    have "0 \<le> s * (t2 - t1)" "s * (t2 - t1) \<le> 1 * (t2 - t1)" using m(1) assms(1) mult_right_mono [OF m(2), of "t2 - t1"] by simp_all
    then show "t1 \<le> ?t" "?t \<le> t2" by auto
  qed
  ultimately show ?thesis using g(1) by blast
qed

section \<open>Two rings with a point in common\<close>

text \<open>A direction that is parallel to no edge, so that each edge is hit at most once.\<close>

lemma hits_once:
  assumes "hits_edge ax ay (ax + M) (ay + 1) t ((cx, cy), (dx, d))" "hits_edge ax ay (ax + M) (ay + 1) t' ((cx, cy), (dx, d))"
    and "\<bar>dx - cx\<bar> < M"
  shows "t = t'"
proof -
  let ?R = "M * (d - cy) - (dx - cx)"
  obtain u where u: "along ax (ax + M) t = along cx dx u" "along ay (ay + 1) t = along cy d u"
    using assms(1) by (auto simp: hits_edge_def)
  obtain v where v: "along ax (ax + M) t' = along cx dx v" "along ay (ay + 1) t' = along cy d v"
    using assms(2) by (auto simp: hits_edge_def)
  show ?thesis
  proof (cases "?R = 0")
    case False
    have "t * of_int ?R = t' * of_int ?R"
      using meet_params(1) [OF u] meet_params(1) [OF v] by simp
    then show ?thesis using False by (simp del: of_int_diff of_int_mult)
  next
    case True
    have "d - cy = 0"
    proof (rule ccontr)
      assume "d - cy \<noteq> 0"
      then have "1 \<le> \<bar>d - cy\<bar>" by linarith
      then have "M * 1 \<le> M * \<bar>d - cy\<bar>" using assms(3) by (intro mult_left_mono) auto
      moreover have "0 < M" using assms(3) abs_ge_zero [of "dx - cx"] by linarith
      moreover have "dx - cx = M * (d - cy)" using True by simp
      ultimately have "M \<le> \<bar>dx - cx\<bar>" by (simp add: abs_mult)
      then show False using assms(3) by simp
    qed
    then show ?thesis using u(2) v(2) by (simp add: along_def)
  qed
qed

lemma finite_hits:
  assumes "\<forall>(x, y) \<in> set pts. \<bar>x\<bar> \<le> W"
  shows "finite {t. \<exists>f \<in> set (edges pts). hits_edge ax ay (ax + (2 * W + 1)) (ay + 1) t f}"
proof -
  let ?H = "\<lambda>f. {t. hits_edge ax ay (ax + (2 * W + 1)) (ay + 1) t f}"
  have "finite (?H f)" if "f \<in> set (edges pts)" for f
  proof -
    obtain cx cy dx d where f: "f = ((cx, cy), (dx, d))" by (metis prod.exhaust)
    then have "\<bar>cx\<bar> \<le> W" "\<bar>dx\<bar> \<le> W" using edges_in assms that by blast+
    then have "\<bar>dx - cx\<bar> < 2 * W + 1" by linarith
    then have "t = t'" if "t \<in> ?H f" "t' \<in> ?H f" for t t' using hits_once that unfolding f by blast
    then have "?H f = {} \<or> (\<exists>t. ?H f = {t})" by blast
    then show ?thesis by (metis finite.emptyI finite.insertI)
  qed
  then have "finite (\<Union>f \<in> set (edges pts). ?H f)" by simp
  moreover have "(\<Union>f \<in> set (edges pts). ?H f) = {t. \<exists>f \<in> set (edges pts). hits_edge ax ay (ax + (2 * W + 1)) (ay + 1) t f}" by blast
  ultimately show ?thesis by simp
qed

lemma inside_at_0: "inside_at pts px py bx b 0 = even_odd pts px py True"
  using inside_at_region [of 1 px px bx 0 py py b pts] by (simp add: region_def)

lemma inside_at_1: "inside_at pts px py bx b 1 = even_odd pts bx b True"
  using inside_at_region [of 1 bx px bx 1 b py b pts] by (simp add: region_def)

text \<open>The first edge on a walk from a point in the ring to a point outside of it.\<close>

lemma first_hit:
  assumes "even_odd pts px py True"
  obtains bx b t0 f where "f \<in> set (edges pts)" "hits_edge px py bx b t0 f" "0 \<le> t0"
    "\<And>t f'. f' \<in> set (edges pts) \<Longrightarrow> hits_edge px py bx b t f' \<Longrightarrow> 0 \<le> t \<Longrightarrow> t0 \<le> t"
proof -
  define W where "W = Max (insert \<bar>px\<bar> ((\<lambda>(x, y). \<bar>x\<bar>) ` set pts))"
  let ?M = "2 * W + 1"
  let ?hits = "\<lambda>t f. hits_edge px py (px + ?M) (py + 1) t f"
  have W: "\<bar>px\<bar> \<le> W" "\<forall>(x, y) \<in> set pts. \<bar>x\<bar> \<le> W" unfolding W_def by (auto intro!: Max_ge)
  have out: "\<not> even_odd pts (px + ?M) (py + 1) True"
  proof
    assume "even_odd pts (px + ?M) (py + 1) True"
    then obtain x y where x: "(x, y) \<in> set pts" "px + ?M \<le> x" using surrounded(2) by blast
    have "\<bar>x\<bar> \<le> W" using W(2) x(1) by blast
    then show False using x(2) W(1) by linarith
  qed
  let ?T = "{t. 0 \<le> t \<and> (\<exists>f \<in> set (edges pts). ?hits t f)}"
  have fin: "finite ?T" using finite_hits [OF W(2), of px py] by (rule rev_finite_subset) blast
  have "?T \<noteq> {}"
    using walk [of 0 1 pts px py "px + ?M" "py + 1"] out assms unfolding inside_at_0 inside_at_1 by auto
  then have "Min ?T \<in> ?T" by (rule Min_in [OF fin])
  moreover have "Min ?T \<le> t" if "f \<in> set (edges pts)" "?hits t f" "0 \<le> t" for t f
    using that by (intro Min_le [OF fin]) blast
  ultimately show thesis using that by blast
qed

lemma contact_at_1:
  assumes p: "even_odd pts px py True" "even_odd qts px py True"
  shows "(\<exists>e \<in> set (edges pts). shares_point qts e) \<or> (\<exists>e \<in> set (edges qts). shares_point pts e)"
proof (rule ccontr)
  assume none: "\<not> ?thesis"
  obtain bx b t0 f where f: "f \<in> set (edges pts)" "hits_edge px py bx b t0 f" "0 \<le> t0"
    and first: "\<And>t f'. f' \<in> set (edges pts) \<Longrightarrow> hits_edge px py bx b t f' \<Longrightarrow> 0 \<le> t \<Longrightarrow> t0 \<le> t"
    using first_hit [OF p(1)] by metis
  let ?in = "\<lambda>ps t. inside_at ps px py bx b t"
  have in0: "?in pts t0" using f(1,2) by (rule hits_inside)
  have "\<not> ?in qts t0" using none hits_shares f(1,2) by blast
  then obtain g t1 where g: "g \<in> set (edges qts)" "hits_edge px py bx b t1 g" "0 \<le> t1" "t1 \<le> t0"
    using walk [OF f(3), of qts px py bx b] p(2) unfolding inside_at_0 by auto
  have out1: "\<not> ?in pts t1" using none hits_shares g(1,2) by blast
  then obtain f' t2 where f': "f' \<in> set (edges pts)" "hits_edge px py bx b t2 f'" "0 \<le> t2" "t2 \<le> t1"
    using walk [OF g(3), of pts px py bx b] p(1) unfolding inside_at_0 by auto
  have "t0 \<le> t2" using first f'(1-3) by blast
  then show False using in0 out1 g(4) f'(4) by (metis order.antisym order.trans)
qed

lemma shares_point_scaled: "0 < q \<Longrightarrow> shares_point (scaled q pts) (scaled_edge q e) \<Longrightarrow> shares_point pts e"
proof -
  assume q: "0 < q" "shares_point (scaled q pts) (scaled_edge q e)"
  then obtain k px py where k: "0 < k" "edge_on px py (scaled_edge k (scaled_edge q e))" "region (scaled q pts) k px py"
    unfolding shares_point_def by blast
  have "scaled_edge k (scaled_edge q e) = scaled_edge (k * q) e" by (auto simp: scaled_edge_def split: prod.split)
  moreover have "scaled k (scaled q pts) = scaled (k * q) pts" by (auto simp: scaled_def mult.assoc)
  ultimately show ?thesis using k q(1) unfolding shares_point_def region_def
    by (intro exI [of _ "k * q"] exI [of _ px] exI [of _ py]) simp
qed

text \<open>
  Two rings with a common point touch: an edge of one has a point of the other. On a walk from the common point
  to a point outside of the first ring, the first edge of that ring is only reached after an edge of the other.
\<close>

definition regions_meet :: "(int \<times> int) list \<Rightarrow> (int \<times> int) list \<Rightarrow> bool" where
  "regions_meet pts qts \<longleftrightarrow> (\<exists>q px py. 0 < q \<and> region pts q px py \<and> region qts q px py)"

lemma regions_meet_edges:
  "regions_meet pts qts \<longleftrightarrow> (\<exists>e \<in> set (edges pts). shares_point qts e) \<or> (\<exists>e \<in> set (edges qts). shares_point pts e)"
proof
  assume "regions_meet pts qts"
  then obtain q px py where q: "0 < q" "region pts q px py" "region qts q px py" by (auto simp: regions_meet_def)
  then have "(\<exists>e \<in> set (edges pts). shares_point (scaled q qts) (scaled_edge q e)) \<or>
      (\<exists>e \<in> set (edges qts). shares_point (scaled q pts) (scaled_edge q e))"
    using contact_at_1 [of "scaled q pts" px py "scaled q qts"] unfolding region_def scaled_edges set_map by blast
  then show "(\<exists>e \<in> set (edges pts). shares_point qts e) \<or> (\<exists>e \<in> set (edges qts). shares_point pts e)"
    using shares_point_scaled [OF q(1)] by blast
next
  have *: "regions_meet ps qs" if "e \<in> set (edges ps)" "shares_point qs e" for ps qs e
  proof -
    obtain q px py where q: "0 < q" "edge_on px py (scaled_edge q e)" "region qs q px py"
      using \<open>shares_point qs e\<close> unfolding shares_point_def by blast
    have "region ps q px py" using q(2) \<open>e \<in> _\<close> unfolding region_def even_odd_def scaled_edges by auto
    then show ?thesis using q unfolding regions_meet_def by blast
  qed
  have "regions_meet ps qs = regions_meet qs ps" for ps qs unfolding regions_meet_def by blast
  then show "(\<exists>e \<in> set (edges pts). shares_point qts e) \<or> (\<exists>e \<in> set (edges qts). shares_point pts e) \<Longrightarrow> regions_meet pts qts"
    using * by blast
qed

section \<open>The rectangle of a ring\<close>

definition xs_of :: "(int \<times> int) list \<Rightarrow> int set" where
  "xs_of pts = fst ` set pts"

definition ys_of :: "(int \<times> int) list \<Rightarrow> int set" where
  "ys_of pts = snd ` set pts"

text \<open>A ring made of the points, with the least rectangle around them.\<close>

definition boxed_ring :: "Ring \<Rightarrow> (int \<times> int) list \<Rightarrow> bool" where
  "boxed_ring ring pts \<longleftrightarrow> grid_series ring pts \<and>
     fint (X (RMin (sRect ring))) (Min (xs_of pts)) \<and> fint (X (RMax (sRect ring))) (Max (xs_of pts)) \<and>
     fint (Y (RMin (sRect ring))) (Min (ys_of pts)) \<and> fint (Y (RMax (sRect ring))) (Max (ys_of pts))"

lemma finite_coords [simp]: "finite (xs_of pts)" "finite (ys_of pts)" "xs_of pts = {} \<longleftrightarrow> pts = []" "ys_of pts = {} \<longleftrightarrow> pts = []"
  by (simp_all add: xs_of_def ys_of_def)

lemma fint_squeeze:
  assumes "grid k" "x \<le> f_of_int k" "\<not> x < f_of_int k"
  shows "fint x k"
proof -
  have "feq x (f_of_int k)" using assms(2,3) by (auto simp: f64_order feq_def)
  then show ?thesis using grid_fint [OF assms(1)] feq_fin [of x "f_of_int k"] by (auto simp: fint_def feq_rval)
qed

lemma fint_squeeze':
  assumes "grid k" "f_of_int k \<le> x" "\<not> f_of_int k < x"
  shows "fint x k"
proof -
  have "feq x (f_of_int k)" using assms(2,3) by (auto simp: f64_order feq_def)
  then show ?thesis using grid_fint [OF assms(1)] feq_fin [of x "f_of_int k"] by (auto simp: fint_def feq_rval)
qed

lemma newRing_boxed:
  assumes "grid_ring pts"
  shows "\<exists>ring. newRing (ipoints pts) opts = Inr ring \<and> ring_of ring pts \<and> boxed_ring ring pts"
proof -
  obtain ring where r: "newRing (ipoints pts) opts = Inr ring" "ring_of ring pts" using newRing_ring_of [OF assms] by blast
  then obtain bs where bs: "ring = BaseSeries bs" by (auto simp: ring_of_def)
  have g: "grid x" "grid y" if "(x, y) \<in> set pts" for x y
    using assms that by (auto simp: grid_ring_def grid_def)
  have ne: "pts \<noteq> []" using assms by (auto simp: grid_ring_def)
  have fin: "\<forall>p \<in> set (ipoints pts). point_fin p" using g by (auto simp: point_fin_def)
  have len: "length (ipoints pts) < 2 ^ 63" "\<not> (True \<and> length (ipoints pts) < 3 \<or> length (ipoints pts) < 2)"
    using assms by (auto simp: grid_ring_def)
  have "makeSeries (ipoints pts) True True opts = Inr bs" using r(1) bs by (simp add: newRing_def)
  note box = makeSeries_box [OF this fin len]
  let ?x0 = "Min (xs_of pts)" and ?x1 = "Max (xs_of pts)" and ?y0 = "Min (ys_of pts)" and ?y1 = "Max (ys_of pts)"
  have m: "?x0 \<in> xs_of pts" "?x1 \<in> xs_of pts" "?y0 \<in> ys_of pts" "?y1 \<in> ys_of pts" using ne by (auto intro!: Min_in Max_in)
  have gm: "grid ?x0" "grid ?x1" "grid ?y0" "grid ?y1" using m g by (force simp: xs_of_def ys_of_def)+
  have b: "?x0 \<le> x" "x \<le> ?x1" "?y0 \<le> y" "y \<le> ?y1" if "(x, y) \<in> set pts" for x y
    using that by (force simp: xs_of_def ys_of_def intro!: Min_le Max_ge)+
  let ?t = "irect ?x0 ?y0 ?x1 ?y1"
  have "?x0 \<le> ?x1" "?y0 \<le> ?y1" using ne by simp_all
  then have "rect_ok ?t" using gm by (simp add: rect_ok_def)
  moreover have "\<forall>p \<in> set (ipoints pts). rect_ContainsPoint ?t p"
    using b g gm by (auto simp: rect_ContainsPoint_def)
  ultimately have least: "rect_ContainsRect ?t (bs_rect bs)" by (rule box(3))
  have c: "X (RMin (bs_rect bs)) \<le> f_of_int x" "f_of_int x \<le> X (RMax (bs_rect bs))"
    "Y (RMin (bs_rect bs)) \<le> f_of_int y" "f_of_int y \<le> Y (RMax (bs_rect bs))" if "(x, y) \<in> set pts" for x y
    using box(2) that by (force simp: rect_ContainsPoint_def ipoint_def mk_point_def)+
  have lo: "X (RMin (bs_rect bs)) \<le> f_of_int ?x0" "f_of_int ?x1 \<le> X (RMax (bs_rect bs))"
    "Y (RMin (bs_rect bs)) \<le> f_of_int ?y0" "f_of_int ?y1 \<le> Y (RMax (bs_rect bs))"
    using m c by (force simp: xs_of_def ys_of_def)+
  have hi: "\<not> X (RMin (bs_rect bs)) < f_of_int ?x0" "\<not> f_of_int ?x1 < X (RMax (bs_rect bs))"
    "\<not> Y (RMin (bs_rect bs)) < f_of_int ?y0" "\<not> f_of_int ?y1 < Y (RMax (bs_rect bs))"
    using least by (auto simp: rect_ContainsRect_def irect_def ipoint_def mk_rect_def mk_point_def split: if_splits)
  have "boxed_ring ring pts"
    unfolding boxed_ring_def bs sRect.simps series_Rect_def
    using ring_of_grid_series [OF r(2), unfolded bs] fint_squeeze [OF gm(1) lo(1) hi(1)] fint_squeeze' [OF gm(2) lo(2) hi(2)]
      fint_squeeze [OF gm(3) lo(3) hi(3)] fint_squeeze' [OF gm(4) lo(4) hi(4)] by (intro conjI)
  then show ?thesis using r by blast
qed

lemma boxed_ring_area:
  assumes "boxed_ring ring pts"
  shows "fint (rect_Area (sRect ring)) ((Max (xs_of pts) - Min (xs_of pts)) * (Max (ys_of pts) - Min (ys_of pts)))"
proof -
  let ?w = "Max (xs_of pts) - Min (xs_of pts)" and ?h = "Max (ys_of pts) - Min (ys_of pts)"
  have r: "grid_series ring pts" using assms by (simp add: boxed_ring_def)
  then have ne: "pts \<noteq> []" by (auto simp: grid_series_def grid_ring_def)
  have "Min (xs_of pts) \<in> xs_of pts" "Max (xs_of pts) \<in> xs_of pts" "Min (ys_of pts) \<in> ys_of pts" "Max (ys_of pts) \<in> ys_of pts"
    using ne by (auto intro!: Min_in Max_in)
  then have g: "grid (Min (xs_of pts))" "grid (Max (xs_of pts))" "grid (Min (ys_of pts))" "grid (Max (ys_of pts))"
    using grid_series_rect_corner(2,3) [OF r] by (force simp: xs_of_def ys_of_def)+
  then have b: "\<bar>?w\<bar> \<le> 2 ^ 25" "\<bar>?h\<bar> \<le> 2 ^ 25" by (auto simp: grid_def)
  have "\<bar>?w * ?h\<bar> = \<bar>?w\<bar> * \<bar>?h\<bar>" by (rule abs_mult)
  also have "\<dots> \<le> 2 ^ 25 * 2 ^ 25" using b by (intro mult_mono) auto
  finally have "\<bar>?w * ?h\<bar> < 2 ^ 53" by simp
  moreover have "fint (X (RMax (sRect ring)) - X (RMin (sRect ring))) ?w" "fint (Y (RMax (sRect ring)) - Y (RMin (sRect ring))) ?h"
    using assms b by (auto simp: boxed_ring_def intro!: fint_sub)
  ultimately show ?thesis unfolding rect_Area_def by (intro fint_mul)
qed

section \<open>Rings that intersect\<close>

lemma grid_series_touch_rects:
  assumes "grid_series ring pts" "grid_series ring' qts" "e \<in> set (sides qts)" "shares_point pts e"
  shows "rect_IntersectsRect (sRect ring) (sRect ring')"
  using grid_series_meets_rect [OF assms(1) grid_series_sides(4) [OF assms(2,3)] grid_series_rect_side [OF assms(2,3)] assms(4)] .

lemma sides_share:
  assumes "3 \<le> length qts"
  shows "(\<exists>e \<in> set (sides qts). shares_point pts e) \<longleftrightarrow> (\<exists>e \<in> set (edges qts). shares_point pts e)"
proof (cases "last qts = hd qts")
  case True
  let ?n = "length qts - 1"
  have ne: "qts \<noteq> []" "butlast qts \<noteq> []" using assms by (cases qts; auto)+
  have "edges qts ! ?n = (hd qts, hd qts)"
    using assms ne True by (subst edges_nth) (auto simp: last_conv_nth hd_conv_nth)
  then have e: "edges qts = sides qts @ [(hd qts, hd qts)]"
    using take_Suc_conv_app_nth [of ?n "edges qts"] assms sides_take [of qts] True by (simp add: corners_def)
  have h: "hd qts \<in> set (butlast qts)" using ne by (metis append_butlast_last_id hd_append2 hd_in_set)
  obtain q where q: "(hd qts, q) \<in> set (sides qts)" using edges_corner [OF h] True by (auto simp: corners_def)
  have "shares_point pts (hd qts, q)" if m: "shares_point pts (hd qts, hd qts)"
  proof -
    obtain k px py where p: "0 < k" "edge_on px py (scaled_edge k (hd qts, hd qts))" "region pts k px py"
      using m unfolding shares_point_def by blast
    have "edge_on px py (scaled_edge k (hd qts, q))"
      using p(2) by (auto simp: edge_on_def scaled_edge_def on_seg_def split: prod.splits)
    then show ?thesis using p unfolding shares_point_def by blast
  qed
  then show ?thesis using q by (subst e) auto
qed (simp add: corners_def)

lemma edges_clear:
  assumes "no_corner_on pts (edges qts) \<and> no_corner_on qts (edges pts)" "e \<in> set (edges qts)"
  shows "clear_of pts e"
proof -
  have "fst e \<in> set qts" "snd e \<in> set qts" using edges_in [of "fst e" "snd e" qts] assms(2) by simp_all
  then show ?thesis using assms by (auto simp: clear_of_def no_corner_on_def)
qed

lemma ring_sides_loop:
  assumes "grid_series ring pts" "grid_series other qts" "allow \<or> no_corner_on pts (edges qts) \<and> no_corner_on qts (edges pts)"
  shows "exM (\<lambda>i. rbind (sSegmentAt other i) (\<lambda>s. ringIntersectsSegment ring s allow)) [0..sNumSegments other - 1] =
    Inr (\<exists>e \<in> set (edges qts). shares_point pts e)"
proof -
  note s = grid_series_sides [OF assms(2)]
  have len: "2 \<le> length qts" using assms(2) by (simp add: grid_series_def grid_ring_def)
  have "exM (\<lambda>i. rbind (sSegmentAt other i) (\<lambda>s. ringIntersectsSegment ring s allow)) [0..sNumSegments other - 1] =
      Inr (\<exists>i \<in> set [0..sNumSegments other - 1]. shares_point pts (sides qts ! nat i))"
  proof (rule exM_total)
    fix i assume i: "i \<in> set [0..sNumSegments other - 1]"
    then have e: "sides qts ! nat i \<in> set (sides qts)" unfolding s(2) by (intro nth_mem) auto
    then have "sides qts ! nat i \<in> set (edges qts)" using sides_take [OF len] by (metis in_set_takeD)
    then have "allow \<or> clear_of pts (sides qts ! nat i)" using assms(3) edges_clear by blast
    with e show "rbind (sSegmentAt other i) (\<lambda>s. ringIntersectsSegment ring s allow) = Inr (shares_point pts (sides qts ! nat i))"
      using s_ok_SegmentAt [OF s(1), of i] i s(3) [OF i] grid_series_shares_point [OF assms(1) s(4)] by simp
  qed
  also have "(\<exists>i \<in> set [0..sNumSegments other - 1]. shares_point pts (sides qts ! nat i)) \<longleftrightarrow> (\<exists>e \<in> set (sides qts). shares_point pts e)"
    unfolding s(2) by (rule ex_upto)
  also have "\<dots> \<longleftrightarrow> (\<exists>e \<in> set (edges qts). shares_point pts e)"
    using assms(2) by (intro sides_share) (simp add: grid_series_def grid_ring_def)
  finally show ?thesis .
qed

text \<open>What is the same at both ends of every edge is the same at all corners.\<close>

lemma around_ring:
  assumes "\<forall>(u, v) \<in> set (edges pts). f u = f v" "u \<in> set pts" "v \<in> set pts"
  shows "f u = f v"
proof -
  have "f (pts ! k) = f (pts ! 0)" if "k < length pts" for k
    using that
  proof (induction k)
    case (Suc k)
    have "edges pts ! k \<in> set (edges pts)" using Suc.prems by (intro nth_mem) simp
    moreover have "edges pts ! k = (pts ! k, pts ! Suc k)" using Suc.prems edges_nth [of k pts] by auto
    ultimately show ?case using assms(1) Suc by auto
  qed simp
  then show ?thesis using assms(2,3) by (metis in_set_conv_nth)
qed

lemma edges_meet_sym: "edges_meet e f = edges_meet f e"
  using segs_meet_sym by (auto simp: edges_meet_def split: prod.splits)

text \<open>
  Where an edge of one ring has a point of another ring and no edge of the one meets an edge of the other, the
  first ring lies strictly inside, corner by corner.
\<close>

lemma swallowed_corner:
  assumes apart: "\<And>e f. e \<in> set (edges pts) \<Longrightarrow> f \<in> set (edges qts) \<Longrightarrow> \<not> edges_meet e f"
    and touch: "\<exists>e \<in> set (edges pts). shares_point qts e" and v: "(x, y) \<in> set pts"
  shows "even_odd qts x y False" "\<exists>(x', y') \<in> set qts. x' < x" "\<exists>(x', y') \<in> set qts. x < x'"
    "\<exists>(x', y') \<in> set qts. y' < y" "\<exists>(x', y') \<in> set qts. y < y'"
proof -
  let ?in = "\<lambda>(px, py). even_odd qts px py True"
  have same: "\<forall>(u, v) \<in> set (edges pts). ?in u = ?in v"
    using apart no_meet_same_side by (fastforce split: prod.split)
  obtain ax ay bx b where e: "((ax, ay), (bx, b)) \<in> set (edges pts)" "shares_point qts ((ax, ay), (bx, b))"
    using touch by auto
  then have "even_odd qts ax ay True" using apart [OF e(1)] unfolding shares_point_iff by blast
  then have inside: "even_odd qts x y True"
    using around_ring [OF same conjunct1 [OF edges_in [OF e(1)]] v] by simp
  obtain w where w: "((x, y), w) \<in> set (edges pts)" using edges_corner [OF v] by blast
  have "\<not> edge_on x y f" if "f \<in> set (edges qts)" for f
    using meets_on_edge [OF that, of x y x y "fst w" "snd w"] apart [OF w that] on_seg_ends by auto
  then have off: "\<forall>f \<in> set (edges qts). \<not> edge_on x y f" by blast
  then have odd: "odd (length (filter (edge_crosses x y) (edges qts)))" using inside by (simp add: even_odd_def)
  show "even_odd qts x y False" using off odd by (auto simp: even_odd_def)
  show "\<exists>(x', y') \<in> set qts. x' < x" "\<exists>(x', y') \<in> set qts. x < x'"
    "\<exists>(x', y') \<in> set qts. y' < y" "\<exists>(x', y') \<in> set qts. y < y'" using strictly_surrounded [OF off odd] by blast+
qed

lemma swallowed_ring:
  assumes touch: "\<exists>e \<in> set (edges pts). shares_point qts e" and none: "\<not> (\<exists>f \<in> set (edges qts). shares_point pts f)"
    and v: "(x, y) \<in> set pts"
  shows "\<exists>(x', y') \<in> set qts. x' < x" "\<exists>(x', y') \<in> set qts. x < x'"
    "\<exists>(x', y') \<in> set qts. y' < y" "\<exists>(x', y') \<in> set qts. y < y'"
proof -
  have apart: "\<not> edges_meet e f" if "e \<in> set (edges pts)" "f \<in> set (edges qts)" for e f
  proof
    assume m: "edges_meet e f"
    obtain cx cy dx d where f: "f = ((cx, cy), (dx, d))" by (metis prod.exhaust)
    have "shares_point pts f" using m that(1) unfolding f shares_point_iff edges_meet_sym [of e] by blast
    then show False using none that(2) by blast
  qed
  note s = swallowed_corner [OF apart touch v]
  show "\<exists>(x', y') \<in> set qts. x' < x" "\<exists>(x', y') \<in> set qts. x < x'"
    "\<exists>(x', y') \<in> set qts. y' < y" "\<exists>(x', y') \<in> set qts. y < y'" using s(2-5) by blast+
qed

lemma swallowed_ring_area:
  assumes "pts \<noteq> []" "\<exists>e \<in> set (edges pts). shares_point qts e" "\<not> (\<exists>f \<in> set (edges qts). shares_point pts f)"
  shows "(Max (xs_of pts) - Min (xs_of pts)) * (Max (ys_of pts) - Min (ys_of pts)) <
    (Max (xs_of qts) - Min (xs_of qts)) * (Max (ys_of qts) - Min (ys_of qts))"
proof -
  note s = swallowed_ring [OF assms(2,3)]
  have m: "Min (xs_of pts) \<in> xs_of pts" "Max (xs_of pts) \<in> xs_of pts" "Min (ys_of pts) \<in> ys_of pts" "Max (ys_of pts) \<in> ys_of pts"
    using assms(1) by (auto intro!: Min_in Max_in)
  have lx: "\<exists>x' \<in> xs_of qts. x' < x" and ux: "\<exists>x' \<in> xs_of qts. x < x'" if "x \<in> xs_of pts" for x
    using that s(1,2) unfolding xs_of_def by force+
  have ly: "\<exists>y' \<in> ys_of qts. y' < y" and uy: "\<exists>y' \<in> ys_of qts. y < y'" if "y \<in> ys_of pts" for y
    using that s(3,4) unfolding ys_of_def by force+
  note ex = lx [OF m(1)] ux [OF m(2)] ly [OF m(3)] uy [OF m(4)]
  have c: "Min (xs_of qts) < Min (xs_of pts)" "Max (xs_of pts) < Max (xs_of qts)"
    "Min (ys_of qts) < Min (ys_of pts)" "Max (ys_of pts) < Max (ys_of qts)"
    using ex by (meson Min_le Max_ge finite_coords(1,2) le_less_trans less_le_trans)+
  have "Min (xs_of pts) \<le> Max (xs_of pts)" "Min (ys_of pts) \<le> Max (ys_of pts)" using assms(1) by simp_all
  then have "0 \<le> Max (xs_of pts) - Min (xs_of pts)" "0 \<le> Max (ys_of pts) - Min (ys_of pts)"
    "Max (xs_of pts) - Min (xs_of pts) < Max (xs_of qts) - Min (xs_of qts)"
    "Max (ys_of pts) - Min (ys_of pts) < Max (ys_of qts) - Min (ys_of qts)" using c by auto
  then show ?thesis by (intro mult_strict_mono) auto
qed

lemma boxed_rings_intersect:
  assumes "boxed_ring ring pts" "boxed_ring other qts" "allow \<or> no_corner_on pts (edges qts) \<and> no_corner_on qts (edges pts)"
  shows "ringIntersectsRing ring other allow = Inr (regions_meet pts qts)"
proof -
  let ?E = "\<lambda>ps qs. \<exists>e \<in> set (edges qs). shares_point ps e"
  have r: "grid_series ring pts" "grid_series other qts" using assms by (simp_all add: boxed_ring_def)
  have len: "3 \<le> length pts" "3 \<le> length qts" using r by (auto simp: grid_series_def grid_ring_def)
  have ne: "\<not> sEmpty ring" "\<not> sEmpty other"
    using r by (auto simp: grid_series_def grid_ring_def series_Empty_def)
  have one: "?E ps qs = regions_meet ps qs" if area: "\<not> rect_Area (sRect o') > rect_Area (sRect r')"
    and b: "boxed_ring r' ps" "boxed_ring o' qs" for r' o' ps qs
  proof -
    have "ps \<noteq> []" using b(1) by (auto simp: boxed_ring_def grid_series_def grid_ring_def)
    moreover have "\<not> (Max (xs_of ps) - Min (xs_of ps)) * (Max (ys_of ps) - Min (ys_of ps)) <
      (Max (xs_of qs) - Min (xs_of qs)) * (Max (ys_of qs) - Min (ys_of qs))"
      using area fint_less [OF boxed_ring_area [OF b(1)] boxed_ring_area [OF b(2)]] by simp
    ultimately show ?thesis using swallowed_ring_area [of ps qs] unfolding regions_meet_edges by blast
  qed
  have sym: "regions_meet qts pts = regions_meet pts qts" unfolding regions_meet_def by blast
  have "rect_IntersectsRect (sRect ring) (sRect other)" if "regions_meet pts qts"
    using that grid_series_touch_rects [OF r] grid_series_touch_rects [OF r(2,1)] rect_IntersectsRect_sym
    unfolding regions_meet_edges sides_share [OF len(1), symmetric] sides_share [OF len(2), symmetric] by blast
  moreover have "\<not> rect_Area (sRect ring) > rect_Area (sRect other)" if "rect_Area (sRect other) > rect_Area (sRect ring)"
    using that by (simp add: less_f64_def)
  ultimately show ?thesis
    using ne one [OF _ assms(1,2)] one [OF _ assms(2,1)] ring_sides_loop [OF r assms(3)] ring_sides_loop [OF r(2,1), of allow] assms(3) sym
    by (cases "rect_Area (sRect other) > rect_Area (sRect ring)") (auto simp: ringIntersectsRing_def)
qed

text \<open>
  C5: two polygons without holes and with integer corners of at most 2 ^ 24 intersect, by \<open>IntersectsPoly\<close>,
  exactly if their closed regions have a point in common, with any rational coordinates \<open>(px / q, py / q)\<close>. To look
  only at the edges of the polygon with the smaller rectangle loses nothing, whichever way the areas
  compare, so the predicate is symmetric.
\<close>

theorem poly_IntersectsPoly_exact:
  assumes "grid_ring pts" "grid_ring pts'"
  shows "\<exists>poly other. NewPoly (map (\<lambda>(x, y). ipoint x y) pts) [] opts = Inr poly \<and>
    NewPoly (map (\<lambda>(x, y). ipoint x y) pts') [] opts' = Inr other \<and>
    poly_IntersectsPoly (Some poly) (Some other) =
      Inr (\<exists>q px py. 0 < q \<and> region pts q px py \<and> region pts' q px py)"
proof -
  obtain ring where r: "newRing (ipoints pts) opts = Inr ring" "boxed_ring ring pts" using newRing_boxed [OF assms(1)] by blast
  obtain other where o: "newRing (ipoints pts') opts' = Inr other" "boxed_ring other pts'" using newRing_boxed [OF assms(2)] by blast
  have "ringIntersectsRing other ring True = Inr (\<exists>q px py. 0 < q \<and> region pts q px py \<and> region pts' q px py)"
    using boxed_rings_intersect [OF o(2) r(2)] unfolding regions_meet_def by (simp add: conj_commute conj_left_commute)
  then show ?thesis using r(1) o(1) by (auto simp: NewPoly_def poly_IntersectsPoly_def)
qed

theorem poly_IntersectsPoly_exact_witness:
  "\<exists>poly other. NewPoly (map (\<lambda>(x, y). ipoint x y) [(0, 0), (9, 0), (0, 9)]) [] None = Inr poly \<and>
    NewPoly (map (\<lambda>(x, y). ipoint x y) [(1, 1), (3, 1), (1, 3)]) [] None = Inr other \<and>
    poly_IntersectsPoly (Some poly) (Some other) = Inr True"
proof -
  have "region [(0, 0), (9, 0), (0, 9)] 1 1 1 \<and> region [(1, 1), (3, 1), (1, 3)] 1 1 1"
    by (simp add: region_def even_odd_def edges_def edge_on_def edge_crosses_def on_seg_def crosses_def crosses_up_def)
  then have "\<exists>q px py. 0 < q \<and> region [(0, 0), (9, 0), (0, 9)] q px py \<and> region [(1, 1), (3, 1), (1, 3)] q px py"
    by (intro exI [of _ 1]) auto
  then show ?thesis
    using poly_IntersectsPoly_exact [of "[(0, 0), (9, 0), (0, 9)]" "[(1, 1), (3, 1), (1, 3)]" None None]
    by (simp add: grid_ring_def)
qed

end
