(* ===== verification/Segment_Inside.thy ===== *)
theory Segment_Inside
  imports Ring_Contact
begin

text \<open>
  Segments inside a concave ring, on a grid of integers. For a segment with both ends strictly inside
  \<open>ringContainsSegment\<close> looks for an edge that meets it and has neither end on it. Where the segment passes
  through no corner that is sound; where it passes through two corners of a notch it is not.
\<close>


section \<open>Segments with both ends strictly inside a ring\<close>

lemma inside_no_edge:
  assumes "grid_series ring pts" "grid px" "grid py" "even_odd pts px py False"
  shows "\<exists>res. ringContainsPoint ring (ipoint px py) True = Inr res \<and> hit res \<and> rr_idx res = - 1"
proof -
  let ?p = "ipoint px py"
  have len: "2 \<le> length pts" using assms(1) by (simp add: grid_series_def grid_ring_def)
  have ok: "ring_ok ring" using assms(1) by (simp add: grid_series_def)
  note s = grid_series_sides [OF assms(1)]
  have off: "\<not> edge_on px py e" if "e \<in> set (sides pts)" for e
    using assms(4) that unfolding even_odd_corners [OF len, symmetric] by (auto simp: even_odd_def split: if_splits)
  have "\<not> On (ray (s_seg ring i) ?p)" if "i \<in> set (at_height ring ?p)" for i
  proof -
    have i: "i \<in> set [0..sNumSegments ring - 1]" using that by (simp add: at_height_def)
    then have e: "sides pts ! nat i \<in> set (sides pts)" unfolding s(2) by (intro nth_mem) auto
    show ?thesis using s(3) [OF i] edge_ray [OF s(4) [OF e] assms(2,3)] off [OF e] by (simp add: mk_raycast_def)
  qed
  then obtain idx where idx: "ringContainsPoint ring ?p True = Inr \<lparr>hit = odd (length (filter (\<lambda>i. In (ray (s_seg ring i) ?p)) (at_height ring ?p))), rr_idx = idx\<rparr>"
    "idx = - 1" using ringContainsPoint_parity [OF ok, of ?p True] by (auto split: if_splits)
  have "\<bar>px\<bar> \<le> 2 ^ 24" "\<bar>py\<bar> \<le> 2 ^ 24" using assms(2,3) by (simp_all only: grid_def)
  then have "in_ring ring ?p True = even_odd pts px py True" by (rule grid_series_in [OF assms(1)])
  moreover have "even_odd pts px py True" using assms(4) by (auto simp: even_odd_def split: if_splits)
  ultimately have "hit (projr (ringContainsPoint ring ?p True))" by (simp add: in_ring_def)
  then show ?thesis using idx by auto
qed

lemma ring_search_exists:
  assumes "grid_series ring pts"
    and near: "\<And>e. e \<in> set (sides pts) \<Longrightarrow> P e \<Longrightarrow> rect_IntersectsRect (seg_Rect (edge_seg e)) target"
    and iter: "\<And>e i s. e \<in> set (sides pts) \<Longrightarrow> iter (edge_seg e) i s = Inr (if P e then (False, True) else (True, s))"
  shows "sSearch ring target iter False = Inr (\<exists>e \<in> set (sides pts). P e)"
proof -
  note s = grid_series_sides [OF assms(1)]
  have "sSearch ring target iter False =
      Inr (if \<exists>i \<in> set (s_search.hit_indices ring target). P (sides pts ! nat i) then True else False)"
  proof (rule s_search.search_exists [OF s(1), where P = "\<lambda>i. P (sides pts ! nat i)"])
    fix i st assume "i \<in> set (s_search.hit_indices ring target)"
    then have i: "i \<in> set [0..sNumSegments ring - 1]" by (simp add: s_search.hit_indices_def)
    then have "sides pts ! nat i \<in> set (sides pts)" unfolding s(2) by (intro nth_mem) auto
    then show "iter (s_seg ring i) i st = Inr (if P (sides pts ! nat i) then (False, True) else (True, st))"
      using s(3) [OF i] iter by simp
  qed
  also have "(\<exists>i \<in> set (s_search.hit_indices ring target). P (sides pts ! nat i)) \<longleftrightarrow> (\<exists>e \<in> set (sides pts). P e)"
    using near by (rule ring_hits(2) [OF assms(1)])
  finally show ?thesis by simp
qed

text \<open>An edge that stops the search: it meets the segment, and neither of its ends is on the segment.\<close>

definition blocks :: "(int \<times> int) \<times> (int \<times> int) \<Rightarrow> (int \<times> int) \<times> (int \<times> int) \<Rightarrow> bool" where
  "blocks e f \<longleftrightarrow> edges_meet e f \<and> \<not> edge_swallowed e f \<and>
     \<not> edge_on (fst (fst f)) (snd (fst f)) e \<and> \<not> edge_on (fst (snd f)) (snd (snd f)) e"

lemma ContainsSegment_inside:
  assumes "grid_series ring pts" "\<not> sConvex ring" "grid ax" "grid ay" "grid bx" "grid b" "(ax, ay) \<noteq> (bx, b)"
    and "even_odd pts ax ay False" "even_odd pts bx b False"
  shows "ringContainsSegment ring (iseg ax ay bx b) True =
    Inr (\<not> (\<exists>f \<in> set (sides pts). blocks ((ax, ay), (bx, b)) f))"
proof -
  let ?e = "((ax, ay), (bx, b))" and ?seg = "iseg ax ay bx b"
  note g = assms(3-6) and s = grid_series_sides [OF assms(1)]
  have ge: "grid_edge ?e" "edge_seg ?e = ?seg" using g by (simp_all add: grid_edge_def edge_seg_def)
  let ?test = "\<lambda>seg2. off_segment ?seg [SegA seg2, SegB seg2]"
  have step: "crossing_searcher ?seg ?test (edge_seg f) i st = Inr (if blocks ?e f then (False, True) else (True, st))"
    if "f \<in> set (sides pts)" for f i st
  proof -
    obtain cx cy dx d where f: "f = ((cx, cy), (dx, d))" by (metis prod.exhaust)
    have gf: "grid_edge f" by (rule s(4) [OF that])
    then have gc: "grid cx" "grid cy" "grid dx" "grid d" by (simp_all add: f grid_edge_def)
    have "off_segment ?seg [SegA (edge_seg f), SegB (edge_seg f)] = Inr (\<not> edge_on cx cy ?e \<and> \<not> edge_on dx d ?e)"
      using seg_Raycast_grid [OF g gc(1,2)] seg_Raycast_grid [OF g gc(3,4)]
      by (simp add: f edge_seg_def iseg_def off_segment_def mk_raycast_def edge_on_def)
    then show ?thesis
      using edges_IntersectsSegment [OF ge(1) gf] ge(2) by (auto simp: crossing_searcher_def blocks_def f)
  qed
  have near: "rect_IntersectsRect (seg_Rect (edge_seg f)) (seg_Rect ?seg)" if "f \<in> set (sides pts)" "blocks ?e f" for f
    using edges_meet_rects [OF ge(1) s(4) [OF that(1)]] that(2) ge(2) by (simp add: blocks_def)
  have "sSearch ring (seg_Rect ?seg) (crossing_searcher ?seg ?test) False = Inr (\<exists>f \<in> set (sides pts). blocks ?e f)"
    by (rule ring_search_exists [OF assms(1), where P = "blocks ?e" and target = "seg_Rect ?seg" and
          iter = "crossing_searcher ?seg ?test"]) (erule (1) near, erule step)
  then have "no_crossing ring ?seg ?test = Inr (\<not> (\<exists>f \<in> set (sides pts). blocks ?e f))"
    by (simp only: no_crossing_def rbind_simps)
  moreover have "point_eq (ipoint bx b) (ipoint ax ay) = False" using assms(7) g by (auto simp: point_eq_def grid_cmp ipoint_def mk_point_def)
  moreover obtain ra where ra: "ringContainsPoint ring (ipoint ax ay) True = Inr ra" "hit ra = True" "rr_idx ra = - 1"
    using inside_no_edge [OF assms(1,3,4,8)] by blast
  moreover obtain rb where rb: "ringContainsPoint ring (ipoint bx b) True = Inr rb" "hit rb = True" "rr_idx rb = - 1"
    using inside_no_edge [OF assms(1,5,6,9)] by blast
  moreover have "SegA ?seg = ipoint ax ay" "SegB ?seg = ipoint bx b" "sConvex ring = False"
    using assms(2) by (simp_all add: iseg_def)
  ultimately show ?thesis by (simp only: ringContainsSegment_def rbind_simps not_True_eq_False if_True if_False simp_thms)
qed

text \<open>
  Where no corner is on the segment every side that meets it stops the search, and without such a side the
  whole segment is in the ring.
\<close>

lemma ContainsSegment_off_corners:
  assumes "grid_series ring pts" "\<not> sConvex ring" "grid ax" "grid ay" "grid bx" "grid b" "(ax, ay) \<noteq> (bx, b)"
    and ends: "even_odd pts ax ay False" "even_odd pts bx b False"
    and corners: "\<forall>(x, y) \<in> set pts. \<not> on_seg ax ay bx b x y"
  shows "ringContainsSegment ring (iseg ax ay bx b) True =
      Inr (\<forall>f \<in> set (edges pts). \<not> edges_meet ((ax, ay), (bx, b)) f)"
    and "\<forall>f \<in> set (edges pts). \<not> edges_meet ((ax, ay), (bx, b)) f \<Longrightarrow> 0 < q \<Longrightarrow>
      on_seg (q * ax) (q * ay) (q * bx) (q * b) px py \<Longrightarrow> region pts q px py"
proof -
  let ?e = "((ax, ay), (bx, b))"
  have len: "2 \<le> length pts" using assms(1) by (simp add: grid_series_def grid_ring_def)
  have off: "\<not> edge_on ax ay f" if "f \<in> set (edges pts)" for f
    using ends(1) that by (auto simp: even_odd_def split: if_splits)
  have "blocks ?e f \<longleftrightarrow> edges_meet ?e f" if "f \<in> set (sides pts)" for f
  proof -
    have f: "f \<in> set (edges pts)" using that sides_take [OF len] by (metis in_set_takeD)
    obtain cx cy dx d where e: "f = ((cx, cy), (dx, d))" by (metis prod.exhaust)
    have "\<not> on_seg ax ay bx b cx cy" "\<not> on_seg ax ay bx b dx d" using corners edges_in f unfolding e by blast+
    moreover have "\<not> edge_swallowed ?e f" using off [OF f] by (simp add: e edge_swallowed_def swallowed_def edge_on_def)
    ultimately show ?thesis by (simp add: blocks_def e edge_on_def)
  qed
  then have "(\<exists>f \<in> set (sides pts). blocks ?e f) \<longleftrightarrow> (\<exists>f \<in> set (edges pts). edges_meet ?e f)"
    unfolding sides_meet [OF len, symmetric] by blast
  then show "ringContainsSegment ring (iseg ax ay bx b) True = Inr (\<forall>f \<in> set (edges pts). \<not> edges_meet ?e f)"
    using ContainsSegment_inside [OF assms(1-9)] by (simp only: bex_simps ball_simps not_not simp_thms)
  assume "\<forall>f \<in> set (edges pts). \<not> edges_meet ?e f" "0 < q" "on_seg (q * ax) (q * ay) (q * bx) (q * b) px py"
  then show "region pts q px py"
    using region_along [of pts ax ay bx b q px py] ends(1) by (auto simp: even_odd_def split: if_splits)
qed

text \<open>Where the edge is not allowed any edge that meets the segment stops the search.\<close>

lemma ContainsSegment_strict:
  assumes "grid_series ring pts" "\<not> sConvex ring" "grid ax" "grid ay" "grid bx" "grid b" "(ax, ay) \<noteq> (bx, b)"
    and ends: "even_odd pts ax ay False" "even_odd pts bx b False"
  shows "ringContainsSegment ring (iseg ax ay bx b) False = Inr (\<forall>f \<in> set (edges pts). \<not> edges_meet ((ax, ay), (bx, b)) f)"
proof -
  let ?e = "((ax, ay), (bx, b))" and ?seg = "iseg ax ay bx b"
  have len: "2 \<le> length pts" using assms(1) by (simp add: grid_series_def grid_ring_def)
  note g = assms(3-6) and s = grid_series_sides [OF assms(1)]
  have ge: "grid_edge ?e" "edge_seg ?e = ?seg" using g by (simp_all add: grid_edge_def edge_seg_def)
  have step: "crossing_searcher ?seg (\<lambda>seg2. Inr True) (edge_seg f) i st = Inr (if edges_meet ?e f then (False, True) else (True, st))"
    if f: "f \<in> set (sides pts)" for f i st
  proof -
    have "f \<in> set (edges pts)" using f sides_take [OF len] by (metis in_set_takeD)
    then have "\<not> edge_on ax ay f" using ends(1) by (auto simp: even_odd_def split: if_splits)
    then have "\<not> edge_swallowed ?e f" by (auto simp: edge_swallowed_def swallowed_def edge_on_def split: prod.splits)
    then show ?thesis using edges_IntersectsSegment [OF ge(1) s(4) [OF f]] ge(2) by (simp add: crossing_searcher_def)
  qed
  have near: "rect_IntersectsRect (seg_Rect (edge_seg f)) (seg_Rect ?seg)" if "f \<in> set (sides pts)" "edges_meet ?e f" for f
    using edges_meet_rects [OF ge(1) s(4) [OF that(1)] that(2)] ge(2) by simp
  have "sSearch ring (seg_Rect ?seg) (crossing_searcher ?seg (\<lambda>seg2. Inr True)) False = Inr (\<exists>f \<in> set (sides pts). edges_meet ?e f)"
    by (rule ring_search_exists [OF assms(1), where P = "edges_meet ?e" and target = "seg_Rect ?seg" and
          iter = "crossing_searcher ?seg (\<lambda>seg2. Inr True)"]) (erule (1) near, erule step)
  then have "no_crossing ring ?seg (\<lambda>seg2. Inr True) = Inr (\<forall>f \<in> set (edges pts). \<not> edges_meet ?e f)"
    unfolding no_crossing_def sides_meet [OF len] by (simp only: rbind_simps bex_simps ball_simps)
  moreover have "point_eq (ipoint bx b) (ipoint ax ay) = False" using assms(7) g grid_point_eq by auto
  moreover have gb: "\<bar>ax\<bar> \<le> 2 ^ 24" "\<bar>ay\<bar> \<le> 2 ^ 24" "\<bar>bx\<bar> \<le> 2 ^ 24" "\<bar>b\<bar> \<le> 2 ^ 24" using g by (simp_all only: grid_def)
  have ok: "ring_ok ring" using assms(1) by (simp add: grid_series_def)
  obtain ra where ra: "ringContainsPoint ring (ipoint ax ay) False = Inr ra" "hit ra = True"
    using ring_ok_in_ring [OF ok, of "ipoint ax ay" False] grid_series_in [OF assms(1) gb(1,2), of False] ends by auto
  moreover obtain rb where rb: "ringContainsPoint ring (ipoint bx b) False = Inr rb" "hit rb = True"
    using ring_ok_in_ring [OF ok, of "ipoint bx b" False] grid_series_in [OF assms(1) gb(3,4), of False] ends by auto
  moreover have "SegA ?seg = ipoint ax ay" "SegB ?seg = ipoint bx b" "sConvex ring = False"
    using assms(2) by (simp_all add: iseg_def)
  ultimately show ?thesis by (simp only: ringContainsSegment_def rbind_simps not_True_eq_False if_True if_False simp_thms)
qed

text \<open>Two segments of which one lies strictly on one side of the other do not meet.\<close>

lemma one_side:
  "0 < side ax ay bx b cx cy * side ax ay bx b dx d \<Longrightarrow> \<not> segs_meet ax ay bx b cx cy dx d"
  "0 < side cx cy dx d ax ay * side cx cy dx d bx b \<Longrightarrow> \<not> segs_meet ax ay bx b cx cy dx d"
  using meet_sides [of ax ay bx b cx cy dx d] meet_sides [of cx cy dx d ax ay bx b] segs_meet_sym by force+

section \<open>A segment through two corners of a notch\<close>

abbreviation notched :: "(int \<times> int) list" where
  "notched \<equiv> [(0, 12), (6, 0), (12, 12), (8, 8), (6, 6), (4, 8)]"

lemma notched_ring:
  obtains ring where "newRing (ipoints notched) None = Inr ring" "ring_of ring notched" "boxed_ring ring notched" "\<not> sConvex ring"
proof -
  have g: "grid_ring notched" by (simp add: grid_ring_def)
  obtain ring where r: "newRing (ipoints notched) None = Inr ring" "ring_of ring notched" "boxed_ring ring notched" using newRing_boxed [OF g] by blast
  have "\<not> sConvex ring" by (rule concave_flag [OF g r(1), of 3 0]) (simp_all add: turn_at_def icross_def)
  then show thesis using that r by blast
qed

text \<open>The rectangle of a ring covers a line between its least and greatest coordinates.\<close>

lemma boxed_ring_covers:
  assumes "boxed_ring ring pts" "NewLine (ipoints qts) opts = Inr line" "grid_line qts" "2 \<le> length qts"
    and "\<forall>(x, y) \<in> set qts. Min (xs_of pts) \<le> x \<and> x \<le> Max (xs_of pts) \<and> Min (ys_of pts) \<le> y \<and> y \<le> Max (ys_of pts)"
  shows "rect_ContainsRect (sRect ring) (series_Rect line)"
proof -
  let ?R = "sRect ring"
  have f: "fint (X (RMin ?R)) (Min (xs_of pts))" "fint (X (RMax ?R)) (Max (xs_of pts))"
    "fint (Y (RMin ?R)) (Min (ys_of pts))" "fint (Y (RMax ?R)) (Max (ys_of pts))" "pts \<noteq> []"
    using assms(1) by (auto simp: boxed_ring_def grid_series_def grid_ring_def)
  have g: "grid x" "grid y" if "(x, y) \<in> set qts" for x y
    using assms(3) that by (auto simp: grid_line_def grid_def)
  have ok: "rect_ok ?R" using f by (simp add: rect_ok_def fint_le)
  have "\<forall>p \<in> set (ipoints qts). rect_ContainsPoint ?R p"
    using assms(5) fint_le [OF f(1) grid_fint [OF g(1)]] fint_le [OF grid_fint [OF g(1)] f(2)]
      fint_le [OF f(3) grid_fint [OF g(2)]] fint_le [OF grid_fint [OF g(2)] f(4)]
    by (fastforce simp: rect_ContainsPoint_def ipoint_def mk_point_def)
  moreover have "\<forall>p \<in> set (ipoints qts). point_fin p" "length (ipoints qts) < 2 ^ 63"
    using assms(3) g by (auto simp: point_fin_def grid_line_def)
  ultimately have "rect_ContainsRect ?R (bs_rect line)"
    using makeSeries_box(3) [of "ipoints qts" True False opts line ?R] ok assms(2,4) by (simp add: NewLine_def)
  then show ?thesis by (simp add: series_Rect_def)
qed

lemma concave_ring_contains_segment:
  assumes "boxed_ring ring pts" "\<not> sConvex ring" "line_of line [(ax, ay), (bx, b)]"
    and "rect_ContainsRect (sRect ring) (series_Rect line)"
  shows "ringContainsLine ring line e = ringContainsSegment ring (iseg ax ay bx b) e"
proof -
  have r: "grid_series ring pts" using assms(1) by (simp add: boxed_ring_def)
  have pts: "bs_points line = ipoints [(ax, ay), (bx, b)]" "\<not> bs_closed line" using assms(3) by (simp_all add: line_of_def)
  have n: "series_NumSegments line = 1" "sNumPoints (BaseSeries line) = 2"
    using pts by (simp_all add: series_NumSegments_def Let_def series_NumPoints_def)
  have s: "sSegmentAt (BaseSeries line) 0 = Inr (iseg ax ay bx b)"
    using pts by (simp add: series_SegmentAt_def index_at_def iseg_def)
  have ne: "\<not> sEmpty ring" "\<not> sEmpty (BaseSeries line)"
    using r pts by (auto simp: grid_series_def grid_ring_def series_Empty_def)
  show ?thesis
    unfolding ringContainsLine_def
    by (subst ringContainsRing.simps) (use n s ne assms(2,4) in \<open>cases "ringContainsSegment ring (iseg ax ay bx b) e"; auto simp: complexRingMinPoints_def\<close>)
qed

text \<open>
  C36: a polygon may contain a line, by \<open>ContainsLine\<close>, that leaves it: an edge that ends on the line is not looked at, so
  the line from (3, 8) to (9, 8), which passes over the notch of the polygon between the corners (4, 8) and (8, 8), is contained,
  but its point (6, 8) is not in the polygon.
\<close>

theorem poly_ContainsLine_notch:
  "\<exists>poly line. NewPoly (map (\<lambda>(x, y). ipoint x y) [(0, 12), (6, 0), (12, 12), (8, 8), (6, 6), (4, 8)]) [] None = Inr poly \<and>
    NewLine (map (\<lambda>(x, y). ipoint x y) [(3, 8), (9, 8)]) None = Inr line \<and>
    poly_ContainsLine (Some poly) (Some line) = Inr True \<and>
    line_ContainsPoint (Some line) (ipoint 6 8) = Inr True \<and> poly_ContainsPoint (Some poly) (ipoint 6 8) = Inr False"
proof -
  let ?line = "[(3, 8), (9, 8)] :: (int \<times> int) list"
  have g: "grid_line ?line" by (simp add: grid_line_def)
  obtain ring where r: "newRing (ipoints notched) None = Inr ring" "ring_of ring notched" "boxed_ring ring notched" "\<not> sConvex ring"
    by (rule notched_ring)
  have ring: "grid_series ring notched" by (rule ring_of_grid_series [OF r(2)])
  obtain line where l: "NewLine (ipoints ?line) None = Inr line" "line_of line ?line" using NewLine_line_of [OF g] by blast
  have ends: "even_odd notched 3 8 False" "even_odd notched 9 8 False"
    by (simp_all add: even_odd_def edges_def edge_on_def edge_crosses_def on_seg_def crosses_def crosses_up_def)
  have "\<not> segs_meet 3 8 9 8 0 12 6 0" "\<not> segs_meet 3 8 9 8 6 0 12 12" by (rule one_side(2), simp add: side_def)+
  then have "\<not> (\<exists>f \<in> set (sides notched). blocks ((3, 8), (9, 8)) f)"
    by (simp add: corners_def edges_def blocks_def edges_meet_def edge_on_def on_seg_def)
  then have "ringContainsSegment ring (iseg 3 8 9 8) True = Inr True"
    using ContainsSegment_inside [OF ring r(4) _ _ _ _ _ ends] by (simp add: grid_def)
  moreover have "rect_ContainsRect (sRect ring) (series_Rect line)"
    using boxed_ring_covers [OF r(3) l(1) g] by (simp add: xs_of_def ys_of_def)
  ultimately have c: "ringContainsLine ring line True = Inr True"
    using concave_ring_contains_segment [OF r(3,4) l(2)] by simp
  let ?poly = "\<lparr>Exterior = Some ring, Holes = []\<rparr>"
  have p: "NewPoly (ipoints notched) [] None = Inr ?poly" using r(1) by (simp add: NewPoly_def)
  have "poly_of ?poly notched []" using r(2) by (simp add: poly_of_def)
  from poly_of_contains [OF this, of 6 8] have "poly_ContainsPoint (Some ?poly) (ipoint 6 8) = Inr False"
    by (simp add: even_odd_def edges_def edge_on_def on_seg_def edge_crosses_def crosses_def crosses_up_def)
  moreover have "poly_ContainsLine (Some ?poly) (Some line) = Inr True" using c by (simp add: poly_ContainsLine_def)
  moreover have "line_ContainsPoint (Some line) (ipoint 6 8) = Inr True"
    using line_of_ContainsPoint [OF l(2), of 6 8] by (simp add: grid_def legs_def edge_on_def on_seg_def)
  ultimately show ?thesis using p l(1) by blast
qed

end
