(* ===== verification/Rectangles.thy ===== *)
theory Rectangles
  imports Segment_Inside
begin

text \<open>
  Rectangles beside polygons: the methods of the interface that ask whether areas, lines and points
  intersect are exact and agree with each other on a grid of integers, and a rectangle that is taken for a polygon
  contains what the rectangle contains, for all finite coordinates.
\<close>


section \<open>Areas on the grid\<close>

text \<open>A rectangle or a polygon without holes, with the corners of its border.\<close>

fun area_of :: "Geometry \<Rightarrow> (int \<times> int) list \<Rightarrow> bool" where
  "area_of (GRect r) pts = (\<exists>x0 y0 x1 y1. \<bar>x0\<bar> \<le> 2 ^ 24 \<and> \<bar>y0\<bar> \<le> 2 ^ 24 \<and> \<bar>x1\<bar> \<le> 2 ^ 24 \<and> \<bar>y1\<bar> \<le> 2 ^ 24 \<and>
     x0 \<le> x1 \<and> y0 \<le> y1 \<and> r = irect x0 y0 x1 y1 \<and> pts = rect_corners x0 y0 x1 y1)"
| "area_of (GPoly (Some poly)) pts = (\<exists>ring. poly = \<lparr>Exterior = Some ring, Holes = []\<rparr> \<and> boxed_ring ring pts)"
| "area_of _ pts = False"

lemma rect_boxed_ring:
  assumes "grid x0" "grid y0" "grid x1" "grid y1" "x0 \<le> x1" "y0 \<le> y1"
  shows "boxed_ring (RectSeries (irect x0 y0 x1 y1)) (rect_corners x0 y0 x1 y1)"
proof -
  have m: "Min (xs_of (rect_corners x0 y0 x1 y1)) = x0" "Max (xs_of (rect_corners x0 y0 x1 y1)) = x1"
    "Min (ys_of (rect_corners x0 y0 x1 y1)) = y0" "Max (ys_of (rect_corners x0 y0 x1 y1)) = y1"
    using assms(5,6) by (simp_all add: xs_of_def ys_of_def rect_corners_def)
  have "fint (X (RMin (irect x0 y0 x1 y1))) x0" "fint (X (RMax (irect x0 y0 x1 y1))) x1"
    "fint (Y (RMin (irect x0 y0 x1 y1))) y0" "fint (Y (RMax (irect x0 y0 x1 y1))) y1"
    using assms(1-4) grid_fint by (simp_all add: irect_def ipoint_def mk_rect_def mk_point_def)
  then show ?thesis using rect_grid_series [OF assms] by (simp add: boxed_ring_def m rect_Rect_def)
qed

lemma NewPoly_area:
  assumes "grid_ring pts"
  shows "\<exists>poly. NewPoly (ipoints pts) [] opts = Inr poly \<and> area_of (GPoly (Some poly)) pts"
  using newRing_boxed [OF assms, of opts] by (auto simp: NewPoly_def)

lemma rect_even_odd:
  assumes "grid x0" "grid y0" "grid x1" "grid y1" "x0 \<le> x1" "y0 \<le> y1" "grid px" "grid py"
  shows "even_odd (rect_corners x0 y0 x1 y1) px py True \<longleftrightarrow> x0 \<le> px \<and> px \<le> x1 \<and> y0 \<le> py \<and> py \<le> y1"
proof -
  have r: "rect_fin (irect x0 y0 x1 y1)" "point_ok (ipoint px py)"
    using assms by (auto simp: rect_fin_def rect_ok_def point_fin_def point_ok_def)
  have "\<bar>px\<bar> \<le> 2 ^ 24" "\<bar>py\<bar> \<le> 2 ^ 24" using assms(7,8) by (simp_all only: grid_def)
  then have "in_ring (RectSeries (irect x0 y0 x1 y1)) (ipoint px py) True = even_odd (rect_corners x0 y0 x1 y1) px py True"
    by (rule grid_series_in [OF rect_grid_series [OF assms(1-6)]])
  moreover have "in_ring (RectSeries (irect x0 y0 x1 y1)) (ipoint px py) True = rect_ContainsPoint (irect x0 y0 x1 y1) (ipoint px py)"
    using rect_ring_in [OF r, of True] by (auto simp: in_ring_def)
  moreover have "rect_ContainsPoint (irect x0 y0 x1 y1) (ipoint px py) \<longleftrightarrow> x0 \<le> px \<and> px \<le> x1 \<and> y0 \<le> py \<and> py \<le> y1"
    using assms by (auto simp: rect_ContainsPoint_def)
  ultimately show ?thesis by simp
qed

lemma boxed_ring_series: "boxed_ring ring pts \<Longrightarrow> grid_series ring pts"
  by (simp add: boxed_ring_def)

lemma boxed_rings_touch:
  assumes "boxed_ring ring pts" "boxed_ring other qts" "regions_meet pts qts"
  shows "rect_IntersectsRect (sRect ring) (sRect other)"
proof -
  have r: "grid_series ring pts" "grid_series other qts" using assms by (simp_all add: boxed_ring_series)
  then have "3 \<le> length pts" "3 \<le> length qts" by (auto simp: grid_series_def grid_ring_def)
  then show ?thesis
    using assms(3) grid_series_touch_rects [OF r] grid_series_touch_rects [OF r(2,1)] rect_IntersectsRect_sym
    unfolding regions_meet_edges by (metis sides_share)
qed

text \<open>Two rectangles: the corner with the greater of the lower and left coordinates is common.\<close>

lemma rects_intersect:
  assumes r: "grid x0" "grid y0" "grid x1" "grid y1" "x0 \<le> x1" "y0 \<le> y1"
    and s: "grid u0" "grid v0" "grid u1" "grid v1" "u0 \<le> u1" "v0 \<le> v1"
  shows "rect_IntersectsRect (irect x0 y0 x1 y1) (irect u0 v0 u1 v1) \<longleftrightarrow>
    regions_meet (rect_corners x0 y0 x1 y1) (rect_corners u0 v0 u1 v1)"
proof
  assume "rect_IntersectsRect (irect x0 y0 x1 y1) (irect u0 v0 u1 v1)"
  then have o: "x0 \<le> u1" "u0 \<le> x1" "y0 \<le> v1" "v0 \<le> y1" using r s by (simp_all add: rect_IntersectsRect_grid)
  let ?x = "max x0 u0" and ?y = "max y0 v0"
  have g: "grid ?x" "grid ?y" using r s by simp_all
  have "even_odd (rect_corners x0 y0 x1 y1) ?x ?y True" "even_odd (rect_corners u0 v0 u1 v1) ?x ?y True"
    unfolding rect_even_odd [OF r g] rect_even_odd [OF s g] using r s o by auto
  then have "region (rect_corners x0 y0 x1 y1) 1 ?x ?y \<and> region (rect_corners u0 v0 u1 v1) 1 ?x ?y" by (simp add: region_def)
  then show "regions_meet (rect_corners x0 y0 x1 y1) (rect_corners u0 v0 u1 v1)"
    unfolding regions_meet_def by (intro exI [of _ 1] exI [of _ ?x] exI [of _ ?y]) simp
next
  assume "regions_meet (rect_corners x0 y0 x1 y1) (rect_corners u0 v0 u1 v1)"
  from boxed_rings_touch [OF rect_boxed_ring [OF r] rect_boxed_ring [OF s] this]
  show "rect_IntersectsRect (irect x0 y0 x1 y1) (irect u0 v0 u1 v1)" by (simp add: rect_Rect_def)
qed

lemma area_ring:
  assumes "area_of g pts"
  obtains ring where "boxed_ring ring pts" "case g of GRect r \<Rightarrow> ring = RectSeries r |
    GPoly poly \<Rightarrow> poly = Some \<lparr>Exterior = Some ring, Holes = []\<rparr> | _ \<Rightarrow> False"
  using assms rect_boxed_ring by (cases "(g, pts)" rule: area_of.cases) (auto simp: grid_def)

lemma polys_intersect:
  assumes "boxed_ring ring pts" "boxed_ring other qts"
  shows "poly_IntersectsPoly (Some \<lparr>Exterior = Some ring, Holes = []\<rparr>) (Some \<lparr>Exterior = Some other, Holes = []\<rparr>) =
    Inr (regions_meet pts qts)"
proof -
  have "regions_meet qts pts = regions_meet pts qts" unfolding regions_meet_def by blast
  then show ?thesis using boxed_rings_intersect [OF assms(2,1)] by (simp add: poly_IntersectsPoly_def)
qed

text \<open>The methods of a rectangle and of a polygon without holes that take a line, a rectangle or a polygon.\<close>

lemma area_IntersectsLine:
  assumes "area_of g pts" "line_of line ls"
  shows "geom_IntersectsLine g (Some line) = Inr (\<exists>e \<in> set (legs ls). shares_point pts e)"
  using assms(1)
  by (auto elim!: area_ring simp: rect_IntersectsLine_def poly_IntersectsLine_def
      grid_series_IntersectsLine [OF boxed_ring_series assms(2)] split: Geometry.splits)

lemma area_IntersectsPoly:
  assumes "area_of g pts" "area_of (GPoly (Some poly)) rts"
  shows "geom_IntersectsPoly g (Some poly) = Inr (regions_meet pts rts)"
proof -
  obtain other where o: "poly = \<lparr>Exterior = Some other, Holes = []\<rparr>" "boxed_ring other rts" using assms(2) by auto
  have "regions_meet rts pts = regions_meet pts rts" unfolding regions_meet_def by blast
  then show ?thesis
    using assms(1) polys_intersect [OF _ o(2)] polys_intersect [OF o(2)]
    by (auto elim!: area_ring simp: rect_IntersectsPoly_def poly_IntersectsRect_def poly_of_rect_def o(1) split: Geometry.splits)
qed

lemma area_IntersectsRect:
  assumes "area_of g pts" "area_of (GRect r) qts"
  shows "geom_IntersectsRect g r = Inr (regions_meet pts qts)"
proof -
  obtain x0 y0 x1 y1 where r: "grid x0" "grid y0" "grid x1" "grid y1" "x0 \<le> x1" "y0 \<le> y1" "r = irect x0 y0 x1 y1" "qts = rect_corners x0 y0 x1 y1"
    using assms(2) by (auto simp: grid_def)
  show ?thesis
  proof (cases g)
    case (GRect r')
    then obtain u0 v0 u1 v1 where s: "grid u0" "grid v0" "grid u1" "grid v1" "u0 \<le> u1" "v0 \<le> v1" "r' = irect u0 v0 u1 v1" "pts = rect_corners u0 v0 u1 v1"
      using assms(1) by (auto simp: grid_def)
    show ?thesis using rects_intersect [OF s(1-6) r(1-6)] GRect by (simp add: r(7,8) s(7,8))
  next
    case (GPoly p)
    then obtain ring where ring: "p = Some \<lparr>Exterior = Some ring, Holes = []\<rparr>" "boxed_ring ring pts"
      using assms(1) by (cases p) auto
    show ?thesis
      using polys_intersect [OF ring(2) rect_boxed_ring [OF r(1-6)]] GPoly ring(1)
      by (simp add: poly_IntersectsRect_def poly_of_rect_def r(7,8))
  qed (use assms(1) in auto)
qed

lemma area_IntersectsPoint:
  assumes "area_of g pts" "grid px" "grid py"
  shows "geom_IntersectsPoint g (ipoint px py) = Inr (even_odd pts px py True)"
proof (cases g)
  case (GRect r)
  then obtain x0 y0 x1 y1 where r: "grid x0" "grid y0" "grid x1" "grid y1" "x0 \<le> x1" "y0 \<le> y1" "r = irect x0 y0 x1 y1" "pts = rect_corners x0 y0 x1 y1"
    using assms(1) by (auto simp: grid_def)
  show ?thesis using rect_even_odd [OF r(1-6) assms(2,3)] assms(2,3) r GRect by (auto simp: rect_IntersectsPoint_def rect_ContainsPoint_def)
next
  case (GPoly p)
  then obtain ring where ring: "p = Some \<lparr>Exterior = Some ring, Holes = []\<rparr>" "boxed_ring ring pts"
    using assms(1) by (cases p) auto
  have g: "\<bar>px\<bar> \<le> 2 ^ 24" "\<bar>py\<bar> \<le> 2 ^ 24" using assms(2,3) by (simp_all only: grid_def)
  have "poly_ok \<lparr>Exterior = Some ring, Holes = []\<rparr>"
    using boxed_ring_series [OF ring(2)] by (simp add: poly_ok_def grid_series_def)
  then show ?thesis
    using ContainsPoint_in_ring [of "\<lparr>Exterior = Some ring, Holes = []\<rparr>" ring "ipoint px py"]
      grid_series_in [OF boxed_ring_series [OF ring(2)] g, of True] GPoly ring(1)
    by (simp add: poly_IntersectsPoint_def)
qed (use assms(1) in auto)

text \<open>
  C8: the methods of the interface that ask whether shapes intersect are exact and agree with each other, for
  rectangles and polygons without holes and lines with integer coordinates of at most 2 ^ 24: areas intersect exactly if their
  closed regions have a common point with rational coordinates, an area and a line exactly if some leg has a point in
  the region, whichever of the two is the receiver, and an area and a point exactly if the even-odd rule says so, whichever is the
  receiver. Two lines, and a line and a point, are the subject of other theorems.
\<close>

theorem geometry_intersects_exact:
  assumes "area_of g pts" "area_of (GRect r) qts" "area_of (GPoly (Some poly)) rts" "line_of line ls"
    and "\<bar>px\<bar> \<le> 2 ^ 24" "\<bar>py\<bar> \<le> 2 ^ 24"
  shows "geom_IntersectsRect g r = Inr (regions_meet pts qts) \<and>
    geom_IntersectsPoly g (Some poly) = Inr (regions_meet pts rts) \<and>
    geom_IntersectsLine g (Some line) = Inr (\<exists>e \<in> set (legs ls). shares_point pts e) \<and>
    geom_IntersectsRect (GLine (Some line)) r = Inr (\<exists>e \<in> set (legs ls). shares_point qts e) \<and>
    geom_IntersectsPoly (GLine (Some line)) (Some poly) = Inr (\<exists>e \<in> set (legs ls). shares_point rts e) \<and>
    geom_IntersectsPoint g (ipoint px py) = Inr (even_odd pts px py True) \<and>
    geom_IntersectsRect (GPoint (ipoint px py)) r = Inr (even_odd qts px py True) \<and>
    geom_IntersectsPoly (GPoint (ipoint px py)) (Some poly) = Inr (even_odd rts px py True)"
proof -
  have "grid px" "grid py" using assms(5,6) by (simp_all only: grid_def)
  then show ?thesis
    using area_IntersectsRect [OF assms(1,2)] area_IntersectsPoly [OF assms(1,3)] area_IntersectsLine [OF assms(1,4)]
      area_IntersectsLine [OF assms(2,4)] area_IntersectsLine [OF assms(3,4)]
      area_IntersectsPoint [OF assms(1)] area_IntersectsPoint [OF assms(2)] area_IntersectsPoint [OF assms(3)]
    by (simp add: line_IntersectsRect_def line_IntersectsPoly_def point_IntersectsRect_def point_IntersectsPoly_def rect_IntersectsPoint_def)
qed

theorem geometry_intersects_exact_witness:
  "\<exists>poly line. NewPoly (map (\<lambda>(x, y). ipoint x y) [(0, 0), (9, 0), (0, 9)]) [] None = Inr poly \<and>
    NewLine (map (\<lambda>(x, y). ipoint x y) [(5, 1), (5, 9)]) None = Inr line \<and>
    geom_IntersectsLine (GPoly (Some poly)) (Some line) = Inr True \<and>
    geom_IntersectsPoint (GPoly (Some poly)) (ipoint 5 9) = Inr False"
proof -
  have g: "grid_ring [(0, 0), (9, 0), (0, 9)]" "grid_line [(5, 1), (5, 9)]" by (simp_all add: grid_ring_def grid_line_def)
  obtain poly where p: "NewPoly (ipoints [(0, 0), (9, 0), (0, 9)]) [] None = Inr poly" "area_of (GPoly (Some poly)) [(0, 0), (9, 0), (0, 9)]"
    using NewPoly_area [OF g(1)] by blast
  obtain line where l: "NewLine (ipoints [(5, 1), (5, 9)]) None = Inr line" "line_of line [(5, 1), (5, 9)]" using NewLine_line_of [OF g(2)] by blast
  have r: "area_of (GRect (irect 0 0 1 1)) (rect_corners 0 0 1 1)"
    unfolding area_of.simps by (rule exI [of _ 0], rule exI [of _ 0], rule exI [of _ 1], rule exI [of _ 1]) simp
  have "even_odd [(0, 0), (9, 0), (0, 9)] 5 1 True" "\<not> even_odd [(0, 0), (9, 0), (0, 9)] 5 9 True"
    by (simp_all add: even_odd_def edges_def edge_on_def edge_crosses_def on_seg_def crosses_def crosses_up_def)
  then show ?thesis
    using geometry_intersects_exact [OF p(2) r p(2) l(2), of 5 9] p(1) l(1) by (auto simp: legs_def shares_point_iff)
qed

section \<open>A rectangle as a polygon\<close>

text \<open>A ring or line with its least rectangle: the rectangle covers the points, and every rectangle around them covers it.\<close>

definition snug :: "Series \<Rightarrow> bool" where
  "snug s \<longleftrightarrow> \<not> sEmpty s \<and> rect_fin (sRect s) \<and>
     (\<forall>i \<in> set [0..sNumPoints s - 1]. \<exists>p. sPointAt s i = Inr p \<and> point_ok p \<and> rect_ContainsPoint (sRect s) p) \<and>
     (\<forall>t. rect_ok t \<longrightarrow> (\<forall>i \<in> set [0..sNumPoints s - 1]. \<exists>p. sPointAt s i = Inr p \<and> rect_ContainsPoint t p) \<longrightarrow>
        rect_ContainsRect t (sRect s))"

lemma ContainsRect_point:
  "rect_ok r \<Longrightarrow> rect_ContainsRect r s \<Longrightarrow> rect_ContainsPoint s p \<Longrightarrow> rect_ContainsPoint r p"
  by (auto simp: rect_ContainsRect_def rect_ContainsPoint_def rect_ok_def f64_order split: if_splits)

lemma rect_upto: "set [0..rect_NumPoints r - 1] = {0, 1, 2, 3, 4}"
  by (auto simp: rect_NumPoints_def)

lemma rect_snug: "rect_fin r \<Longrightarrow> snug (RectSeries r)"
  unfolding snug_def sNumPoints.simps rect_upto
  by (auto simp: rect_Empty_def rect_Rect_def rect_PointAt_def rect_fin_def rect_ok_def point_fin_def point_ok_def
      rect_ContainsPoint_def rect_ContainsRect_def mk_point_def f_class(1) f64_order)

text \<open>All points of the series are in the rectangle, by the ring test, exactly if its least rectangle is.\<close>

lemma rect_contains_points:
  assumes "rect_fin r" "snug s"
  shows "allM (\<lambda>i. rbind (sPointAt s i) (\<lambda>p. rbind (ringContainsPoint (RectSeries r) p True) (\<lambda>res. Inr (hit res)))) [0..sNumPoints s - 1] =
    Inr (rect_ContainsRect r (sRect s))"
proof -
  have ok: "rect_ok r" using assms(1) by (simp add: rect_fin_def)
  have "allM (\<lambda>i. rbind (sPointAt s i) (\<lambda>p. rbind (ringContainsPoint (RectSeries r) p True) (\<lambda>res. Inr (hit res)))) [0..sNumPoints s - 1] =
      Inr (\<forall>i \<in> set [0..sNumPoints s - 1]. rect_ContainsPoint r (projr (sPointAt s i)))"
  proof (rule allM_total)
    fix i assume "i \<in> set [0..sNumPoints s - 1]"
    then obtain p where p: "sPointAt s i = Inr p" "point_ok p" using assms(2) unfolding snug_def by blast
    then show "rbind (sPointAt s i) (\<lambda>p. rbind (ringContainsPoint (RectSeries r) p True) (\<lambda>res. Inr (hit res))) =
        Inr (rect_ContainsPoint r (projr (sPointAt s i)))"
      using rect_ring_in [OF assms(1) p(2), of True] by auto
  qed
  also have "(\<forall>i \<in> set [0..sNumPoints s - 1]. rect_ContainsPoint r (projr (sPointAt s i))) \<longleftrightarrow> rect_ContainsRect r (sRect s)"
  proof
    assume "\<forall>i \<in> set [0..sNumPoints s - 1]. rect_ContainsPoint r (projr (sPointAt s i))"
    then have "\<forall>i \<in> set [0..sNumPoints s - 1]. \<exists>p. sPointAt s i = Inr p \<and> rect_ContainsPoint r p"
      using assms(2) unfolding snug_def by (metis sum.sel(2))
    then show "rect_ContainsRect r (sRect s)" using assms(2) ok unfolding snug_def by blast
  next
    assume c: "rect_ContainsRect r (sRect s)"
    show "\<forall>i \<in> set [0..sNumPoints s - 1]. rect_ContainsPoint r (projr (sPointAt s i))"
    proof
      fix i assume "i \<in> set [0..sNumPoints s - 1]"
      then obtain p where "sPointAt s i = Inr p" "rect_ContainsPoint (sRect s) p" using assms(2) unfolding snug_def by blast
      then show "rect_ContainsPoint r (projr (sPointAt s i))" using ContainsRect_point [OF ok c] by simp
    qed
  qed
  finally show ?thesis .
qed

lemma rect_contains_small:
  assumes "rect_fin r" "snug s" "sNumPoints s < 16"
  shows "ringContainsRing (RectSeries r) s True = Inr (rect_ContainsRect r (sRect s))"
proof -
  have "\<not> sEmpty s" using assms(2) by (simp add: snug_def)
  then show ?thesis
    using assms(3) rect_contains_points [OF assms(1,2)]
    by (subst ringContainsRing.simps) (simp add: complexRingMinPoints_def rect_Empty_def rect_Rect_def rect_Convex_def)
qed

lemma rect_contains_ring:
  assumes "rect_fin r" "snug s"
  shows "ringContainsRing (RectSeries r) s True = Inr (rect_ContainsRect r (sRect s))"
proof (cases "sNumPoints s < 16")
  case True
  then show ?thesis by (rule rect_contains_small [OF assms])
next
  case False
  have ne: "\<not> sEmpty s" and fin: "rect_fin (sRect s)" using assms(2) by (simp_all add: snug_def)
  have "ringContainsRing (RectSeries r) (RectSeries (sRect s)) True = Inr (rect_ContainsRect r (sRect s))"
    using rect_contains_small [OF assms(1) rect_snug [OF fin]] by (simp add: rect_NumPoints_def rect_Rect_def)
  then show ?thesis
    using False ne
    by (subst ringContainsRing.simps) (simp add: complexRingMinPoints_def rect_Empty_def rect_Rect_def)
qed

lemma makeSeries_snug:
  assumes "makeSeries points True is_closed opts = Inr bs" "\<forall>p \<in> set points. point_fin p" "length points \<le> 2 ^ 20"
  shows "series_Empty (Some bs) \<or> snug (BaseSeries bs)"
proof (rule disjCI)
  assume "\<not> snug (BaseSeries bs)"
  have len: "length points < 2 ^ 63" and ok: "\<forall>p \<in> set points. point_ok p" using assms(2,3) point_fin_ok by auto
  have bs: "bs_points bs = points" "bs_closed bs = is_closed"
    using makeSeries_ok [OF ok len, of True is_closed opts] assms(1) by auto
  show "series_Empty (Some bs)"
  proof (rule ccontr)
    assume ne: "\<not> series_Empty (Some bs)"
    then have n: "\<not> ((is_closed \<and> length points < 3) \<or> length points < 2)" using bs by (simp add: series_Empty_def)
    note box = makeSeries_box [OF assms(1,2) len n]
    have fin: "rect_fin (bs_rect bs)"
      using box(1) makeSeries_fin [OF assms(2,3) assms(1)] by (simp add: rect_fin_def rect_fin_corners_def)
    have pt: "sPointAt (BaseSeries bs) i = Inr (points ! nat i) \<and> points ! nat i \<in> set points"
      if "i \<in> set [0..sNumPoints (BaseSeries bs) - 1]" for i
      using that by (auto simp: series_PointAt_def series_NumPoints_def index_at_def bs(1))
    have least: "rect_ContainsRect t (bs_rect bs)"
      if t: "rect_ok t" "\<forall>i \<in> set [0..sNumPoints (BaseSeries bs) - 1]. \<exists>p. sPointAt (BaseSeries bs) i = Inr p \<and> rect_ContainsPoint t p" for t
    proof (rule box(3) [OF t(1)], rule ballI)
      fix p assume "p \<in> set points"
      then obtain k where k: "k < length points" "p = points ! k" by (auto simp: in_set_conv_nth)
      then have i: "int k \<in> set [0..sNumPoints (BaseSeries bs) - 1]" by (simp add: series_NumPoints_def bs(1))
      show "rect_ContainsPoint t p" using bspec [OF t(2) i] pt [OF i] k(2) by auto
    qed
    have "snug (BaseSeries bs)"
      unfolding snug_def sEmpty.simps sRect.simps series_Rect_def
      using ne fin pt ok box(2) least by blast
    then show False using \<open>\<not> snug (BaseSeries bs)\<close> by blast
  qed
qed

lemma NewPoly_exterior:
  assumes "NewPoly ext holes opts = Inr poly"
  obtains bs where "makeSeries ext True True opts = Inr bs" "Exterior poly = Some (BaseSeries bs)"
  using assms by (auto simp: NewPoly_def newRing_def split: if_splits)

text \<open>
  C25: a rectangle as a polygon, which is how a polygon's \<open>ContainsRect\<close> and \<open>IntersectsRect\<close> see one, contains exactly the points,
  rectangles, lines and polygons that the rectangle itself contains by its much simpler methods; for all finite
  coordinates, with and without an index, holes and empty shapes included.
\<close>

theorem rect_as_poly_contains:
  assumes "rect_fin r" "point_ok p" "rect_fin r'"
    and "\<forall>ps \<in> set (points # ext # holes). (\<forall>q \<in> set ps. point_fin q) \<and> length ps \<le> 2 ^ 20"
    and "NewLine points opts = Inr line" "NewPoly ext holes opts' = Inr poly"
  shows "poly_ContainsPoint (Some (poly_of_rect r)) p = Inr (rect_ContainsPoint r p) \<and>
    poly_ContainsRect (Some (poly_of_rect r)) r' = Inr (rect_ContainsRect r r') \<and>
    poly_ContainsLine (Some (poly_of_rect r)) (Some line) = Inr (rect_ContainsLine r (Some line)) \<and>
    poly_ContainsPoly (Some (poly_of_rect r)) (Some poly) = Inr (rect_ContainsPoly r (Some poly))"
proof (intro conjI)
  have ext: "Exterior (poly_of_rect r) = Some (RectSeries r)" "Holes (poly_of_rect r) = []" by (simp_all add: poly_of_rect_def)
  show "poly_ContainsPoint (Some (poly_of_rect r)) p = Inr (rect_ContainsPoint r p)"
    using rect_ring_in [OF assms(1,2), of True] ext by (auto simp: poly_ContainsPoint_def poly_ContainsPointEx_def)
  show "poly_ContainsRect (Some (poly_of_rect r)) r' = Inr (rect_ContainsRect r r')"
    using rect_contains_ring [OF assms(1) rect_snug [OF assms(3)]] ext
    by (cases "rect_ContainsRect r r'") (simp_all add: poly_ContainsRect_def poly_ContainsPoly_def poly_of_rect_def rect_Rect_def)
  have empty: "ringContainsRing (RectSeries r) s True = Inr False" if "sEmpty s" for s
    using that by (subst ringContainsRing.simps) simp
  have line: "series_Empty (Some line) \<or> snug (BaseSeries line)"
    using makeSeries_snug [of points False opts line] assms(4,5) by (simp add: NewLine_def)
  show "poly_ContainsLine (Some (poly_of_rect r)) (Some line) = Inr (rect_ContainsLine r (Some line))"
    using line empty [of "BaseSeries line"] rect_contains_ring [OF assms(1), of "BaseSeries line"] ext
    by (auto simp: poly_ContainsLine_def ringContainsLine_def rect_ContainsLine_def snug_def)
  obtain bs where bs: "makeSeries ext True True opts' = Inr bs" "Exterior poly = Some (BaseSeries bs)"
    using assms(6) by (rule NewPoly_exterior)
  then have "series_Empty (Some bs) \<or> snug (BaseSeries bs)" using makeSeries_snug [OF bs(1)] assms(4) by simp
  then show "poly_ContainsPoly (Some (poly_of_rect r)) (Some poly) = Inr (rect_ContainsPoly r (Some poly))"
    using empty [of "BaseSeries bs"] rect_contains_ring [OF assms(1), of "BaseSeries bs"] ext bs(2)
    by (auto simp: poly_ContainsPoly_def rect_ContainsPoly_def poly_Empty_def poly_Rect_def snug_def)
qed

theorem rect_as_poly_contains_witness:
  "\<exists>line poly. NewLine [ipoint 1 1, ipoint 9 1] None = Inr line \<and> NewPoly triangle [] None = Inr poly \<and>
    poly_ContainsLine (Some (poly_of_rect (irect 0 0 4 4))) (Some line) = Inr (rect_ContainsLine (irect 0 0 4 4) (Some line)) \<and>
    poly_ContainsPoly (Some (poly_of_rect (irect 0 0 4 4))) (Some poly) = Inr (rect_ContainsPoly (irect 0 0 4 4) (Some poly))"
proof -
  have r: "rect_fin (irect 0 0 4 4)" by (simp add: rect_fin_def rect_ok_def point_fin_def)
  have f: "\<forall>ps \<in> set [[ipoint 1 1, ipoint 9 1], triangle]. (\<forall>q \<in> set ps. point_fin q) \<and> length ps \<le> 2 ^ 20"
    by (auto simp: point_fin_def)
  obtain line where l: "NewLine [ipoint 1 1, ipoint 9 1] None = Inr line"
    using NewLine_fin [of "[ipoint 1 1, ipoint 9 1]" None] f by auto
  obtain poly where p: "NewPoly triangle [] None = Inr poly" using NewPoly_fin [of triangle "[]" None] f by auto
  show ?thesis using rect_as_poly_contains [OF r _ r f l p, of "ipoint 0 0"] l p by (simp add: point_ok_def)
qed

end
