(* ===== verification/Enclosure.thy ===== *)
theory Enclosure
  imports Ring_Contact
begin

text \<open>
  Where a ring lies inside another one and where a segment leaves a ring, on the integer grid and for all points with
  rational coordinates: borders that do not meet enclose one another as their corners do, and a segment that
  crosses an edge of a simple ring has a point outside.
\<close>


section \<open>A ring whose corners and edges are inside another ring\<close>

text \<open>All of an edge that meets no edge of the ring is where its first end is.\<close>

lemma edge_all_inside:
  assumes "\<forall>f \<in> set (edges pts). \<not> edges_meet ((cx, cy), (dx, d)) f" "even_odd pts cx cy True"
    and "hits_edge ax ay bx b t ((cx, cy), (dx, d))"
  shows "inside_at pts ax ay bx b t"
proof -
  obtain q px py where p: "0 < q" "of_int px = of_int q * along ax bx t" "of_int py = of_int q * along ay b t"
    by (rule common_denominator)
  have "on_seg (q * cx) (q * cy) (q * dx) (q * d) px py"
    using hits_edge_scaled [OF assms(3) p(2,3)] by (simp add: edge_on_def scaled_edge_def)
  then show ?thesis using region_along [OF assms(1) p(1)] inside_at_region [OF p] assms(2) by simp
qed

text \<open>
  Two rings whose edges do not meet are not inside each other: the leftmost corner of the outer one would have a corner of the
  inner one further left.
\<close>

lemma not_mutual:
  assumes apart: "\<And>e f. e \<in> set (edges qts) \<Longrightarrow> f \<in> set (edges pts) \<Longrightarrow> \<not> edges_meet e f"
    and corners: "\<forall>(x, y) \<in> set qts. even_odd pts x y True" and touch: "\<exists>f \<in> set (edges pts). shares_point qts f"
  shows False
proof -
  have ne: "xs_of pts \<noteq> {}" using touch by (auto simp: edges_def)
  then obtain y where v: "(Min (xs_of pts), y) \<in> set pts" using Min_in [OF finite_coords(1) ne] unfolding xs_of_def by (metis imageE prod.collapse)
  have "\<exists>(x', y') \<in> set qts. x' < Min (xs_of pts)"
    by (rule swallowed_corner(2) [OF _ touch v]) (use apart edges_meet_sym in blast)
  then obtain x' y' where w: "(x', y') \<in> set qts" "x' < Min (xs_of pts)" by blast
  then obtain x'' y'' where "(x'', y'') \<in> set pts" "x'' \<le> x'" using surrounded(1) [of pts x' y'] corners by blast
  moreover from this have "Min (xs_of pts) \<le> x''" by (intro Min_le) (force simp: xs_of_def)+
  ultimately show False using w(2) by simp
qed

text \<open>
  If no edge of the inner ring meets an edge of the outer one and the corners of the inner one are in the outer one,
  so is everything in the inner ring. On a walk from a point that were not, an edge of the outer ring would come
  first, inside the inner ring; then all of the outer ring would be inside the inner one, which its
  leftmost corner refutes.
\<close>

lemma enclosed_1:
  assumes apart: "\<And>e f. e \<in> set (edges qts) \<Longrightarrow> f \<in> set (edges pts) \<Longrightarrow> \<not> edges_meet e f"
    and corners: "\<forall>(x, y) \<in> set qts. even_odd pts x y True" and p: "even_odd qts px py True"
  shows "even_odd pts px py True"
proof (rule ccontr)
  assume out: "\<not> even_odd pts px py True"
  obtain bx b t0 e where e0: "e \<in> set (edges qts)" "hits_edge px py bx b t0 e" "0 \<le> t0"
    and first: "\<And>t e'. e' \<in> set (edges qts) \<Longrightarrow> hits_edge px py bx b t e' \<Longrightarrow> 0 \<le> t \<Longrightarrow> t0 \<le> t"
    using first_hit [OF p] by metis
  then obtain cx cy dx d where e: "((cx, cy), (dx, d)) \<in> set (edges qts)" "hits_edge px py bx b t0 ((cx, cy), (dx, d))"
    by (metis prod.exhaust)
  let ?in = "\<lambda>ps t. inside_at ps px py bx b t"
  have "?in pts t0"
    using edge_all_inside [OF _ _ e(2)] apart [OF e(1)] corners edges_in [OF e(1)] by blast
  then obtain f t1 where f: "f \<in> set (edges pts)" "hits_edge px py bx b t1 f" "0 \<le> t1" "t1 \<le> t0"
    using walk [OF e0(3), of pts px py bx b] out unfolding inside_at_0 by auto
  have "?in qts t1"
  proof (rule ccontr)
    assume no: "\<not> ?in qts t1"
    then obtain g t2 where g: "g \<in> set (edges qts)" "hits_edge px py bx b t2 g" "0 \<le> t2" "t2 \<le> t1"
      using walk [OF f(3), of qts px py bx b] p unfolding inside_at_0 by auto
    have "t0 \<le> t2" using first g(1-3) by blast
    then have "t1 = t0" using f(4) g(4) by simp
    then show False using no hits_inside [OF e(1,2)] by simp
  qed
  then have touch: "\<exists>f \<in> set (edges pts). shares_point qts f" using hits_shares f(1,2) by blast
  show False by (rule not_mutual [OF apart corners touch])
qed

lemma enclosed:
  assumes "\<forall>e \<in> set (edges qts). \<forall>f \<in> set (edges pts). \<not> edges_meet e f"
    and "\<forall>(x, y) \<in> set qts. even_odd pts x y True" and "0 < q" "region qts q px py"
  shows "region pts q px py"
  unfolding region_def
proof (rule enclosed_1)
  show "even_odd (scaled q qts) px py True" using assms(4) by (simp add: region_def)
  show "\<forall>(x, y) \<in> set (scaled q qts). even_odd (scaled q pts) x y True"
    using assms(2) even_odd_scaled [OF assms(3), of pts] by (auto simp: scaled_def)
  show "\<not> edges_meet e f" if "e \<in> set (edges (scaled q qts))" "f \<in> set (edges (scaled q pts))" for e f
    using assms(1,3) that unfolding scaled_edges
    by (fastforce simp: scaled_edge_def edges_meet_def segs_meet_scaled split: prod.splits)
qed

section \<open>A segment that crosses a simple ring leaves it\<close>

text \<open>Two edges of a simple ring have no point in common but a corner.\<close>

definition simple_ring :: "(int \<times> int) list \<Rightarrow> bool" where
  "simple_ring pts \<longleftrightarrow> (\<forall>i j q px py. i < j \<longrightarrow> j < length (edges pts) \<longrightarrow> 0 < q \<longrightarrow>
     edge_on px py (scaled_edge q (edges pts ! i)) \<longrightarrow> edge_on px py (scaled_edge q (edges pts ! j)) \<longrightarrow>
     (px, py) \<in> set (scaled q pts))"

text \<open>The segment and an edge that cross have one point in common.\<close>

lemma crosses_once:
  assumes "hits_edge ax ay bx b t ((cx, cy), (dx, d))" "0 \<le> t" "t \<le> 1"
    and "hits_edge ax ay bx b t' ((cx, cy), (dx, d))"
    and off: "\<not> on_seg ax ay bx b cx cy" "\<not> on_seg ax ay bx b dx d" "\<not> on_seg cx cy dx d ax ay"
  shows "t = t'"
proof -
  let ?R = "(bx - ax) * (d - cy) - (b - ay) * (dx - cx)"
  obtain u where u: "0 \<le> u" "u \<le> 1" "along ax bx t = along cx dx u" "along ay b t = along cy d u"
    using assms(1) by (auto simp: hits_edge_def)
  obtain u' where u': "along ax bx t' = along cx dx u'" "along ay b t' = along cy d u'"
    using assms(4) by (auto simp: hits_edge_def)
  have "?R \<noteq> 0"
  proof
    assume R: "?R = 0"
    then have "(of_int ((cx - ax) * (b - ay) - (cy - ay) * (bx - ax)) :: rat) = 0"
      using meet_params(2) [OF u(3,4)] by simp
    then have "(cx - ax) * (b - ay) - (cy - ay) * (bx - ax) = 0" by (simp only: of_int_eq_0_iff)
    moreover have "segs_meet ax ay bx b cx cy dx d" using u assms(2,3) unfolding segs_meet_def by blast
    ultimately show False using collinear_meet [of bx ax d cy b ay dx cx] R off by simp
  qed
  moreover have "t * of_int ?R = t' * of_int ?R" using meet_params(1) [OF u(3,4)] meet_params(1) [OF u'] by simp
  ultimately show ?thesis by (simp del: of_int_diff of_int_mult)
qed

text \<open>The first part of the segment, up to the point at \<open>m\<close>.\<close>

lemma along_part: "of_int px = of_int q * along a b m \<Longrightarrow> along (q * a) px s = of_int q * along a b (s * m)"
proof -
  assume e: "of_int px = of_int q * along a b m"
  show ?thesis unfolding along_def [of "q * a" px] e by (simp add: along_def algebra_simps)
qed

lemma part_meets:
  assumes "0 < q" "of_int px = of_int q * along ax bx m" "of_int py = of_int q * along ay b m" "0 < m"
  shows "edges_meet ((q * ax, q * ay), (px, py)) (scaled_edge q f) \<longleftrightarrow> (\<exists>t. 0 \<le> t \<and> t \<le> m \<and> hits_edge ax ay bx b t f)"
proof -
  obtain cx cy dx d where f: "f = ((cx, cy), (dx, d))" by (metis prod.exhaust)
  have q: "(of_int q :: rat) \<noteq> 0" using assms(1) by simp
  have "edges_meet ((q * ax, q * ay), (px, py)) (scaled_edge q f) \<longleftrightarrow>
      (\<exists>s u. 0 \<le> s \<and> s \<le> 1 \<and> 0 \<le> u \<and> u \<le> 1 \<and> along ax bx (s * m) = along cx dx u \<and> along ay b (s * m) = along cy d u)"
    unfolding f edges_meet_def scaled_edge_def prod.case segs_meet_def along_part [OF assms(2)] along_part [OF assms(3)] along_scaled
    using q by simp
  also have "\<dots> \<longleftrightarrow> (\<exists>t. 0 \<le> t \<and> t \<le> m \<and> hits_edge ax ay bx b t f)"
  proof
    assume "\<exists>s u. 0 \<le> s \<and> s \<le> 1 \<and> 0 \<le> u \<and> u \<le> 1 \<and> along ax bx (s * m) = along cx dx u \<and> along ay b (s * m) = along cy d u"
    then obtain s u where s: "0 \<le> s" "s \<le> 1" "0 \<le> u" "u \<le> 1" "along ax bx (s * m) = along cx dx u" "along ay b (s * m) = along cy d u" by blast
    have "0 \<le> s * m" "s * m \<le> m" using s(1,2) assms(4) mult_right_mono [OF s(2), of m] by simp_all
    then show "\<exists>t. 0 \<le> t \<and> t \<le> m \<and> hits_edge ax ay bx b t f" using s unfolding f hits_edge_def by auto
  next
    assume "\<exists>t. 0 \<le> t \<and> t \<le> m \<and> hits_edge ax ay bx b t f"
    then obtain t u where t: "0 \<le> t" "t \<le> m" "0 \<le> u" "u \<le> 1" "along ax bx t = along cx dx u" "along ay b t = along cy d u"
      unfolding f hits_edge_def by auto
    have "0 \<le> t / m" "t / m \<le> 1" "t / m * m = t" using t(1,2) assms(4) by simp_all
    then show "\<exists>s u. 0 \<le> s \<and> s \<le> 1 \<and> 0 \<le> u \<and> u \<le> 1 \<and> along ax bx (s * m) = along cx dx u \<and> along ay b (s * m) = along cy d u"
      using t(3-6) by metis
  qed
  finally show ?thesis .
qed

lemma hit_point:
  assumes "0 < q" "of_int px = of_int q * along ax bx t" "of_int py = of_int q * along ay b t"
  shows "hits_edge ax ay bx b t f \<longleftrightarrow> edge_on px py (scaled_edge q f)"
proof -
  obtain cx cy dx d where f: "f = ((cx, cy), (dx, d))" by (metis prod.exhaust)
  have q: "(of_int q :: rat) \<noteq> 0" using assms(1) by simp
  show ?thesis
    unfolding f hits_edge_def edge_on_def scaled_edge_def prod.case on_seg_along assms(2,3) along_scaled using q by simp
qed

lemma one_index:
  assumes "i < length xs" "\<And>j. j < length xs \<Longrightarrow> P (xs ! j) \<longleftrightarrow> j = i"
  shows "length (filter P xs) = 1"
proof -
  have "filter P xs = map ((!) xs) (filter (\<lambda>j. P (xs ! j)) [0..<length xs])"
    using filter_map [of P "(!) xs" "[0..<length xs]"] by (simp add: map_nth comp_def)
  moreover have "filter (\<lambda>j. P (xs ! j)) [0..<length xs] = filter (\<lambda>j. j = i) [0..<length xs]"
    using assms(2) by (intro filter_cong) auto
  moreover have "filter (\<lambda>j. j = i) [0..<length xs] = [i]"
  proof -
    have "filter (\<lambda>j. j = i) [0..<n] = (if i < n then [i] else [])" for n by (induction n) auto
    then show ?thesis using assms(1) by simp
  qed
  ultimately show ?thesis by simp
qed


definition crossings :: "(int \<times> int) list \<Rightarrow> int \<Rightarrow> int \<Rightarrow> int \<Rightarrow> int \<Rightarrow> rat set" where
  "crossings pts ax ay bx b = {t. 0 \<le> t \<and> t \<le> 1 \<and> (\<exists>f \<in> set (edges pts). hits_edge ax ay bx b t f)}"

lemma finite_at_most_one: "(\<And>t t'. t \<in> H \<Longrightarrow> t' \<in> H \<Longrightarrow> t = t') \<Longrightarrow> finite H"
proof (cases "H = {}")
  case False
  assume one: "\<And>t t'. t \<in> H \<Longrightarrow> t' \<in> H \<Longrightarrow> t = t'"
  obtain t where "t \<in> H" using False by blast
  then have "H \<subseteq> {t}" using one by blast
  then show "finite H" by (rule finite_subset) simp
qed simp

lemma finite_crossings:
  assumes corners: "\<forall>(x, y) \<in> set pts. \<not> on_seg ax ay bx b x y"
    and ends: "\<forall>f \<in> set (edges pts). \<not> edge_on ax ay f"
  shows "finite (crossings pts ax ay bx b)"
proof -
  let ?H = "\<lambda>f. {t. 0 \<le> t \<and> t \<le> 1 \<and> hits_edge ax ay bx b t f}"
  have "finite (?H f)" if "f \<in> set (edges pts)" for f
  proof -
    obtain cx cy dx d where f: "f = ((cx, cy), (dx, d))" by (metis prod.exhaust)
    have c: "(cx, cy) \<in> set pts" "(dx, d) \<in> set pts" using edges_in that unfolding f by blast+
    have off: "\<not> on_seg ax ay bx b cx cy" "\<not> on_seg ax ay bx b dx d" "\<not> on_seg cx cy dx d ax ay"
      using bspec [OF corners c(1)] bspec [OF corners c(2)] bspec [OF ends that] unfolding f by (simp_all add: edge_on_def)
    show ?thesis
    proof (rule finite_at_most_one)
      fix t t' assume "t \<in> ?H f" "t' \<in> ?H f"
      then show "t = t'" using crosses_once [OF _ _ _ _ off, of t t'] unfolding f by simp
    qed
  qed
  then have "finite (\<Union>f \<in> set (edges pts). ?H f)" by simp
  moreover have "crossings pts ax ay bx b \<subseteq> (\<Union>f \<in> set (edges pts). ?H f)" unfolding crossings_def by blast
  ultimately show ?thesis by (rule rev_finite_subset)
qed

lemma first_gap:
  fixes T :: "rat set"
  assumes "finite T" "T \<noteq> {}" "\<And>t. t \<in> T \<Longrightarrow> t < 1"
  obtains t1 m where "t1 \<in> T" "t1 < m" "m \<le> 1" "\<And>t. t \<in> T \<Longrightarrow> t \<le> m \<Longrightarrow> t = t1"
proof -
  have t1: "Min T \<in> T" "\<And>t. t \<in> T \<Longrightarrow> Min T \<le> t" using assms(1,2) by simp_all
  define t2 where "t2 = Min (insert 1 {t \<in> T. Min T < t})"
  have fin: "finite (insert 1 {t \<in> T. Min T < t})" using assms(1) by simp
  have "t2 \<in> insert 1 {t \<in> T. Min T < t}" unfolding t2_def using fin by (intro Min_in) simp_all
  then have t2: "Min T < t2" using assms(3) [OF t1(1)] by auto
  have t2': "t2 \<le> 1" "\<And>t. t \<in> T \<Longrightarrow> Min T < t \<Longrightarrow> t2 \<le> t" unfolding t2_def using fin by (auto intro!: Min_le)
  have m: "Min T < (Min T + t2) / 2" "(Min T + t2) / 2 < t2" using t2 by simp_all
  show thesis
  proof (rule that [OF t1(1) m(1)])
    show "(Min T + t2) / 2 \<le> 1" using m(2) t2'(1) by simp
    show "t = Min T" if t: "t \<in> T" "t \<le> (Min T + t2) / 2" for t
    proof (rule ccontr)
      assume "t \<noteq> Min T"
      then have "t2 \<le> t" using t2'(2) [OF t(1)] t1(2) [OF t(1)] by simp
      then show False using t(2) m(2) by simp
    qed
  qed
qed

text \<open>
  Between the first edge that a segment crosses and the next one it is outside, since there the number of
  crossed edges is odd.
\<close>

lemma odd_part:
  assumes simple: "simple_ring pts" and corners: "\<forall>(x, y) \<in> set pts. \<not> on_seg ax ay bx b x y"
    and t1: "t1 \<in> crossings pts ax ay bx b" "t1 < m" "m \<le> 1"
    and first: "\<And>t. t \<in> crossings pts ax ay bx b \<Longrightarrow> t \<le> m \<Longrightarrow> t = t1"
    and p: "0 < q" "of_int px = of_int q * along ax bx m" "of_int py = of_int q * along ay b m"
  shows "length (filter (edges_meet ((q * ax, q * ay), (px, py))) (edges (scaled q pts))) = 1"
proof -
  have m: "0 < m" using t1 by (auto simp: crossings_def)
  obtain i where i: "i < length (edges pts)" "hits_edge ax ay bx b t1 (edges pts ! i)" "0 \<le> t1" "t1 \<le> 1"
    using t1(1) unfolding crossings_def by (auto simp: in_set_conv_nth)
  have meets: "edges_meet ((q * ax, q * ay), (px, py)) (scaled_edge q f) \<longleftrightarrow> hits_edge ax ay bx b t1 f" if "f \<in> set (edges pts)" for f
  proof -
    have "t = t1" if "0 \<le> t" "t \<le> m" "hits_edge ax ay bx b t f" for t
      using first [of t] that \<open>f \<in> _\<close> t1(3) by (auto simp: crossings_def)
    then show ?thesis unfolding part_meets [OF p m] using i(3) t1(2) by (metis less_imp_le)
  qed
  obtain k x y where k: "0 < k" "of_int x = of_int k * along ax bx t1" "of_int y = of_int k * along ay b t1"
    by (rule common_denominator)
  have "on_seg (k * ax) (k * ay) (k * bx) (k * b) x y"
    unfolding on_seg_along along_scaled k(2,3) using i(3,4) by blast
  then have no: "(x, y) \<notin> set (scaled k pts)"
    using corners on_seg_scaled [OF k(1), of ax ay bx b] by (auto simp: scaled_def)
  have unique: "j = i" if "j < length (edges pts)" "hits_edge ax ay bx b t1 (edges pts ! j)" for j
  proof (rule ccontr)
    assume "j \<noteq> i"
    then have "(i < j \<and> j < length (edges pts)) \<or> (j < i \<and> i < length (edges pts))" using i(1) that(1) by auto
    moreover have "edge_on x y (scaled_edge k (edges pts ! i))" "edge_on x y (scaled_edge k (edges pts ! j))"
      using i(2) that(2) unfolding hit_point [OF k] by simp_all
    ultimately show False using simple no k(1) unfolding simple_ring_def by blast
  qed
  show ?thesis
    unfolding scaled_edges
  proof (rule one_index [where i = i])
    show "edges_meet ((q * ax, q * ay), (px, py)) (map (scaled_edge q) (edges pts) ! j) \<longleftrightarrow> j = i"
      if "j < length (map (scaled_edge q) (edges pts))" for j
      using that meets [of "edges pts ! j"] unique [of j] i(2) by auto
  qed (use i(1) in simp)
qed

lemma scaled_off:
  assumes "0 < q" "\<forall>f \<in> set (edges pts). \<not> edge_on x y f" "g \<in> set (edges (scaled q pts))"
  shows "\<not> edge_on (q * x) (q * y) g"
proof -
  obtain cx cy dx d where h: "((cx, cy), (dx, d)) \<in> set (edges pts)" "g = scaled_edge q ((cx, cy), (dx, d))"
    using assms(3) unfolding scaled_edges by auto
  then have "\<not> on_seg cx cy dx d x y" using assms(2) by (auto simp: edge_on_def)
  then show ?thesis using on_seg_scaled [OF assms(1), of cx cy dx d x y] by (simp add: h(2) edge_on_def scaled_edge_def)
qed

lemma part_corners:
  assumes corners: "\<forall>(x, y) \<in> set pts. \<not> on_seg ax ay bx b x y"
    and p: "0 < q" "of_int px = of_int q * along ax bx m" "of_int py = of_int q * along ay b m" and m: "0 \<le> m" "m \<le> 1"
  shows "\<forall>(x, y) \<in> set (scaled q pts). \<not> on_seg (q * ax) (q * ay) px py x y"
proof clarify
  fix x y assume xy: "(x, y) \<in> set (scaled q pts)" "on_seg (q * ax) (q * ay) px py x y"
  obtain x' y' where c: "(x', y') \<in> set pts" "x = q * x'" "y = q * y'" using xy(1) by (auto simp: scaled_def)
  obtain s where s: "0 \<le> s" "s \<le> 1" "of_int x = along (q * ax) px s" "of_int y = along (q * ay) py s"
    using xy(2) unfolding on_seg_along by blast
  have "of_int x' = along ax bx (s * m)" "of_int y' = along ay b (s * m)"
    using s(3,4) p(1) unfolding c(2,3) along_part [OF p(2)] along_part [OF p(3)] by simp_all
  moreover have "0 \<le> s * m" "s * m \<le> 1" using s(1,2) m mult_mono [of s 1 m 1] by simp_all
  ultimately have "on_seg ax ay bx b x' y'" unfolding on_seg_along by blast
  then show False using corners c(1) by blast
qed

lemma crossing_leaves:
  assumes simple: "simple_ring pts" and corners: "\<forall>(x, y) \<in> set pts. \<not> on_seg ax ay bx b x y"
    and ends: "\<forall>f \<in> set (edges pts). \<not> edge_on ax ay f \<and> \<not> edge_on bx b f"
    and meet: "f \<in> set (edges pts)" "edges_meet ((ax, ay), (bx, b)) f" and start: "even_odd pts ax ay True"
  shows "\<exists>t. 0 \<le> t \<and> t \<le> 1 \<and> \<not> inside_at pts ax ay bx b t"
proof -
  let ?T = "crossings pts ax ay bx b"
  have fin: "finite ?T" using finite_crossings [OF corners] ends by blast
  obtain cx cy dx d where f: "f = ((cx, cy), (dx, d))" by (metis prod.exhaust)
  obtain t u where "0 \<le> t" "t \<le> 1" "0 \<le> u" "u \<le> 1" "along ax bx t = along cx dx u" "along ay b t = along cy d u"
    using meet(2) unfolding f edges_meet_def prod.case segs_meet_def by blast
  then have "hits_edge ax ay bx b t f" "0 \<le> t" "t \<le> 1" unfolding f hits_edge_def prod.case by blast+
  then have "?T \<noteq> {}" using meet(1) unfolding crossings_def by blast
  moreover have "t < 1" if t: "t \<in> ?T" for t
  proof -
    obtain g where g: "g \<in> set (edges pts)" "hits_edge ax ay bx b t g" "t \<le> 1" using t unfolding crossings_def by blast
    have "scaled_edge 1 g = g" by (simp add: scaled_edge_def split: prod.split)
    then have "t \<noteq> 1" using hit_point [of 1 bx ax bx t b ay b g] g(1,2) ends by auto
    then show ?thesis using g(3) by simp
  qed
  ultimately obtain t1 m where m: "t1 \<in> ?T" "t1 < m" "m \<le> 1" "\<And>t. t \<in> ?T \<Longrightarrow> t \<le> m \<Longrightarrow> t = t1"
    using first_gap [OF fin] by blast
  then have m0: "0 < m" by (auto simp: crossings_def)
  obtain q px py where p: "0 < q" "of_int px = of_int q * along ax bx m" "of_int py = of_int q * along ay b m"
    by (rule common_denominator)
  have odd: "odd (length (filter (edges_meet ((q * ax, q * ay), (px, py))) (edges (scaled q pts))))"
    by (simp add: odd_part [OF simple corners m p])
  have off: "\<not> edge_on px py g" if g: "g \<in> set (edges (scaled q pts))" for g
  proof
    assume e: "edge_on px py g"
    obtain h where h: "h \<in> set (edges pts)" "g = scaled_edge q h" using g unfolding scaled_edges by auto
    then have "m \<in> ?T" using e hit_point [OF p] m0 m(3) by (auto simp: crossings_def)
    then show False using m(2,4) by blast
  qed
  have offA: "\<not> edge_on (q * ax) (q * ay) g" if "g \<in> set (edges (scaled q pts))" for g
    using scaled_off [OF p(1) _ that] ends by blast
  have clear: "\<forall>(x, y) \<in> set (scaled q pts). \<not> on_seg (q * ax) (q * ay) px py x y"
    using part_corners [OF corners p] m0 m(3) by simp
  have A: "odd (length (filter (edge_crosses (q * ax) (q * ay)) (edges (scaled q pts))))"
    using start even_odd_scaled [OF p(1), of pts ax ay True] offA by (auto simp: even_odd_def split: if_splits)
  have "\<forall>g \<in> set (edges (scaled q pts)). \<not> edge_on (q * ax) (q * ay) g \<and> \<not> edge_on px py g" using off offA by simp
  from even_meets [OF this clear] have "even (length (filter (edge_crosses px py) (edges (scaled q pts))))"
    using odd A by simp
  then have "\<not> region pts q px py" using off by (simp add: region_def even_odd_def)
  then show ?thesis using inside_at_region [OF p] m0 m(3) by (intro exI [of _ m]) simp
qed

end
