(* ===== verification/Convex_Rings.thy ===== *)
theory Convex_Rings
  imports Enclosure
begin

text \<open>
  Rings that are convex in the geometric sense, on the integer grid: the code flags them convex, every point in such a
  ring is on the inner side of every edge, and so a segment with both ends in the ring does not cross an edge. This is what
  makes the shortcut of \<open>ring.go\<close> right, which for a convex ring looks at points only.
\<close>


text \<open>All corners are on the same side of every edge, or on the edge's line.\<close>

definition convex_ring :: "(int \<times> int) list \<Rightarrow> bool" where
  "convex_ring pts \<longleftrightarrow> (\<exists>s \<in> {1, - 1}. \<forall>((ax, ay), (bx, b)) \<in> set (edges pts). \<forall>(x, y) \<in> set pts. 0 \<le> s * side ax ay bx b x y)"

lemma convex_side:
  assumes "convex_ring pts"
  obtains s where "s = 1 \<or> s = - 1"
    "\<forall>ax ay bx b x y. ((ax, ay), (bx, b)) \<in> set (edges pts) \<longrightarrow> (x, y) \<in> set pts \<longrightarrow> 0 \<le> s * side ax ay bx b x y"
proof -
  obtain s where s: "s \<in> {1, - 1}"
    and turn: "\<forall>((ax, ay), (bx, b)) \<in> set (edges pts). \<forall>(x, y) \<in> set pts. 0 \<le> s * side ax ay bx b x y"
    using assms unfolding convex_ring_def by (elim bexE)
  have "0 \<le> s * side ax ay bx b x y" if "((ax, ay), (bx, b)) \<in> set (edges pts)" "(x, y) \<in> set pts" for ax ay bx b x y
    using bspec [OF turn that(1)] that(2) by auto
  then show thesis using s by (intro that [of s]) simp_all
qed

section \<open>The flag\<close>

lemma next_corner:
  assumes "2 \<le> length pts" "i < length pts"
  obtains ax ay bx b x y where "((ax, ay), (bx, b)) \<in> set (edges pts)" "(x, y) \<in> set pts" "turn_at pts i = - side ax ay bx b x y"
proof -
  define j where "j = (if i = length pts - 1 then 0 else Suc i)"
  define k where "k = (if i = length pts - 1 then 1 else if i = length pts - 2 then 0 else i + 2)"
  have jk: "j < length pts" "k < length pts" using assms by (auto simp: j_def k_def)
  have "edges pts ! i = (pts ! i, pts ! j)" using edges_nth [OF assms(2)] by (simp add: j_def)
  moreover have "edges pts ! i \<in> set (edges pts)" using assms(2) by (intro nth_mem) simp
  ultimately have e: "((fst (pts ! i), snd (pts ! i)), (fst (pts ! j), snd (pts ! j))) \<in> set (edges pts)" by simp
  have v: "(fst (pts ! k), snd (pts ! k)) \<in> set pts" using jk(2) by simp
  have "turn_at pts i = icross pts i j k" by (auto simp: turn_at_def j_def k_def)
  also have "\<dots> = - side (fst (pts ! i)) (snd (pts ! i)) (fst (pts ! j)) (snd (pts ! j)) (fst (pts ! k)) (snd (pts ! k))"
    by (simp add: icross_def side_def algebra_simps)
  finally show thesis using that [OF e v] by blast
qed

lemma convex_flag:
  assumes "grid_ring pts" "convex_ring pts" "newRing (ipoints pts) opts = Inr ring"
  shows "sConvex ring"
proof -
  obtain s :: int where s: "s = 1 \<or> s = - 1"
    and turn: "\<forall>ax ay bx b x y. ((ax, ay), (bx, b)) \<in> set (edges pts) \<longrightarrow> (x, y) \<in> set pts \<longrightarrow> 0 \<le> s * side ax ay bx b x y"
    by (rule convex_side [OF assms(2)])
  have len: "2 \<le> length pts" using assms(1) by (simp add: grid_ring_def)
  have one_way: "s * turn_at pts i \<le> 0" if i: "i < length pts" for i
  proof -
    obtain ax ay bx b x y where e: "((ax, ay), (bx, b)) \<in> set (edges pts)" "(x, y) \<in> set pts" "turn_at pts i = - side ax ay bx b x y"
      by (rule next_corner [OF len i])
    show ?thesis using turn [rule_format, OF e(1,2)] by (simp add: e(3))
  qed
  have "\<not> (turn_at pts i < 0 \<and> 0 < turn_at pts j)" if ij: "i < length pts" "j < length pts" for i j
    using one_way [OF ij(1)] one_way [OF ij(2)] s by auto
  then show ?thesis unfolding newRing_flag [OF assms(1,3)] by blast
qed

section \<open>Segments in a convex ring\<close>

text \<open>A point that were beyond the line of an edge could be moved away from the ring without an end.\<close>

lemma far_away:
  fixes v w W :: int
  assumes "v \<noteq> 0 \<or> w \<noteq> 0" "\<bar>px\<bar> \<le> W" "\<bar>py\<bar> \<le> W" "K = 2 * W + 1"
  shows "W < \<bar>px - K * v\<bar> \<or> W < \<bar>py - K * w\<bar>"
proof -
  have far: "W < \<bar>p - K * u\<bar>" if "u \<noteq> 0" "\<bar>p\<bar> \<le> W" for p u :: int
  proof -
    have "0 \<le> W" using that(2) by linarith
    then have "K * 1 \<le> K * \<bar>u\<bar>" using that(1) assms(4) by (intro mult_left_mono) auto
    then have "K \<le> \<bar>K * u\<bar>" using \<open>0 \<le> W\<close> assms(4) by (simp add: abs_mult)
    then show ?thesis using that(2) assms(4) by linarith
  qed
  then show ?thesis using assms(1-3) by blast
qed

lemma coordinate_bound: "\<exists>W. \<bar>px\<bar> \<le> W \<and> \<bar>py\<bar> \<le> W \<and> (\<forall>(x, y) \<in> set pts. \<bar>x\<bar> \<le> W \<and> \<bar>y\<bar> \<le> W)" for px py :: int
proof (induction pts)
  case Nil
  show ?case by (intro exI [of _ "max \<bar>px\<bar> \<bar>py\<bar>"]) simp
next
  case (Cons p pts)
  then obtain W where "\<bar>px\<bar> \<le> W \<and> \<bar>py\<bar> \<le> W \<and> (\<forall>(x, y) \<in> set pts. \<bar>x\<bar> \<le> W \<and> \<bar>y\<bar> \<le> W)" by blast
  then show ?case by (intro exI [of _ "max W (max \<bar>fst p\<bar> \<bar>snd p\<bar>)"]) (cases p, fastforce)
qed

text \<open>A line with the ends of one segment on one side and those of another one beyond it keeps them apart.\<close>

lemma side_combination:
  assumes "along px qx t = along ux vx u" "along py qy t = along uy v u"
  shows "(1 - t) * of_int (side cx cy dx d px py) + t * of_int (side cx cy dx d qx qy) =
    (1 - u) * of_int (side cx cy dx d ux uy) + u * (of_int (side cx cy dx d vx v) :: rat)"
proof -
  have "of_int (side cx cy dx d px py) + of_int (side cx cy dx d qx qy - side cx cy dx d px py) * t =
      (of_int (side cx cy dx d ux uy) + of_int (side cx cy dx d vx v - side cx cy dx d ux uy) * u :: rat)"
    unfolding side_along [symmetric] assms ..
  then show ?thesis by (simp add: algebra_simps)
qed

lemma apart_by_line:
  assumes "0 \<le> s * side cx cy dx d ux uy" "0 \<le> s * side cx cy dx d vx v" "s * side cx cy dx d px py < 0" "s * side cx cy dx d qx qy < 0"
  shows "\<not> segs_meet px py qx qy ux uy vx v"
proof
  assume "segs_meet px py qx qy ux uy vx v"
  then obtain t u where tu: "0 \<le> t" "t \<le> 1" "0 \<le> u" "u \<le> 1" "along px qx t = along ux vx u" "along py qy t = along uy v u"
    unfolding segs_meet_def by blast
  let ?S = "\<lambda>x y. of_int (s * side cx cy dx d x y) :: rat"
  have sgn: "0 \<le> ?S ux uy" "0 \<le> ?S vx v" "?S px py < 0" "?S qx qy < 0"
    using assms by (simp_all only: of_int_0_le_iff of_int_less_0_iff)
  have "of_int s * ((1 - t) * of_int (side cx cy dx d px py) + t * of_int (side cx cy dx d qx qy)) =
      (of_int s * ((1 - u) * of_int (side cx cy dx d ux uy) + u * of_int (side cx cy dx d vx v)) :: rat)"
    unfolding side_combination [OF tu(5,6)] ..
  then have "(1 - t) * ?S px py + t * ?S qx qy = (1 - u) * ?S ux uy + u * ?S vx v" by (simp add: algebra_simps)
  moreover have "0 \<le> (1 - u) * ?S ux uy + u * ?S vx v"
    using sgn(1,2) tu(3,4) by (intro add_nonneg_nonneg mult_nonneg_nonneg) simp_all
  moreover have "(1 - t) * ?S px py + t * ?S qx qy < 0"
  proof (cases "t = 0")
    case False
    then have "t * ?S qx qy < 0" using sgn(4) tu(1) by (intro mult_pos_neg) simp_all
    moreover have "(1 - t) * ?S px py \<le> 0" using sgn(3) tu(2) by (intro mult_nonneg_nonpos) simp_all
    ultimately show ?thesis by linarith
  qed (use sgn(3) in simp)
  ultimately show False by linarith
qed

lemma surrounded_bound:
  assumes "even_odd pts px py True" "\<And>x y. (x, y) \<in> set pts \<Longrightarrow> \<bar>x\<bar> \<le> W \<and> \<bar>y\<bar> \<le> W"
  shows "\<bar>px\<bar> \<le> W \<and> \<bar>py\<bar> \<le> W"
proof -
  note s = surrounded [OF assms(1)]
  have "- W \<le> px" "px \<le> W" using s(1,2) assms(2) by fastforce+
  moreover have "- W \<le> py" "py \<le> W" using s(3,4) assms(2) by fastforce+
  ultimately show ?thesis by (simp add: abs_le_iff)
qed

lemma beyond_outside:
  assumes corners: "\<And>x y. (x, y) \<in> set pts \<Longrightarrow> 0 \<le> s * side cx cy dx d x y" and "s * side cx cy dx d px py < 0" "s = 1 \<or> s = - 1"
  shows "\<not> even_odd pts px py True"
proof
  assume p: "even_odd pts px py True"
  obtain W where W': "\<bar>px\<bar> \<le> W" "\<bar>py\<bar> \<le> W" and in_W: "\<And>x y. (x, y) \<in> set pts \<Longrightarrow> \<bar>x\<bar> \<le> W \<and> \<bar>y\<bar> \<le> W"
    using coordinate_bound [of px py pts] by blast
  let ?K = "2 * W + 1" and ?v = "s * (d - cy)" and ?w = "s * (cx - dx)"
  let ?qx = "px - ?K * ?v" and ?qy = "py - ?K * ?w"
  have K: "0 \<le> ?K" using W' by linarith
  have "side cx cy dx d px py \<noteq> 0" using assms(2) by auto
  then have "?v \<noteq> 0 \<or> ?w \<noteq> 0" using assms(3) by (auto simp: side_def)
  then have far: "W < \<bar>?qx\<bar> \<or> W < \<bar>?qy\<bar>" by (rule far_away [OF _ W']) simp
  have q: "s * side cx cy dx d ?qx ?qy = s * side cx cy dx d px py - ?K * (?v * ?v + ?w * ?w)"
    using assms(3) by (auto simp: side_def algebra_simps)
  have "0 \<le> ?K * (?v * ?v + ?w * ?w)" by (rule mult_nonneg_nonneg [OF K]) (simp only: add_nonneg_nonneg zero_le_square)
  then have beyond: "s * side cx cy dx d ?qx ?qy < 0" using q assms(2) by linarith
  have "\<not> edges_meet ((px, py), (?qx, ?qy)) f" if f: "f \<in> set (edges pts)" for f
  proof -
    obtain ux uy vx v where uv: "f = ((ux, uy), (vx, v))" by (metis prod.exhaust)
    have "0 \<le> s * side cx cy dx d ux uy" "0 \<le> s * side cx cy dx d vx v"
      using corners edges_in f unfolding uv by blast+
    then show ?thesis using apart_by_line [OF _ _ assms(2) beyond] by (simp add: uv edges_meet_def)
  qed
  then have "even_odd pts ?qx ?qy True" using no_meet_same_side [of pts px py ?qx ?qy True] p by blast
  from surrounded_bound [OF this in_W] show False using far by linarith
qed

lemma balanced_sides:
  fixes A B s :: int and t :: rat
  assumes "s = 1 \<or> s = - 1" "0 \<le> s * A" "0 \<le> s * B" "(1 - t) * of_int A + t * of_int B = 0" "0 < t" "t < 1"
  shows "A = 0 \<and> B = 0"
proof -
  have "0 \<le> (of_int (s * A) :: rat)" "0 \<le> (of_int (s * B) :: rat)" using assms(2,3) by (simp_all only: of_int_0_le_iff)
  then have nonneg: "0 \<le> (1 - t) * of_int (s * A)" "0 \<le> t * of_int (s * B)" using assms(5,6) by (simp_all only: mult_nonneg_nonneg diff_ge_0_iff_ge less_imp_le)
  have "(1 - t) * of_int (s * A) + t * of_int (s * B) = of_int s * ((1 - t) * of_int A + t * of_int B)" by (simp add: algebra_simps)
  then have "(1 - t) * of_int (s * A) + t * of_int (s * B) = 0" using assms(4) by simp
  then have "(1 - t) * of_int (s * A) = 0" "t * of_int (s * B) = 0" using nonneg by linarith+
  then show ?thesis using assms(1,5,6) by auto
qed

lemma convex_no_leave:
  assumes "convex_ring pts" "clear_of pts ((ax, ay), (bx, b))" "even_odd pts ax ay True" "even_odd pts bx b True" "f \<in> set (edges pts)"
  shows "\<not> edges_meet ((ax, ay), (bx, b)) f"
proof
  assume m: "edges_meet ((ax, ay), (bx, b)) f"
  obtain cx cy dx d where f: "f = ((cx, cy), (dx, d))" by (metis prod.exhaust)
  obtain s :: int where s: "s = 1 \<or> s = - 1"
    and turn: "\<forall>ax ay bx b x y. ((ax, ay), (bx, b)) \<in> set (edges pts) \<longrightarrow> (x, y) \<in> set pts \<longrightarrow> 0 \<le> s * side ax ay bx b x y"
    by (rule convex_side [OF assms(1)])
  note turn = turn [rule_format, OF assms(5) [unfolded f]]
  have ends: "0 \<le> s * side cx cy dx d ax ay" "0 \<le> s * side cx cy dx d bx b"
    using beyond_outside [OF turn _ s] assms(3,4) by (force simp: not_less [symmetric])+
  have c: "(cx, cy) \<in> set pts" "(dx, d) \<in> set pts" using edges_in assms(5) unfolding f by blast+
  have off: "\<not> on_seg ax ay bx b cx cy" "\<not> on_seg ax ay bx b dx d" "\<not> on_seg cx cy dx d ax ay" "\<not> on_seg cx cy dx d bx b"
    using assms(2,5) c by (auto simp: clear_of_def no_corner_on_def edge_on_def f)
  have meet: "segs_meet ax ay bx b cx cy dx d" using m by (simp add: f edges_meet_def)
  then obtain t u where tu: "0 \<le> t" "t \<le> 1" "0 \<le> u" "u \<le> 1" "along ax bx t = along cx dx u" "along ay b t = along cy d u"
    unfolding segs_meet_def by blast
  let ?A = "of_int (side cx cy dx d ax ay) :: rat" and ?B = "of_int (side cx cy dx d bx b) :: rat"
  have zero: "(1 - t) * ?A + t * ?B = 0"
    using side_combination [OF tu(5,6), of cx cy dx d] by (simp add: side_def)
  have "t \<noteq> 0" using off(3) tu(3-6) on_seg_along [of cx cy dx d ax ay] by (auto simp: along_def)
  moreover have "t \<noteq> 1" using off(4) tu(3-6) on_seg_along [of cx cy dx d bx b] by (auto simp: along_def)
  ultimately have "0 < t" "t < 1" using tu(1,2) by simp_all
  then have "side cx cy dx d ax ay = 0 \<and> side cx cy dx d bx b = 0" by (rule balanced_sides [OF s ends zero])
  then have "(ax - cx) * (d - cy) = (ay - cy) * (dx - cx)" "(dx - cx) * (b - ay) = (d - cy) * (bx - ax)"
    by (auto simp: side_def algebra_simps)
  moreover have "segs_meet cx cy dx d ax ay bx b" using meet segs_meet_sym by blast
  ultimately show False using collinear_meet off by blast
qed

end
