(* ===== verification/Containment.thy ===== *)
theory Containment
  imports Rectangles Convex_Rings
begin

text \<open>
  What it means that a ring contains a ring or a line: for an outer ring that is convex, or simple and flagged concave, and
  borders that only meet where they cross, \<open>ringContainsRing\<close> and \<open>ringContainsLine\<close> decide exactly whether every point of the
  inner shape is a point of the outer ring, with the edge allowed or not.
\<close>


section \<open>The sides of the inner shape\<close>

text \<open>An edge inside a ring: it starts in the ring and meets no edge of it.\<close>

definition side_inside :: "(int \<times> int) list \<Rightarrow> (int \<times> int) \<times> (int \<times> int) \<Rightarrow> bool" where
  "side_inside pts e \<longleftrightarrow> (case e of ((ax, ay), _) \<Rightarrow> even_odd pts ax ay True) \<and> (\<forall>f \<in> set (edges pts). \<not> edges_meet e f)"

lemma side_inside_ends:
  assumes "side_inside pts (u, v)"
  shows "(case u of (x, y) \<Rightarrow> even_odd pts x y True)" "(case v of (x, y) \<Rightarrow> even_odd pts x y True)"
  using assms no_meet_same_side [of pts "fst u" "snd u" "fst v" "snd v" True]
  by (auto simp: side_inside_def split: prod.splits)

lemma point_meets: "edges_meet ((ax, ay), (ax, ay)) f \<Longrightarrow> edge_on ax ay f"
  by (auto simp: edges_meet_def edge_on_def segs_meet_def on_seg_along along_def split: prod.splits)

lemma ContainsSegment_side:
  assumes "grid_series ring pts" "\<not> sConvex ring" "grid_edge (u, v)"
    and "no_corner_on pts [(u, v)]" "no_corner_on [u, v] (edges pts)"
  shows "ringContainsSegment ring (edge_seg (u, v)) allow = Inr (side_inside pts (u, v))"
proof -
  obtain ax ay bx b where uv: "u = (ax, ay)" "v = (bx, b)" by (metis prod.exhaust)
  have g: "grid ax" "grid ay" "grid bx" "grid b" using assms(3) by (simp_all add: uv grid_edge_def)
  have gb: "\<bar>ax\<bar> \<le> 2 ^ 24" "\<bar>ay\<bar> \<le> 2 ^ 24" "\<bar>bx\<bar> \<le> 2 ^ 24" "\<bar>b\<bar> \<le> 2 ^ 24" using g by (simp_all only: grid_def)
  have ok: "ring_ok ring" using assms(1) by (simp add: grid_series_def)
  have off: "\<forall>(x, y) \<in> set pts. \<not> on_seg ax ay bx b x y"
    using assms(4) by (auto simp: no_corner_on_def edge_on_def uv)
  have "clear_of pts ((ax, ay), (bx, b))" using assms(4,5) by (simp add: clear_of_def uv)
  note same = clear_ends [OF this]
  have none: "\<forall>f \<in> set (edges pts). \<not> edges_meet (u, v) f \<Longrightarrow> even_odd pts ax ay True = even_odd pts bx b True"
    using no_meet_same_side [of pts ax ay bx b True] by (simp add: uv)
  obtain ra where ra: "ringContainsPoint ring (ipoint ax ay) allow = Inr ra" "hit ra = even_odd pts ax ay True"
    using ring_ok_in_ring [OF ok, of "ipoint ax ay" allow] grid_series_in [OF assms(1) gb(1,2), of allow] same [of allow] by auto
  obtain rb where rb: "ringContainsPoint ring (ipoint bx b) allow = Inr rb" "hit rb = even_odd pts bx b True"
    using ring_ok_in_ring [OF ok, of "ipoint bx b" allow] grid_series_in [OF assms(1) gb(3,4), of allow] same [of allow] by auto
  have seg: "SegA (edge_seg (u, v)) = ipoint ax ay" "SegB (edge_seg (u, v)) = ipoint bx b" by (simp_all add: uv edge_seg_def iseg_def)
  have eq: "point_eq (ipoint bx b) (ipoint ax ay) \<longleftrightarrow> u = v" using g by (auto simp: uv point_eq_def grid_cmp ipoint_def mk_point_def)
  note code = ringContainsSegment_def seg ra(1) rb(1) rbind_simps not_True_eq_False not_False_eq_True if_True if_False
  consider (out) "\<not> even_odd pts ax ay True" | (point) "even_odd pts ax ay True" "u = v"
    | (out') "even_odd pts ax ay True" "u \<noteq> v" "\<not> even_odd pts bx b True"
    | (both) "u \<noteq> v" "even_odd pts ax ay True" "even_odd pts bx b True" by blast
  then show ?thesis
  proof cases
    case out
    then have "\<not> side_inside pts (u, v)" by (simp add: side_inside_def uv)
    moreover have "hit ra = False" using ra(2) out by simp
    ultimately show ?thesis by (simp only: code)
  next
    case point
    then have "\<forall>f \<in> set (edges pts). \<not> edges_meet (u, v) f"
      using assms(5) point_meets [of ax ay] by (auto simp: no_corner_on_def uv)
    then have "side_inside pts (u, v)" using point(1) by (simp add: side_inside_def uv)
    moreover have "hit ra = True" "point_eq (ipoint bx b) (ipoint ax ay) = True" using ra(2) eq point by simp_all
    ultimately show ?thesis by (simp only: code)
  next
    case out'
    then have "\<not> side_inside pts (u, v)" using none by (auto simp: side_inside_def uv)
    moreover have "hit ra = True" "hit rb = False" "point_eq (ipoint bx b) (ipoint ax ay) = False"
      using ra(2) rb(2) eq out' by simp_all
    ultimately show ?thesis by (simp only: code)
  next
    case both
    then have "ringContainsSegment ring (iseg ax ay bx b) allow = Inr (\<forall>f \<in> set (edges pts). \<not> edges_meet ((ax, ay), (bx, b)) f)"
      using ContainsSegment_off_corners(1) [OF assms(1,2) g _ _ _ off] ContainsSegment_strict [OF assms(1,2) g] same [of False]
      by (cases allow) (simp_all add: uv)
    then show ?thesis using both(2) by (simp add: side_inside_def uv edge_seg_def)
  qed
qed

text \<open>A ring or a line over grid points: its least rectangle, its points and its segments.\<close>

definition made_of :: "Series \<Rightarrow> (int \<times> int) list \<Rightarrow> ((int \<times> int) \<times> (int \<times> int)) list \<Rightarrow> bool" where
  "made_of s qts es \<longleftrightarrow> snug s \<and> (\<forall>(x, y) \<in> set qts. grid x \<and> grid y) \<and>
     sNumPoints s = int (length qts) \<and> (\<forall>k < length qts. sPointAt s (int k) = Inr (ipoints qts ! k)) \<and>
     sNumSegments s = int (length es) \<and> (\<forall>k < length es. sSegmentAt s (int k) = Inr (edge_seg (es ! k))) \<and>
     (\<forall>(u, v) \<in> set es. u \<in> set qts \<and> v \<in> set qts) \<and> (\<forall>u \<in> set qts. \<exists>v. (u, v) \<in> set es \<or> (v, u) \<in> set es)"

lemma made_of_parts:
  assumes "made_of s qts es"
  shows "snug s" "(x, y) \<in> set qts \<Longrightarrow> grid x \<and> grid y" "sNumPoints s = int (length qts)"
    "k < length qts \<Longrightarrow> sPointAt s (int k) = Inr (ipoints qts ! k)" "sNumSegments s = int (length es)"
    "k < length es \<Longrightarrow> sSegmentAt s (int k) = Inr (edge_seg (es ! k))"
    "(u, v) \<in> set es \<Longrightarrow> u \<in> set qts \<and> v \<in> set qts" "u \<in> set qts \<Longrightarrow> \<exists>v. (u, v) \<in> set es \<or> (v, u) \<in> set es"
  using assms unfolding made_of_def by blast+

text \<open>The corners of a shape whose edges are all inside a ring.\<close>

lemma side_corners:
  assumes "made_of other qts es" "\<forall>e \<in> set es. side_inside pts e" "(x, y) \<in> set qts"
  shows "even_odd pts x y True"
proof -
  obtain v where "((x, y), v) \<in> set es \<or> (v, (x, y)) \<in> set es" using made_of_parts(8) [OF assms(1,3)] by blast
  then have "side_inside pts ((x, y), v) \<or> side_inside pts (v, (x, y))" using assms(2) by blast
  then show ?thesis using side_inside_ends(1) [of pts "(x, y)" v] side_inside_ends(2) [of pts v "(x, y)"] by auto
qed

lemma all_upto: "(\<forall>i \<in> set [0..int (length xs) - 1]. P (xs ! nat i)) \<longleftrightarrow> (\<forall>x \<in> set xs. P x)"
  using ex_upto [of xs "\<lambda>x. \<not> P x"] by blast

lemma sides_loop:
  assumes "grid_series ring pts" "\<not> sConvex ring" "made_of other qts es" "no_corner_on pts es" "no_corner_on qts (edges pts)"
  shows "allM (\<lambda>i. rbind (sSegmentAt other i) (\<lambda>s. ringContainsSegment ring s allow)) [0..sNumSegments other - 1] =
    Inr (\<forall>e \<in> set es. side_inside pts e)"
proof -
  note parts = made_of_parts [OF assms(3)]
  have "allM (\<lambda>i. rbind (sSegmentAt other i) (\<lambda>s. ringContainsSegment ring s allow)) [0..sNumSegments other - 1] =
      Inr (\<forall>i \<in> set [0..sNumSegments other - 1]. side_inside pts (es ! nat i))"
  proof (rule allM_total)
    fix i assume "i \<in> set [0..sNumSegments other - 1]"
    then have i: "nat i < length es" "int (nat i) = i" unfolding parts(5) by auto
    obtain u v where uv: "es ! nat i = (u, v)" by (metis prod.exhaust)
    have e: "(u, v) \<in> set es" using i(1) uv by (metis nth_mem)
    then have m: "u \<in> set qts" "v \<in> set qts" using parts(7) by blast+
    then have "grid_edge (u, v)" using parts(2) [of "fst u" "snd u"] parts(2) [of "fst v" "snd v"] by (simp add: grid_edge_def case_prod_beta)
    moreover have "no_corner_on pts [(u, v)]" "no_corner_on [u, v] (edges pts)"
      using assms(4,5) e m by (auto simp: no_corner_on_def)
    moreover have "sSegmentAt other i = Inr (edge_seg (u, v))" using parts(6) [OF i(1)] i(2) uv by simp
    ultimately show "rbind (sSegmentAt other i) (\<lambda>s. ringContainsSegment ring s allow) = Inr (side_inside pts (es ! nat i))"
      using ContainsSegment_side [OF assms(1,2)] uv by simp
  qed
  also have "(\<forall>i \<in> set [0..sNumSegments other - 1]. side_inside pts (es ! nat i)) \<longleftrightarrow> (\<forall>e \<in> set es. side_inside pts e)"
    unfolding parts(5) by (rule all_upto)
  finally show ?thesis .
qed

text \<open>For a convex ring the code looks at the points; in a ring that is convex indeed that is the same.\<close>

lemma points_loop:
  assumes "grid_series ring pts" "made_of other qts es" "no_corner_on qts (edges pts)"
  shows "allM (\<lambda>i. rbind (sPointAt other i) (\<lambda>p. rbind (ringContainsPoint ring p allow) (\<lambda>r. Inr (hit r)))) [0..sNumPoints other - 1] =
    Inr (\<forall>(x, y) \<in> set qts. even_odd pts x y True)"
proof -
  note parts = made_of_parts [OF assms(2)]
  have ok: "ring_ok ring" using assms(1) by (simp add: grid_series_def)
  let ?in = "\<lambda>(x, y). even_odd pts x y True"
  have "allM (\<lambda>i. rbind (sPointAt other i) (\<lambda>p. rbind (ringContainsPoint ring p allow) (\<lambda>r. Inr (hit r)))) [0..sNumPoints other - 1] =
      Inr (\<forall>i \<in> set [0..sNumPoints other - 1]. ?in (qts ! nat i))"
  proof (rule allM_total)
    fix i assume "i \<in> set [0..sNumPoints other - 1]"
    then have i: "nat i < length qts" "int (nat i) = i" unfolding parts(3) by auto
    obtain x y where xy: "qts ! nat i = (x, y)" by (metis prod.exhaust)
    have m: "(x, y) \<in> set qts" using i(1) xy by (metis nth_mem)
    have g: "\<bar>x\<bar> \<le> 2 ^ 24" "\<bar>y\<bar> \<le> 2 ^ 24" using parts(2) [OF m] by (simp_all only: grid_def)
    have "even_odd pts x y allow = even_odd pts x y True"
      using assms(3) m in_off_edges [of x y pts] by (cases allow) (auto simp: no_corner_on_def)
    moreover have "sPointAt other i = Inr (ipoint x y)" using parts(4) [OF i(1)] i xy by simp
    ultimately show "rbind (sPointAt other i) (\<lambda>p. rbind (ringContainsPoint ring p allow) (\<lambda>r. Inr (hit r))) = Inr (?in (qts ! nat i))"
      using ring_ok_in_ring [OF ok, of "ipoint x y" allow] grid_series_in [OF assms(1) g, of allow] xy by auto
  qed
  also have "(\<forall>i \<in> set [0..sNumPoints other - 1]. ?in (qts ! nat i)) \<longleftrightarrow> (\<forall>v \<in> set qts. ?in v)"
    unfolding parts(3) by (rule all_upto)
  finally show ?thesis .
qed

lemma clear_of_side:
  assumes "no_corner_on pts es" "no_corner_on qts (edges pts)" "(u, v) \<in> set es" "u \<in> set qts" "v \<in> set qts"
  shows "clear_of pts (u, v)"
  using assms by (auto simp: clear_of_def no_corner_on_def)

lemma convex_sides:
  assumes "convex_ring pts" "made_of other qts es" "no_corner_on pts es" "no_corner_on qts (edges pts)"
  shows "(\<forall>(x, y) \<in> set qts. even_odd pts x y True) \<longleftrightarrow> (\<forall>e \<in> set es. side_inside pts e)"
proof
  note parts = made_of_parts [OF assms(2)]
  assume all: "\<forall>(x, y) \<in> set qts. even_odd pts x y True"
  show "\<forall>e \<in> set es. side_inside pts e"
  proof clarify
    fix ax ay bx b assume e: "((ax, ay), (bx, b)) \<in> set es"
    have m: "(ax, ay) \<in> set qts" "(bx, b) \<in> set qts" using parts(7) [OF e] by simp_all
    then have "even_odd pts ax ay True" "even_odd pts bx b True" using all by blast+
    then show "side_inside pts ((ax, ay), (bx, b))"
      using convex_no_leave [OF assms(1) clear_of_side [OF assms(3,4) e m]] by (simp add: side_inside_def)
  qed
qed (use side_corners [OF assms(2)] in blast)

text \<open>Everything the ring contains is in its rectangle, so the test of the rectangles rejects nothing.\<close>

lemma inside_rect:
  assumes "grid_series ring pts" "snug ring" "made_of other qts es" "\<forall>e \<in> set es. side_inside pts e"
  shows "rect_ContainsRect (sRect ring) (sRect other)"
proof -
  note parts = made_of_parts [OF assms(3)]
  have r: "rect_ok (sRect ring)" using assms(2) by (simp add: snug_def rect_fin_def)
  have pt: "rect_ContainsPoint (sRect ring) (ipoint x y)" if xy: "(x, y) \<in> set qts" for x y
  proof -
    have g: "grid x" "grid y" using parts(2) [OF xy] by simp_all
    have "even_odd pts x y True" by (rule side_corners [OF assms(3,4) xy])
    then have "rect_ContainsRect (sRect ring) (irect x y x y)" using grid_series_rect_point [OF assms(1)] g by blast
    moreover have "rect_ContainsPoint (irect x y x y) (ipoint x y)" using g by (simp add: rect_ContainsPoint_def)
    ultimately show ?thesis by (rule ContainsRect_point [OF r])
  qed
  have least: "\<forall>t. rect_ok t \<longrightarrow> (\<forall>i \<in> set [0..sNumPoints other - 1]. \<exists>p. sPointAt other i = Inr p \<and> rect_ContainsPoint t p) \<longrightarrow>
      rect_ContainsRect t (sRect other)" using parts(1) unfolding snug_def by blast
  show ?thesis
  proof (rule least [rule_format, OF r])
    fix i assume "i \<in> set [0..sNumPoints other - 1]"
    then have i: "nat i < length qts" "int (nat i) = i" unfolding parts(3) by auto
    obtain x y where xy: "qts ! nat i = (x, y)" by (metis prod.exhaust)
    then have "sPointAt other i = Inr (ipoint x y)" using assms(3) i by (fastforce simp: made_of_def)
    moreover have "(x, y) \<in> set qts" using i(1) xy by (metis nth_mem)
    ultimately show "\<exists>p. sPointAt other i = Inr p \<and> rect_ContainsPoint (sRect ring) p" using pt by blast
  qed
qed

text \<open>The rings whose shape the shortcut for convex rings does not mistake.\<close>

definition shaped :: "Ring \<Rightarrow> (int \<times> int) list \<Rightarrow> bool" where
  "shaped ring pts \<longleftrightarrow> (if sConvex ring then convex_ring pts else simple_ring pts)"

lemma contains_sides:
  assumes "grid_series ring pts" "shaped ring pts" "snug ring" "made_of other qts es" "length qts < 16"
    and "no_corner_on pts es" "no_corner_on qts (edges pts)"
  shows "ringContainsRing ring other allow = Inr (\<forall>e \<in> set es. side_inside pts e)"
proof -
  have "\<not> sEmpty ring" "\<not> sEmpty other" "sNumPoints other < 16" using assms(3,4,5) by (simp_all add: snug_def made_of_def)
  moreover have "(\<forall>(x, y) \<in> set qts. even_odd pts x y True) \<longleftrightarrow> (\<forall>e \<in> set es. side_inside pts e)" if "sConvex ring"
    using convex_sides [OF _ assms(4,6,7)] that assms(2) by (simp add: shaped_def)
  ultimately show ?thesis
    using sides_loop [OF assms(1) _ assms(4,6,7)] points_loop [OF assms(1,4,7)] inside_rect [OF assms(1,3,4)]
    by (subst ringContainsRing.simps) (auto simp: complexRingMinPoints_def)
qed

section \<open>Rings and lines made of grid points\<close>

lemma newRing_made_of:
  assumes "grid_ring qts" "newRing (ipoints qts) opts = Inr ring"
  shows "grid_series ring qts" "made_of ring qts (sides qts)"
proof -
  show r: "grid_series ring qts" using newRing_grid_series [OF assms(1), of opts] assms(2) by auto
  note s = grid_series_sides [OF r]
  have len: "3 \<le> length qts" "length qts \<le> 2 ^ 20" and g: "\<And>x y. (x, y) \<in> set qts \<Longrightarrow> grid x \<and> grid y"
    using assms(1) by (auto simp: grid_ring_def grid_def)
  have fin: "\<forall>p \<in> set (ipoints qts). point_fin p" using g by (auto simp: point_fin_def)
  obtain bs where bs: "ring = BaseSeries bs" "bs_points bs = ipoints qts"
    using newRing_ok [OF fin _ assms(2)] len(2) by auto
  have "makeSeries (ipoints qts) True True opts = Inr bs" using assms(2) bs(1) by (auto simp: newRing_def)
  then have snug: "snug ring" using makeSeries_snug [OF _ fin] len(2) r bs(1) by (auto simp: grid_series_def)
  have c: "set (corners qts) = set qts"
  proof (cases "last qts = hd qts")
    case True
    have ne: "qts \<noteq> []" "butlast qts \<noteq> []" using len by (cases qts; auto)+
    have "hd qts \<in> set (butlast qts)" using ne by (metis append_butlast_last_id hd_append2 hd_in_set)
    moreover have "set qts = insert (last qts) (set (butlast qts))" using ne(1) by (metis append_butlast_last_id set_append Un_insert_right list.simps(15) set_empty2 sup_bot.right_neutral)
    ultimately show ?thesis using True by (auto simp: corners_def)
  qed (simp add: corners_def)
  have seg: "sSegmentAt ring (int k) = Inr (edge_seg (sides qts ! k))" if "k < length (sides qts)" for k
    using that s_ok_SegmentAt [OF s(1), of "int k"] s(3) [of "int k"] s(2) by simp
  show "made_of ring qts (sides qts)"
    unfolding made_of_def
  proof (intro conjI)
    show "snug ring" by (rule snug)
    show "\<forall>(x, y) \<in> set qts. grid x \<and> grid y" using g by blast
    show "sNumPoints ring = int (length qts)" by (simp add: bs series_NumPoints_def)
    show "\<forall>k<length qts. sPointAt ring (int k) = Inr (ipoints qts ! k)" by (simp add: bs series_PointAt_def index_at_def)
    show "sNumSegments ring = int (length (sides qts))" by (rule s(2))
    show "\<forall>k<length (sides qts). sSegmentAt ring (int k) = Inr (edge_seg (sides qts ! k))" using seg by blast
    show "\<forall>(u, v) \<in> set (sides qts). u \<in> set qts \<and> v \<in> set qts" using edges_in c by blast
    show "\<forall>u \<in> set qts. \<exists>v. (u, v) \<in> set (sides qts) \<or> (v, u) \<in> set (sides qts)" using edges_corner c by blast
  qed
qed

lemma NewLine_made_of:
  assumes "grid_line qts" "2 \<le> length qts" "NewLine (ipoints qts) opts = Inr line"
  shows "made_of (BaseSeries line) qts (legs qts)"
proof -
  have l: "line_of line qts" using NewLine_line_of [OF assms(1), of opts] assms(3) by auto
  have pts: "bs_points line = ipoints qts" "\<not> bs_closed line" using l by (auto simp: line_of_def)
  have g: "grid x \<and> grid y" if "(x, y) \<in> set qts" for x y using assms(1) that by (auto simp: grid_line_def grid_def)
  have fin: "\<forall>p \<in> set (ipoints qts). point_fin p" using g by (auto simp: point_fin_def)
  have len: "length (ipoints qts) \<le> 2 ^ 20" using assms(1) by (simp add: grid_line_def)
  have mk: "makeSeries (ipoints qts) True False opts = Inr line" using assms(3) by (simp add: NewLine_def)
  have snug: "snug (BaseSeries line)"
    using makeSeries_snug [OF mk fin len] assms(2) pts by (simp add: series_Empty_def)
  have seg: "series_SegmentAt line (int k) = Inr (edge_seg (legs qts ! k))" if k: "k < length (legs qts)" for k
  proof -
    have i: "int k \<in> set [0..series_NumSegments line - 1]" using k line_segs(1) [OF l] by auto
    then have "series_SegmentAt line (int k) = Inr (item_seg line (int k))"
      using wf_item_ok item_okD(1) l by (simp add: line_of_def searchable_def series_wf_def)
    then show ?thesis using line_segs(2) [OF l i] by simp
  qed
  show ?thesis
    unfolding made_of_def
  proof (intro conjI)
    show "snug (BaseSeries line)" by (rule snug)
    show "\<forall>(x, y) \<in> set qts. grid x \<and> grid y" using g by blast
    show "sNumPoints (BaseSeries line) = int (length qts)" by (simp add: pts series_NumPoints_def)
    show "\<forall>k<length qts. sPointAt (BaseSeries line) (int k) = Inr (ipoints qts ! k)"
      by (simp add: pts series_PointAt_def index_at_def)
    show "sNumSegments (BaseSeries line) = int (length (legs qts))" using line_segs(1) [OF l] by simp
    show "\<forall>k<length (legs qts). sSegmentAt (BaseSeries line) (int k) = Inr (edge_seg (legs qts ! k))" using seg by simp
    show "\<forall>(u, v) \<in> set (legs qts). u \<in> set qts \<and> v \<in> set qts"
      using legs_ends by blast
    show "\<forall>u \<in> set qts. \<exists>v. (u, v) \<in> set (legs qts) \<or> (v, u) \<in> set (legs qts)" using legs_corner [OF assms(2)] by blast
  qed
qed

section \<open>The points of the inner shape\<close>

lemma scaled_edge_1 [simp]: "scaled_edge 1 e = e"
  by (simp add: scaled_edge_def split: prod.split)

lemma side_inside_points:
  assumes "convex_ring pts \<or> simple_ring pts" "no_corner_on pts [(u, v)]" "no_corner_on [u, v] (edges pts)"
  shows "side_inside pts (u, v) \<longleftrightarrow>
    (\<forall>q px py. 0 < q \<longrightarrow> edge_on px py (scaled_edge q (u, v)) \<longrightarrow> region pts q px py)"
proof -
  obtain ax ay bx b where uv: "u = (ax, ay)" "v = (bx, b)" by (metis prod.exhaust)
  have on: "edge_on px py (scaled_edge q (u, v)) \<longleftrightarrow> on_seg (q * ax) (q * ay) (q * bx) (q * b) px py" for q px py
    by (simp add: uv edge_on_def scaled_edge_def)
  show ?thesis
  proof
    assume "side_inside pts (u, v)"
    then have "even_odd pts ax ay True" "\<forall>f \<in> set (edges pts). \<not> edges_meet ((ax, ay), (bx, b)) f" by (simp_all add: side_inside_def uv)
    then show "\<forall>q px py. 0 < q \<longrightarrow> edge_on px py (scaled_edge q (u, v)) \<longrightarrow> region pts q px py"
      unfolding on using region_along by blast
  next
    assume all: "\<forall>q px py. 0 < q \<longrightarrow> edge_on px py (scaled_edge q (u, v)) \<longrightarrow> region pts q px py"
    have "on_seg (1 * ax) (1 * ay) (1 * bx) (1 * b) ax ay" using on_seg_ends by simp
    then have "region pts 1 ax ay" using all on zero_less_one by blast
    then have start: "even_odd pts ax ay True" by (simp add: region_def)
    have corners: "\<forall>(x, y) \<in> set pts. \<not> on_seg ax ay bx b x y"
      using assms(2) by (auto simp: no_corner_on_def edge_on_def uv)
    have ends: "\<forall>f \<in> set (edges pts). \<not> edge_on ax ay f \<and> \<not> edge_on bx b f"
      using assms(3) by (auto simp: no_corner_on_def uv)
    have "on_seg (1 * ax) (1 * ay) (1 * bx) (1 * b) bx b" using on_seg_ends by simp
    then have "region pts 1 bx b" using all on zero_less_one by blast
    then have stop: "even_odd pts bx b True" by (simp add: region_def)
    have clear: "clear_of pts ((ax, ay), (bx, b))" using assms(2,3) by (simp add: clear_of_def uv)
    have "\<not> edges_meet (u, v) f" if f: "f \<in> set (edges pts)" for f
    proof (cases "convex_ring pts")
      case True
      then show ?thesis using convex_no_leave [OF _ clear start stop f] uv by simp
    next
      case False
      then have simple: "simple_ring pts" using assms(1) by blast
      show ?thesis
      proof
        assume "edges_meet (u, v) f"
        then obtain t where t: "0 \<le> t" "t \<le> 1" "\<not> inside_at pts ax ay bx b t"
          using crossing_leaves [OF simple corners ends f _ start] uv by blast
        obtain q px py where p: "0 < q" "of_int px = of_int q * along ax bx t" "of_int py = of_int q * along ay b t"
          by (rule common_denominator)
        have "on_seg (q * ax) (q * ay) (q * bx) (q * b) px py"
          unfolding on_seg_along along_scaled p(2,3) using t(1,2) by blast
        then show False using all p(1) t(3) inside_at_region [OF p] unfolding on by blast
      qed
    qed
    then show "side_inside pts (u, v)" using start by (simp add: side_inside_def uv)
  qed
qed

lemma sides_apart:
  assumes "\<forall>e \<in> set (sides qts). side_inside pts e" "2 \<le> length qts" "e \<in> set (edges qts)" "f \<in> set (edges pts)"
  shows "\<not> edges_meet e f"
proof
  assume "edges_meet e f"
  then obtain e' where "e' \<in> set (sides qts)" "edges_meet e' f"
    using sides_meet [OF assms(2), of f] edges_meet_sym assms(3) by blast
  then show False using assms(1,4) by (auto simp: side_inside_def)
qed

lemma ring_inside_points:
  assumes "convex_ring pts \<or> simple_ring pts" "2 \<le> length qts" "made_of other qts (sides qts)"
    and "no_corner_on pts (edges qts)" "no_corner_on qts (edges pts)"
  shows "(\<forall>e \<in> set (sides qts). side_inside pts e) \<longleftrightarrow>
    (\<forall>q px py. 0 < q \<longrightarrow> region qts q px py \<longrightarrow> region pts q px py)"
proof
  assume in_all: "\<forall>e \<in> set (sides qts). side_inside pts e"
  have corners: "\<forall>(x, y) \<in> set qts. even_odd pts x y True" using side_corners [OF assms(3) in_all] by blast
  have apart: "\<forall>e \<in> set (edges qts). \<forall>f \<in> set (edges pts). \<not> edges_meet e f" using sides_apart [OF in_all assms(2)] by blast
  show "\<forall>q px py. 0 < q \<longrightarrow> region qts q px py \<longrightarrow> region pts q px py" using enclosed [OF apart corners] by blast
next
  assume all: "\<forall>q px py. 0 < q \<longrightarrow> region qts q px py \<longrightarrow> region pts q px py"
  show "\<forall>e \<in> set (sides qts). side_inside pts e"
  proof clarify
    fix ax ay bx b assume e: "((ax, ay), (bx, b)) \<in> set (sides qts)"
    have e': "((ax, ay), (bx, b)) \<in> set (edges qts)" using e sides_take [OF assms(2)] by (metis in_set_takeD)
    have m: "(ax, ay) \<in> set qts" "(bx, b) \<in> set qts" using made_of_parts(7) [OF assms(3) e] by simp_all
    have "no_corner_on pts [((ax, ay), (bx, b))]" "no_corner_on [(ax, ay), (bx, b)] (edges pts)"
      using assms(4,5) e' m unfolding no_corner_on_def by auto
    moreover have "region qts q px py" if "edge_on px py (scaled_edge q ((ax, ay), (bx, b)))" for q px py
      using that e' unfolding region_def even_odd_def scaled_edges by auto
    ultimately show "side_inside pts ((ax, ay), (bx, b))" using side_inside_points [OF assms(1)] all by blast
  qed
qed

section \<open>Rings that contain rings and lines\<close>

text \<open>A ring as \<open>newRing\<close> makes it of grid points.\<close>

definition built :: "Ring \<Rightarrow> (int \<times> int) list \<Rightarrow> bool" where
  "built ring pts \<longleftrightarrow> boxed_ring ring pts \<and> made_of ring pts (sides pts)"

lemma newRing_built:
  assumes "grid_ring pts" "newRing (ipoints pts) opts = Inr ring"
  shows "built ring pts"
  using newRing_boxed [OF assms(1), of opts] newRing_made_of [OF assms] assms(2) by (auto simp: built_def)

lemma built_parts:
  assumes "built ring pts"
  shows "boxed_ring ring pts" "grid_series ring pts" "grid_ring pts" "made_of ring pts (sides pts)" "snug ring" "2 \<le> length pts"
proof -
  show r: "boxed_ring ring pts" and m: "made_of ring pts (sides pts)" using assms by (simp_all add: built_def)
  show g: "grid_series ring pts" using r by (simp add: boxed_ring_def)
  then show "grid_ring pts" by (simp add: grid_series_def)
  then show "2 \<le> length pts" by (simp add: grid_ring_def)
  show "snug ring" by (rule made_of_parts(1) [OF m])
qed

lemma shaped_ring: "shaped ring pts \<Longrightarrow> convex_ring pts \<or> simple_ring pts"
  by (simp add: shaped_def split: if_splits)

text \<open>A ring that is convex is flagged so, and its shape is right whether it is simple or not.\<close>

lemma convex_shaped: "grid_ring pts \<Longrightarrow> convex_ring pts \<Longrightarrow> newRing (ipoints pts) opts = Inr ring \<Longrightarrow> shaped ring pts"
  using convex_flag by (simp add: shaped_def)

lemma ring_contains_ring:
  assumes "built ring pts" "shaped ring pts" "built other qts" "length qts < 16"
    and "no_corner_on pts (edges qts)" "no_corner_on qts (edges pts)"
  shows "ringContainsRing ring other allow = Inr (\<forall>q px py. 0 < q \<longrightarrow> region qts q px py \<longrightarrow> region pts q px py)"
proof -
  note r = built_parts [OF assms(1)] and o = built_parts [OF assms(3)]
  have "set (sides qts) \<subseteq> set (edges qts)" unfolding sides_take [OF o(6)] by (rule set_take_subset)
  then have "no_corner_on pts (sides qts)" using assms(5) unfolding no_corner_on_def by blast
  then have "ringContainsRing ring other allow = Inr (\<forall>e \<in> set (sides qts). side_inside pts e)"
    using contains_sides [OF r(2) assms(2) r(5) o(4) assms(4)] assms(6) by simp
  then show ?thesis unfolding ring_inside_points [OF shaped_ring [OF assms(2)] o(6,4) assms(5,6)] .
qed

lemma leg_inside_points:
  assumes "convex_ring pts \<or> simple_ring pts" "no_corner_on pts (legs ls)" "no_corner_on ls (edges pts)" "e \<in> set (legs ls)"
  shows "side_inside pts e \<longleftrightarrow> (\<forall>q px py. 0 < q \<longrightarrow> edge_on px py (scaled_edge q e) \<longrightarrow> region pts q px py)"
proof -
  obtain u v where uv: "e = (u, v)" by (metis prod.exhaust)
  have "u \<in> set ls" "v \<in> set ls" using legs_ends assms(4) uv by blast+
  then have "no_corner_on pts [(u, v)]" "no_corner_on [u, v] (edges pts)"
    using assms(2-4) unfolding uv no_corner_on_def by auto
  then show ?thesis unfolding uv by (rule side_inside_points [OF assms(1)])
qed

lemma ring_contains_line:
  assumes "built ring pts" "shaped ring pts" "made_of (BaseSeries line) ls (legs ls)" "length ls < 16"
    and "no_corner_on pts (legs ls)" "no_corner_on ls (edges pts)"
  shows "ringContainsLine ring line allow = Inr (\<forall>e \<in> set (legs ls). \<forall>q px py. 0 < q \<longrightarrow>
    edge_on px py (scaled_edge q e) \<longrightarrow> region pts q px py)"
  using contains_sides [OF built_parts(2) [OF assms(1)] assms(2) built_parts(5) [OF assms(1)] assms(3-6)]
    leg_inside_points [OF shaped_ring [OF assms(2)] assms(5,6)] by (simp add: ringContainsLine_def)

section \<open>A simple concave ring\<close>

text \<open>Two edges that go on from each other without turning back meet in their corner only; others must not meet.\<close>

lemma corner_only:
  assumes "side ax ay bx b dx d \<noteq> 0" "edge_on px py (scaled_edge q ((ax, ay), (bx, b)))"
    "edge_on px py (scaled_edge q ((bx, b), (dx, d)))" "0 < q"
  shows "px = q * bx \<and> py = q * b"
proof -
  obtain t where t: "of_int px = of_int q * along ax bx t" "of_int py = of_int q * along ay b t"
    using assms(2) by (auto simp: edge_on_def scaled_edge_def on_seg_along along_scaled)
  obtain u where u: "of_int px = of_int q * along bx dx u" "of_int py = of_int q * along b d u"
    using assms(3) by (auto simp: edge_on_def scaled_edge_def on_seg_along along_scaled)
  have q: "(of_int q :: rat) \<noteq> 0" using assms(4) by simp
  have e: "along bx dx u = along ax bx t" "along b d u = along ay b t" using t u q by simp_all
  have "(of_int (b - ay) :: rat) * (along ax bx t - of_int ax) - (along ay b t - of_int ay) * of_int (bx - ax) = 0"
    by (simp add: along_def algebra_simps)
  then have "(of_int (side ax ay bx b bx b) :: rat) + of_int (side ax ay bx b dx d - side ax ay bx b bx b) * u = 0"
    unfolding e [symmetric] side_along .
  moreover have "side ax ay bx b bx b = 0" by (simp add: side_def)
  ultimately have "u = 0" using assms(1) by simp
  then have "(of_int px :: rat) = of_int (q * bx)" "(of_int py :: rat) = of_int (q * b)" using u by (simp_all add: along_def)
  then show ?thesis by (simp only: of_int_eq_iff)
qed

lemma apart_only:
  assumes "\<not> segs_meet ax ay bx b cx cy dx d" "edge_on px py (scaled_edge q ((ax, ay), (bx, b)))"
    "edge_on px py (scaled_edge q ((cx, cy), (dx, d)))" "0 < q"
  shows False
proof -
  have "segs_meet (q * ax) (q * ay) (q * bx) (q * b) (q * cx) (q * cy) (q * dx) (q * d)"
    using assms(2,3) by (auto simp: edge_on_def scaled_edge_def intro: on_both_meet)
  then show False using assms(1) segs_meet_scaled [OF assms(4)] by simp
qed

abbreviation dart :: "(int \<times> int) list" where
  "dart \<equiv> [(0, 0), (6, 12), (12, 0), (6, 4)]"

lemma dart_simple: "simple_ring dart"
  unfolding simple_ring_def
proof clarify
  fix i j q px py
  assume ij: "i < j" "j < length (edges dart)" and q: "0 < (q::int)"
    and on: "edge_on px py (scaled_edge q (edges dart ! i))" "edge_on px py (scaled_edge q (edges dart ! j))"
  have e: "edges dart = [((0, 0), (6, 12)), ((6, 12), (12, 0)), ((12, 0), (6, 4)), ((6, 4), (0, 0))]" by (simp add: edges_def)
  have m: "\<not> segs_meet 0 0 6 12 12 0 6 4" "\<not> segs_meet 6 12 12 0 6 4 0 0" by (rule one_side(1), simp add: side_def)+
  have "j < 4" using ij(2) by (simp add: e)
  then consider "i = 0" "j = 1" | "i = 0" "j = 2" | "i = 0" "j = 3" | "i = 1" "j = 2" | "i = 1" "j = 3" | "i = 2" "j = 3"
    using ij(1) by linarith
  then have "(px, py) \<in> {(q * 6, q * 12), (q * 0, q * 0), (q * 12, q * 0), (q * 6, q * 4)}"
  proof cases
    case 1
    then show ?thesis using on corner_only [of 0 0 6 12 12 0 px py q] q by (simp add: e side_def)
  next
    case 2
    then show ?thesis using on apart_only [OF m(1), of px py q] q by (simp add: e)
  next
    case 3
    then show ?thesis using on corner_only [of 6 4 0 0 6 12 px py q] q by (simp add: e side_def)
  next
    case 4
    then show ?thesis using on corner_only [of 6 12 12 0 6 4 px py q] q by (simp add: e side_def)
  next
    case 5
    then show ?thesis using on apart_only [OF m(2), of px py q] q by (simp add: e)
  next
    case 6
    then show ?thesis using on corner_only [of 12 0 6 4 0 0 px py q] q by (simp add: e side_def)
  qed
  then show "(px, py) \<in> set (scaled q dart)" by (auto simp: scaled_def)
qed

lemma dart_shaped:
  assumes "newRing (ipoints dart) None = Inr ring"
  shows "shaped ring dart"
proof -
  have g: "grid_ring dart" by (simp add: grid_ring_def)
  have "\<not> sConvex ring" by (rule concave_flag [OF g assms, of 0 2]) (simp_all add: turn_at_def icross_def)
  then show ?thesis using dart_simple by (simp add: shaped_def)
qed

end
