(* ===== verification/Rect_Contents.thy ===== *)
theory Rect_Contents
  imports Containment
begin

text \<open>
  What a rectangle contains, on the integer grid: \<open>Rect.ContainsRect\<close>, \<open>ContainsPoly\<close> and \<open>ContainsLine\<close> compare the
  rectangle around the other shape only, and that decides exactly whether every point of the shape is in the rectangle.
\<close>


section \<open>What a rectangle contains\<close>

text \<open>The points \<open>(px / q, py / q)\<close> of a rectangle.\<close>

definition in_box :: "int \<Rightarrow> int \<Rightarrow> int \<Rightarrow> int \<Rightarrow> int \<Rightarrow> int \<Rightarrow> int \<Rightarrow> bool" where
  "in_box x0 y0 x1 y1 q px py \<longleftrightarrow> q * x0 \<le> px \<and> px \<le> q * x1 \<and> q * y0 \<le> py \<and> py \<le> q * y1"

lemma rect_contains_made_of:
  assumes r: "grid x0" "grid y0" "grid x1" "grid y1" "x0 \<le> x1" "y0 \<le> y1" and s: "made_of s qts es"
  shows "rect_ContainsRect (irect x0 y0 x1 y1) (sRect s) \<longleftrightarrow> (\<forall>(x, y) \<in> set qts. in_box x0 y0 x1 y1 1 x y)"
proof -
  note parts = made_of_parts [OF s]
  let ?r = "irect x0 y0 x1 y1"
  have ok: "rect_ok ?r" using r by (simp add: rect_ok_def)
  have box: "rect_ContainsPoint ?r (ipoint x y) \<longleftrightarrow> in_box x0 y0 x1 y1 1 x y" if "(x, y) \<in> set qts" for x y
    using parts(2) [OF that] r by (auto simp: rect_ContainsPoint_def in_box_def)
  have at: "\<exists>k < length qts. sPointAt s (int k) = Inr (ipoint x y)" if xy: "(x, y) \<in> set qts" for x y
  proof -
    obtain k where k: "k < length qts" "qts ! k = (x, y)" using xy by (metis in_set_conv_nth)
    then have "sPointAt s (int k) = Inr (ipoint x y)" using parts(4) [OF k(1)] by simp
    then show ?thesis using k(1) by blast
  qed
  have i: "int k \<in> set [0..sNumPoints s - 1]" if "k < length qts" for k using that parts(3) by simp
  show ?thesis
  proof
    assume c: "rect_ContainsRect ?r (sRect s)"
    show "\<forall>(x, y) \<in> set qts. in_box x0 y0 x1 y1 1 x y"
    proof clarify
      fix x y assume xy: "(x, y) \<in> set qts"
      then obtain k where k: "k < length qts" "sPointAt s (int k) = Inr (ipoint x y)" using at by blast
      have "\<exists>p. sPointAt s (int k) = Inr p \<and> point_ok p \<and> rect_ContainsPoint (sRect s) p"
        using parts(1) i [OF k(1)] unfolding snug_def by blast
      then have "rect_ContainsPoint (sRect s) (ipoint x y)" using k(2) by simp
      then show "in_box x0 y0 x1 y1 1 x y" using ContainsRect_point [OF ok c] box [OF xy] by blast
    qed
  next
    assume all: "\<forall>(x, y) \<in> set qts. in_box x0 y0 x1 y1 1 x y"
    have least: "\<forall>t. rect_ok t \<longrightarrow> (\<forall>i \<in> set [0..sNumPoints s - 1]. \<exists>p. sPointAt s i = Inr p \<and> rect_ContainsPoint t p) \<longrightarrow>
        rect_ContainsRect t (sRect s)" using parts(1) unfolding snug_def by blast
    show "rect_ContainsRect ?r (sRect s)"
    proof (rule least [rule_format, OF ok])
      fix i assume "i \<in> set [0..sNumPoints s - 1]"
      then have k: "nat i < length qts" "int (nat i) = i" unfolding parts(3) by auto
      obtain x y where xy: "qts ! nat i = (x, y)" by (metis prod.exhaust)
      have m: "(x, y) \<in> set qts" using k(1) xy by (metis nth_mem)
      have "sPointAt s i = Inr (ipoint x y)" using parts(4) [OF k(1)] k xy by simp
      then show "\<exists>p. sPointAt s i = Inr p \<and> rect_ContainsPoint ?r p" using box [OF m] all m by blast
    qed
  qed
qed

text \<open>A region lies in a rectangle exactly if its corners do, and a line if its points do.\<close>

lemma region_in_box:
  "(\<forall>(x, y) \<in> set qts. in_box x0 y0 x1 y1 1 x y) \<longleftrightarrow> (\<forall>q px py. 0 < q \<longrightarrow> region qts q px py \<longrightarrow> in_box x0 y0 x1 y1 q px py)"
proof
  assume all: "\<forall>(x, y) \<in> set qts. in_box x0 y0 x1 y1 1 x y"
  show "\<forall>q px py. 0 < q \<longrightarrow> region qts q px py \<longrightarrow> in_box x0 y0 x1 y1 q px py"
  proof (intro allI impI)
    fix q px py assume q: "0 < (q::int)" "region qts q px py"
    have c: "q * x0 \<le> x \<and> x \<le> q * x1 \<and> q * y0 \<le> y \<and> y \<le> q * y1" if "(x, y) \<in> set (scaled q qts)" for x y
      using that all q(1) by (auto simp: scaled_def in_box_def mult_left_mono)
    note s = surrounded [OF q(2) [unfolded region_def]]
    show "in_box x0 y0 x1 y1 q px py" unfolding in_box_def using s c by fastforce
  qed
next
  assume all: "\<forall>q px py. 0 < q \<longrightarrow> region qts q px py \<longrightarrow> in_box x0 y0 x1 y1 q px py"
  show "\<forall>(x, y) \<in> set qts. in_box x0 y0 x1 y1 1 x y"
  proof clarify
    fix x y assume "(x, y) \<in> set qts"
    then obtain v where "((x, y), v) \<in> set (edges qts)" using edges_corner by blast
    then have "even_odd qts x y True" by (rule on_edge_in) (simp add: edge_on_def on_seg_ends split: prod.split)
    then have "region qts 1 x y" by (simp add: region_def)
    then show "in_box x0 y0 x1 y1 1 x y" using all zero_less_one by blast
  qed
qed

lemma line_in_box:
  assumes "2 \<le> length ls"
  shows "(\<forall>(x, y) \<in> set ls. in_box x0 y0 x1 y1 1 x y) \<longleftrightarrow>
    (\<forall>e \<in> set (legs ls). \<forall>q px py. 0 < q \<longrightarrow> edge_on px py (scaled_edge q e) \<longrightarrow> in_box x0 y0 x1 y1 q px py)"
proof
  assume all: "\<forall>(x, y) \<in> set ls. in_box x0 y0 x1 y1 1 x y"
  show "\<forall>e \<in> set (legs ls). \<forall>q px py. 0 < q \<longrightarrow> edge_on px py (scaled_edge q e) \<longrightarrow> in_box x0 y0 x1 y1 q px py"
  proof clarify
    fix ax ay bx b q px py
    assume e: "((ax, ay), (bx, b)) \<in> set (legs ls)" and q: "0 < (q::int)" "edge_on px py (scaled_edge q ((ax, ay), (bx, b)))"
    have "in_box x0 y0 x1 y1 1 ax ay" "in_box x0 y0 x1 y1 1 bx b" using all legs_ends [OF e] by blast+
    then have "q * x0 \<le> q * ax" "q * x0 \<le> q * bx" "q * ax \<le> q * x1" "q * bx \<le> q * x1"
      "q * y0 \<le> q * ay" "q * y0 \<le> q * b" "q * ay \<le> q * y1" "q * b \<le> q * y1"
      using q(1) by (simp_all add: in_box_def)
    then show "in_box x0 y0 x1 y1 q px py"
      using q(2) unfolding in_box_def edge_on_def scaled_edge_def prod.case on_seg_def by linarith
  qed
next
  assume all: "\<forall>e \<in> set (legs ls). \<forall>q px py. 0 < q \<longrightarrow> edge_on px py (scaled_edge q e) \<longrightarrow> in_box x0 y0 x1 y1 q px py"
  show "\<forall>(x, y) \<in> set ls. in_box x0 y0 x1 y1 1 x y"
  proof clarify
    fix x y assume "(x, y) \<in> set ls"
    then obtain v where "((x, y), v) \<in> set (legs ls) \<or> (v, (x, y)) \<in> set (legs ls)" using legs_corner [OF assms] by blast
    moreover have "edge_on x y (scaled_edge 1 ((x, y), v))" "edge_on x y (scaled_edge 1 (v, (x, y)))"
      by (simp_all add: edge_on_def on_seg_ends split: prod.split)
    ultimately show "in_box x0 y0 x1 y1 1 x y" using all zero_less_one by blast
  qed
qed


lemma box_in_box:
  assumes "u0 \<le> u1" "v0 \<le> v1"
  shows "x0 \<le> u0 \<and> u1 \<le> x1 \<and> y0 \<le> v0 \<and> v1 \<le> y1 \<longleftrightarrow>
    (\<forall>q px py. 0 < q \<longrightarrow> in_box u0 v0 u1 v1 q px py \<longrightarrow> in_box x0 y0 x1 y1 q px py)"
proof
  assume o: "x0 \<le> u0 \<and> u1 \<le> x1 \<and> y0 \<le> v0 \<and> v1 \<le> y1"
  show "\<forall>q px py. 0 < q \<longrightarrow> in_box u0 v0 u1 v1 q px py \<longrightarrow> in_box x0 y0 x1 y1 q px py"
  proof (intro allI impI)
    fix q px py assume q: "0 < (q::int)" "in_box u0 v0 u1 v1 q px py"
    have "q * x0 \<le> q * u0" "q * u1 \<le> q * x1" "q * y0 \<le> q * v0" "q * v1 \<le> q * y1" using o q(1) by simp_all
    then show "in_box x0 y0 x1 y1 q px py" using q(2) unfolding in_box_def by linarith
  qed
next
  assume all: "\<forall>q px py. 0 < q \<longrightarrow> in_box u0 v0 u1 v1 q px py \<longrightarrow> in_box x0 y0 x1 y1 q px py"
  have "in_box u0 v0 u1 v1 1 u0 v0" "in_box u0 v0 u1 v1 1 u1 v1" using assms by (simp_all add: in_box_def)
  then have "in_box x0 y0 x1 y1 1 u0 v0" "in_box x0 y0 x1 y1 1 u1 v1" using all zero_less_one by blast+
  then show "x0 \<le> u0 \<and> u1 \<le> x1 \<and> y0 \<le> v0 \<and> v1 \<le> y1" by (simp add: in_box_def)
qed

text \<open>
  C14: on integer coordinates of at most 2 ^ 24 the methods of a rectangle that ask whether it contains a rectangle, a polygon without
  holes or a line are exact: they say yes exactly if every point of the other shape, with any rational
  coordinates, is in the rectangle, although they only look at the rectangle around the other shape.
\<close>

theorem rect_contains_exact:
  assumes "\<bar>x0\<bar> \<le> 2 ^ 24" "\<bar>y0\<bar> \<le> 2 ^ 24" "\<bar>x1\<bar> \<le> 2 ^ 24" "\<bar>y1\<bar> \<le> 2 ^ 24" "x0 \<le> x1" "y0 \<le> y1"
    and "\<bar>u0\<bar> \<le> 2 ^ 24" "\<bar>v0\<bar> \<le> 2 ^ 24" "\<bar>u1\<bar> \<le> 2 ^ 24" "\<bar>v1\<bar> \<le> 2 ^ 24" "u0 \<le> u1" "v0 \<le> v1"
    and "grid_ring qts" "NewPoly (map (\<lambda>(x, y). ipoint x y) qts) [] opts = Inr poly"
    and "grid_line ls" "2 \<le> length ls" "NewLine (map (\<lambda>(x, y). ipoint x y) ls) opts' = Inr line"
  shows "(rect_ContainsRect (irect x0 y0 x1 y1) (irect u0 v0 u1 v1) \<longleftrightarrow>
      (\<forall>q px py. 0 < q \<longrightarrow> in_box u0 v0 u1 v1 q px py \<longrightarrow> in_box x0 y0 x1 y1 q px py)) \<and>
    (rect_ContainsPoly (irect x0 y0 x1 y1) (Some poly) \<longleftrightarrow>
      (\<forall>q px py. 0 < q \<longrightarrow> region qts q px py \<longrightarrow> in_box x0 y0 x1 y1 q px py)) \<and>
    (rect_ContainsLine (irect x0 y0 x1 y1) (Some line) \<longleftrightarrow>
      (\<forall>e \<in> set (legs ls). \<forall>q px py. 0 < q \<longrightarrow> edge_on px py (scaled_edge q e) \<longrightarrow> in_box x0 y0 x1 y1 q px py))"
proof (intro conjI)
  have r: "grid x0" "grid y0" "grid x1" "grid y1" "x0 \<le> x1" "y0 \<le> y1" and s: "grid u0" "grid v0" "grid u1" "grid v1"
    using assms(1-10) by (simp_all only: grid_def)
  show "rect_ContainsRect (irect x0 y0 x1 y1) (irect u0 v0 u1 v1) \<longleftrightarrow>
      (\<forall>q px py. 0 < q \<longrightarrow> in_box u0 v0 u1 v1 q px py \<longrightarrow> in_box x0 y0 x1 y1 q px py)"
    unfolding box_in_box [OF assms(11,12), symmetric] ContainsRect_irect using r s by (auto simp: grid_cmp)
  obtain inner where o: "newRing (ipoints qts) opts = Inr inner" "poly = \<lparr>Exterior = Some inner, Holes = []\<rparr>"
    using assms(14) by (auto simp: NewPoly_def)
  note m = newRing_made_of(2) [OF assms(13) o(1)]
  have "\<not> sEmpty inner" using made_of_parts(1) [OF m] by (simp add: snug_def)
  then show "rect_ContainsPoly (irect x0 y0 x1 y1) (Some poly) \<longleftrightarrow>
      (\<forall>q px py. 0 < q \<longrightarrow> region qts q px py \<longrightarrow> in_box x0 y0 x1 y1 q px py)"
    using rect_contains_made_of [OF r m] by (simp add: region_in_box rect_ContainsPoly_def poly_Empty_def poly_Rect_def o(2))
  note l = NewLine_made_of [OF assms(15,16,17)]
  have "\<not> series_Empty (Some line)" using made_of_parts(1) [OF l] by (simp add: snug_def)
  then show "rect_ContainsLine (irect x0 y0 x1 y1) (Some line) \<longleftrightarrow>
      (\<forall>e \<in> set (legs ls). \<forall>q px py. 0 < q \<longrightarrow> edge_on px py (scaled_edge q e) \<longrightarrow> in_box x0 y0 x1 y1 q px py)"
    using rect_contains_made_of [OF r l] by (simp add: line_in_box [OF assms(16)] rect_ContainsLine_def)
qed

theorem rect_contains_exact_witness:
  "\<exists>poly line. NewPoly (map (\<lambda>(x, y). ipoint x y) [(0, 0), (3, 0), (0, 3)]) [] None = Inr poly \<and>
    NewLine (map (\<lambda>(x, y). ipoint x y) [(1, 1), (9, 1)]) None = Inr line \<and>
    rect_ContainsPoly (irect 0 0 4 4) (Some poly) \<and> \<not> rect_ContainsLine (irect 0 0 4 4) (Some line)"
proof -
  let ?q = "[(0, 0), (3, 0), (0, 3)] :: (int \<times> int) list" and ?l = "[(1, 1), (9, 1)] :: (int \<times> int) list"
  have g: "grid_ring ?q" "grid_line ?l" by (simp_all add: grid_ring_def grid_line_def)
  obtain poly where p: "NewPoly (ipoints ?q) [] None = Inr poly" using NewPoly_area [OF g(1)] by blast
  obtain line where l: "NewLine (ipoints ?l) None = Inr line" using NewLine_line_of [OF g(2)] by blast
  have "\<forall>(x, y) \<in> set ?q. in_box 0 0 4 4 1 x y" "\<not> (\<forall>(x, y) \<in> set ?l. in_box 0 0 4 4 1 x y)" by (simp_all add: in_box_def)
  moreover have "2 \<le> length ?l" by simp
  ultimately have "\<forall>q px py. 0 < q \<longrightarrow> region ?q q px py \<longrightarrow> in_box 0 0 4 4 q px py"
    "\<not> (\<forall>e \<in> set (legs ?l). \<forall>q px py. 0 < q \<longrightarrow> edge_on px py (scaled_edge q e) \<longrightarrow> in_box 0 0 4 4 q px py)"
    by (simp only: region_in_box, simp only: line_in_box not_False_eq_True)
  then show ?thesis
    using rect_contains_exact [of 0 0 4 4 0 0 1 1, OF _ _ _ _ _ _ _ _ _ _ _ _ g(1) p g(2) _ l] p l by simp
qed

end
