(* ===== verification/Holes.thy ===== *)
theory Holes
  imports Containment
begin

text \<open>
  Polygons with holes, on the integer grid: what \<open>poly.go\<close> does with the holes is exact where no corner of one border is on
  the other. A polygon contains a shape exactly if every point of the shape is in the exterior and in no hole, and a
  polygon whose holes lie in it and apart from each other intersects a shape exactly if they have a point in common.
\<close>


section \<open>Polygons made of grid points\<close>

lemma newRings_built:
  "\<forall>h \<in> set hs. grid_ring h \<Longrightarrow> newRings (map ipoints hs) opts = Inr rs \<Longrightarrow> list_all2 built rs hs"
proof (induction hs arbitrary: rs)
  case (Cons h hs)
  then obtain r rs' where "newRing (ipoints h) opts = Inr r" "newRings (map ipoints hs) opts = Inr rs'" "rs = r # rs'"
    by (auto simp: rbind_eq_Inr)
  then show ?case using Cons newRing_built [of h opts r] by simp
qed simp

lemma newRings_shaped:
  "\<forall>h \<in> set hs. grid_ring h \<and> convex_ring h \<Longrightarrow> newRings (map ipoints hs) opts = Inr rs \<Longrightarrow> list_all2 shaped rs hs"
proof (induction hs arbitrary: rs)
  case (Cons h hs)
  then obtain r rs' where "newRing (ipoints h) opts = Inr r" "newRings (map ipoints hs) opts = Inr rs'" "rs = r # rs'"
    by (auto simp: rbind_eq_Inr)
  then show ?case using Cons convex_shaped [of h opts r] by simp
qed simp

lemma NewPoly_parts:
  assumes "NewPoly (ipoints pts) (map ipoints hs) opts = Inr poly" "grid_ring pts" "\<forall>h \<in> set hs. grid_ring h"
  obtains ring rs where "poly = \<lparr>Exterior = Some ring, Holes = rs\<rparr>" "newRing (ipoints pts) opts = Inr ring"
    "built ring pts" "newRings (map ipoints hs) opts = Inr rs" "list_all2 built rs hs"
proof -
  obtain ring where r: "newRing (ipoints pts) opts = Inr ring" using newRing_boxed [OF assms(2)] by blast
  obtain rs where rs: "newRings (map ipoints hs) opts = Inr rs" using newRings_ring_of [OF assms(3)] by blast
  have "poly = \<lparr>Exterior = Some ring, Holes = rs\<rparr>"
    using assms(1) r rs by (cases "hs = []") (auto simp: NewPoly_def)
  then show thesis using that r rs newRing_built [OF assms(2) r] newRings_built [OF assms(3) rs] by blast
qed

lemma hole_loop:
  assumes "list_all2 (\<lambda>r h. f r = Inr (P h)) rs hs"
  shows "exM f rs = Inr (\<exists>h \<in> set hs. P h)"
  using assms by (induction rule: list_all2_induct) auto

text \<open>No corner of one border on the other, for every ring of the list.\<close>

definition apart_corners :: "(int \<times> int) list list \<Rightarrow> (int \<times> int) list \<Rightarrow> ((int \<times> int) \<times> (int \<times> int)) list \<Rightarrow> bool" where
  "apart_corners rings qts es \<longleftrightarrow> (\<forall>h \<in> set rings. no_corner_on h es \<and> no_corner_on qts (edges h))"

section \<open>Containment\<close>

lemma holes_clear_exact:
  assumes "list_all2 built rs hs" "built other qts" "apart_corners hs qts (edges qts)"
  shows "holes_clear rs other [] = Inr (\<forall>h \<in> set hs. \<not> regions_meet h qts)"
  using assms(1,3)
proof (induction rule: list_all2_induct)
  case (Cons r rs h hs)
  have "ringIntersectsRing r other False = Inr (regions_meet h qts)"
    using boxed_rings_intersect [OF built_parts(1) [OF Cons.hyps(1)] built_parts(1) [OF assms(2)]] Cons.prems by (simp add: apart_corners_def)
  then show ?case using Cons by (simp add: apart_corners_def)
qed simp

lemma holes_off_line:
  assumes "list_all2 built rs hs" "line_of line ls" "apart_corners hs ls (legs ls)"
  shows "exM (\<lambda>hole. ringIntersectsLine hole line False) rs = Inr (\<exists>h \<in> set hs. \<exists>e \<in> set (legs ls). shares_point h e)"
proof (rule hole_loop)
  have "ringIntersectsLine r line False = Inr (\<exists>e \<in> set (legs ls). shares_point h e)" if "built r h" "h \<in> set hs" for r h
    using grid_series_IntersectsLine [OF built_parts(2) [OF that(1)] assms(2)] assms(3) that(2) by (simp add: apart_corners_def)
  then show "list_all2 (\<lambda>r h. ringIntersectsLine r line False = Inr (\<exists>e \<in> set (legs ls). shares_point h e)) rs hs"
    using assms(1) by (auto simp: list_all2_conv_all_nth)
qed

text \<open>
  C6: \<open>ContainsPoly\<close> decides exactly whether every point of the other polygon, with any rational coordinates, is in the exterior of the
  first and in none of its holes. So checking each side or point on its own, and the edges that a search reports, is
  enough. The exterior is convex, or simple and flagged concave; the holes have any shape; no corner of the other
  polygon is on an edge of the first or the other way round. Corners are integers of at most 2 ^ 24, index options arbitrary; the
  other polygon has no holes and fewer than 16 points. The last bound is needed: see \<open>Rect_Shortcut\<close>.
\<close>

theorem poly_ContainsPoly_exact:
  assumes "grid_ring pts" "\<forall>h \<in> set hs. grid_ring h" "grid_ring qts" "length qts < 16"
    and "NewPoly (map (\<lambda>(x, y). ipoint x y) pts) (map (map (\<lambda>(x, y). ipoint x y)) hs) opts = Inr poly"
    and "NewPoly (map (\<lambda>(x, y). ipoint x y) qts) [] opts' = Inr other"
    and "Exterior poly = Some ring" "shaped ring pts" "apart_corners (pts # hs) qts (edges qts)"
  shows "poly_ContainsPoly (Some poly) (Some other) =
    Inr (\<forall>q px py. 0 < q \<longrightarrow> region qts q px py \<longrightarrow> region pts q px py \<and> (\<forall>h \<in> set hs. \<not> region h q px py))"
proof -
  obtain ring' rs where p: "poly = \<lparr>Exterior = Some ring', Holes = rs\<rparr>" "built ring' pts" "list_all2 built rs hs"
    using NewPoly_parts [OF assms(5,1,2)] by metis
  have r: "ring' = ring" using assms(7) p(1) by simp
  obtain inner where o: "other = \<lparr>Exterior = Some inner, Holes = []\<rparr>" "built inner qts"
    using NewPoly_parts [of qts "[]" opts' other] assms(3,6) by auto
  have "ringContainsRing ring inner True = Inr (\<forall>q px py. 0 < q \<longrightarrow> region qts q px py \<longrightarrow> region pts q px py)"
    using ring_contains_ring [OF p(2) _ o(2) assms(4)] assms(8,9) r by (simp add: apart_corners_def)
  moreover have "holes_clear rs inner [] = Inr (\<forall>h \<in> set hs. \<not> regions_meet h qts)"
    using holes_clear_exact [OF p(3) o(2)] assms(9) by (simp add: apart_corners_def)
  moreover have "(\<forall>h \<in> set hs. \<not> regions_meet h qts) \<longleftrightarrow> (\<forall>q px py. 0 < q \<longrightarrow> region qts q px py \<longrightarrow> (\<forall>h \<in> set hs. \<not> region h q px py))"
    unfolding regions_meet_def by blast
  ultimately show ?thesis by (auto simp: poly_ContainsPoly_def p(1) o(1) r)
qed

text \<open>
  C12: in the same way \<open>Poly.ContainsLine\<close> decides exactly whether every point of every leg of the line is in the exterior
  and in none of the holes: integer coordinates of at most 2 ^ 24, a line of 2 to 15 points, an exterior that is convex, or simple and flagged
  concave, and no corner of the polygon on a leg nor a point of the line on an edge of the polygon.
\<close>

theorem poly_ContainsLine_exact:
  assumes "grid_ring pts" "\<forall>h \<in> set hs. grid_ring h" "grid_line ls" "2 \<le> length ls" "length ls < 16"
    and "NewPoly (map (\<lambda>(x, y). ipoint x y) pts) (map (map (\<lambda>(x, y). ipoint x y)) hs) opts = Inr poly"
    and "NewLine (map (\<lambda>(x, y). ipoint x y) ls) opts' = Inr line"
    and "Exterior poly = Some ring" "shaped ring pts" "apart_corners (pts # hs) ls (legs ls)"
  shows "poly_ContainsLine (Some poly) (Some line) = Inr (\<forall>e \<in> set (legs ls). \<forall>q px py. 0 < q \<longrightarrow>
    edge_on px py (scaled_edge q e) \<longrightarrow> region pts q px py \<and> (\<forall>h \<in> set hs. \<not> region h q px py))"
proof -
  obtain ring' rs where p: "poly = \<lparr>Exterior = Some ring', Holes = rs\<rparr>" "built ring' pts" "list_all2 built rs hs"
    using NewPoly_parts [OF assms(6,1,2)] by metis
  have r: "ring' = ring" using assms(8) p(1) by simp
  have l: "line_of line ls" using NewLine_line_of [OF assms(3), of opts'] assms(7) by auto
  have "ringContainsLine ring line True = Inr (\<forall>e \<in> set (legs ls). \<forall>q px py. 0 < q \<longrightarrow>
      edge_on px py (scaled_edge q e) \<longrightarrow> region pts q px py)"
    using ring_contains_line [OF p(2) _ NewLine_made_of [OF assms(3,4,7)] assms(5)] assms(9,10) r by (simp add: apart_corners_def)
  moreover have "exM (\<lambda>hole. ringIntersectsLine hole line False) rs = Inr (\<exists>h \<in> set hs. \<exists>e \<in> set (legs ls). shares_point h e)"
    using holes_off_line [OF p(3) l] assms(10) by (simp add: apart_corners_def)
  moreover have "(\<exists>h \<in> set hs. \<exists>e \<in> set (legs ls). shares_point h e) \<longleftrightarrow>
      \<not> (\<forall>e \<in> set (legs ls). \<forall>q px py. 0 < q \<longrightarrow> edge_on px py (scaled_edge q e) \<longrightarrow> (\<forall>h \<in> set hs. \<not> region h q px py))"
    unfolding shares_point_def by blast
  ultimately show ?thesis by (auto simp: poly_ContainsLine_def p(1) r)
qed

section \<open>Intersection\<close>

text \<open>The point \<open>(px / q, py / q)\<close> is strictly inside the ring.\<close>

definition strictly_in :: "(int \<times> int) list \<Rightarrow> int \<Rightarrow> int \<Rightarrow> int \<Rightarrow> bool" where
  "strictly_in pts q px py = even_odd (scaled q pts) px py False"

lemma strictly_in_region: "strictly_in pts q px py \<Longrightarrow> region pts q px py"
  by (auto simp: strictly_in_def region_def even_odd_def split: if_splits)

lemma on_border:
  assumes "f \<in> set (edges pts)" "edge_on px py (scaled_edge q f)"
  shows "region pts q px py" "\<not> strictly_in pts q px py"
  using assms by (auto simp: strictly_in_def region_def even_odd_def scaled_edges)

lemma border_point:
  assumes "region pts q px py" "\<not> strictly_in pts q px py"
  obtains f where "f \<in> set (edges pts)" "edge_on px py (scaled_edge q f)"
  using assms by (auto simp: strictly_in_def region_def even_odd_def scaled_edges split: if_splits)

text \<open>Holes that lie in the exterior and have no point in common with each other.\<close>

definition proper_holes :: "(int \<times> int) list \<Rightarrow> (int \<times> int) list list \<Rightarrow> bool" where
  "proper_holes pts hs \<longleftrightarrow>
     (\<forall>h \<in> set hs. \<forall>q px py. 0 < q \<longrightarrow> region h q px py \<longrightarrow> region pts q px py) \<and>
     (\<forall>h \<in> set hs. \<forall>h' \<in> set hs. h \<noteq> h' \<longrightarrow> \<not> regions_meet h h')"

text \<open>A point of a polygon, as \<open>ContainsPoint\<close> has it: in the exterior and strictly inside no hole.\<close>

definition poly_region :: "(int \<times> int) list \<Rightarrow> (int \<times> int) list list \<Rightarrow> int \<Rightarrow> int \<Rightarrow> int \<Rightarrow> bool" where
  "poly_region pts hs q px py \<longleftrightarrow> region pts q px py \<and> \<not> (\<exists>h \<in> set hs. strictly_in h q px py)"

text \<open>The border of a hole belongs to the polygon.\<close>

lemma hole_border:
  assumes "proper_holes pts hs" "h \<in> set hs" "f \<in> set (edges h)" "0 < q" "edge_on px py (scaled_edge q f)"
  shows "poly_region pts hs q px py"
proof -
  note b = on_border [OF assms(3,5)]
  have "\<not> strictly_in h' q px py" if "h' \<in> set hs" for h'
  proof
    assume s: "strictly_in h' q px py"
    then have "h \<noteq> h'" using b(2) by blast
    moreover have "regions_meet h h'" using strictly_in_region [OF s] b(1) assms(4) unfolding regions_meet_def by blast
    ultimately show False using assms(1,2) that unfolding proper_holes_def by blast
  qed
  moreover have "region pts q px py" using b(1) assms(1,2,4) unfolding proper_holes_def by blast
  ultimately show ?thesis unfolding poly_region_def by blast
qed

lemma meeting_point:
  assumes "edges_meet e f"
  obtains q px py where "0 < q" "edge_on px py (scaled_edge q e)" "edge_on px py (scaled_edge q f)"
proof -
  obtain ax ay bx b cx cy dx d where ef: "e = ((ax, ay), (bx, b))" "f = ((cx, cy), (dx, d))" by (metis prod.exhaust)
  obtain t u where tu: "0 \<le> t" "t \<le> 1" "0 \<le> u" "u \<le> 1" "along ax bx t = along cx dx u" "along ay b t = along cy d u"
    using assms unfolding ef edges_meet_def prod.case segs_meet_def by blast
  obtain q px py where p: "0 < q" "of_int px = of_int q * along ax bx t" "of_int py = of_int q * along ay b t"
    by (rule common_denominator)
  have "hits_edge ax ay bx b t e" "hits_edge ax ay bx b t f" using tu unfolding ef hits_edge_def by blast+
  then show thesis using that [OF p(1)] hits_edge_scaled [OF _ p(2,3)] by blast
qed

lemma border_meets:
  assumes "edge_on px py (scaled_edge q e)" "edge_on px py (scaled_edge q f)" "0 < q"
  shows "edges_meet e f"
proof -
  obtain ax ay bx b cx cy dx d where ef: "e = ((ax, ay), (bx, b))" "f = ((cx, cy), (dx, d))" by (metis prod.exhaust)
  have "segs_meet (q * ax) (q * ay) (q * bx) (q * b) (q * cx) (q * cy) (q * dx) (q * d)"
    using assms(1,2) by (auto simp: ef edge_on_def scaled_edge_def intro: on_both_meet)
  then show ?thesis using segs_meet_scaled [OF assms(3)] by (simp add: ef edges_meet_def)
qed

text \<open>A shape inside a ring whose border does not touch its own is strictly inside.\<close>

lemma all_inside_strictly:
  assumes "convex_ring h \<or> simple_ring h" "built other qts" "no_corner_on h (edges qts)" "no_corner_on qts (edges h)"
    and all: "\<forall>q px py. 0 < q \<longrightarrow> region qts q px py \<longrightarrow> region h q px py" and p: "0 < q" "region qts q px py"
  shows "strictly_in h q px py"
proof (rule ccontr)
  note o = built_parts [OF assms(2)]
  assume "\<not> strictly_in h q px py"
  moreover have "region h q px py" using all p by blast
  ultimately obtain f where f: "f \<in> set (edges h)" "edge_on px py (scaled_edge q f)" by (elim border_point)
  have in_all: "\<forall>e \<in> set (sides qts). side_inside h e"
    using ring_inside_points [OF assms(1) o(6,4) assms(3,4)] all by blast
  have corners: "\<forall>(x, y) \<in> set qts. even_odd h x y True" using side_corners [OF o(4) in_all] by blast
  have touch: "\<exists>f \<in> set (edges h). shares_point qts f" using f p unfolding shares_point_def by blast
  show False by (rule not_mutual [OF sides_apart [OF in_all o(6)] corners touch])
qed

lemma legs_inside_strictly:
  assumes "convex_ring h \<or> simple_ring h" "no_corner_on h (legs ls)" "no_corner_on ls (edges h)"
    and all: "\<forall>e \<in> set (legs ls). \<forall>q px py. 0 < q \<longrightarrow> edge_on px py (scaled_edge q e) \<longrightarrow> region h q px py"
    and p: "e \<in> set (legs ls)" "0 < q" "edge_on px py (scaled_edge q e)"
  shows "strictly_in h q px py"
proof (rule ccontr)
  assume "\<not> strictly_in h q px py"
  moreover have "region h q px py" using all p by blast
  ultimately obtain f where f: "f \<in> set (edges h)" "edge_on px py (scaled_edge q f)" by (elim border_point)
  have "side_inside h e" using leg_inside_points [OF assms(1-3) p(1)] all p(1) by blast
  then show False using border_meets [OF p(3) f(2) p(2)] f(1) by (auto simp: side_inside_def)
qed

text \<open>
  A shape that meets the exterior and is in none of the holes has a point of the polygon: one on the border of a hole, if
  it meets that, or else any point that it has in the exterior.
\<close>

lemma ring_point_off_holes:
  assumes "proper_holes pts hs" "regions_meet qts pts"
    and out: "\<And>h. h \<in> set hs \<Longrightarrow> \<exists>q px py. 0 < q \<and> region qts q px py \<and> \<not> region h q px py"
  shows "\<exists>q px py. 0 < q \<and> region qts q px py \<and> poly_region pts hs q px py"
proof (cases "\<exists>h \<in> set hs. \<exists>e \<in> set (edges qts). \<exists>f \<in> set (edges h). edges_meet e f")
  case True
  then obtain h e f where h: "h \<in> set hs" "e \<in> set (edges qts)" "f \<in> set (edges h)" "edges_meet e f" by blast
  obtain q px py where p: "0 < q" "edge_on px py (scaled_edge q e)" "edge_on px py (scaled_edge q f)"
    using meeting_point [OF h(4)] .
  then show ?thesis using on_border(1) [OF h(2)] hole_border [OF assms(1) h(1,3)] by blast
next
  case False
  obtain q px py where p: "0 < q" "region qts q px py" "region pts q px py" using assms(2) unfolding regions_meet_def by blast
  show ?thesis
  proof (cases "poly_region pts hs q px py")
    case off: False
    then obtain h where h: "h \<in> set hs" "strictly_in h q px py" using p(3) unfolding poly_region_def by blast
    have apart: "\<not> edges_meet e f" if "e \<in> set (edges qts)" "f \<in> set (edges h)" for e f using False h(1) that by blast
    have "regions_meet qts h" using p strictly_in_region [OF h(2)] unfolding regions_meet_def by blast
    then consider (in_hole) "\<exists>e \<in> set (edges qts). shares_point h e" | (border) "\<exists>f \<in> set (edges h). shares_point qts f"
      unfolding regions_meet_edges by blast
    then show ?thesis
    proof cases
      case in_hole
      have "even_odd h x y True" if "(x, y) \<in> set qts" for x y
        using swallowed_corner(1) [OF apart in_hole that] by (auto simp: even_odd_def split: if_splits)
      then have "region h q' x y" if "0 < q'" "region qts q' x y" for q' x y
        using enclosed [of qts h q' x y] apart that by blast
      then show ?thesis using out [OF h(1)] by blast
    next
      case border
      then obtain f q' x y where "f \<in> set (edges h)" "0 < q'" "edge_on x y (scaled_edge q' f)" "region qts q' x y"
        unfolding shares_point_def by blast
      then show ?thesis using hole_border [OF assms(1) h(1)] by blast
    qed
  qed (use p in blast)
qed

lemma along_line:
  assumes "\<And>u v. (u, v) \<in> set (legs ls) \<Longrightarrow> P u \<Longrightarrow> P v" "\<And>u v. (u, v) \<in> set (legs ls) \<Longrightarrow> P v \<Longrightarrow> P u"
    and "u \<in> set ls" "v \<in> set ls" "P u"
  shows "P v"
proof -
  have at: "(ls ! k, ls ! Suc k) \<in> set (legs ls)" if "Suc k < length ls" for k
  proof -
    have "legs ls ! k = (ls ! k, ls ! Suc k)" "k < length (legs ls)" using that by (simp_all add: legs_def nth_tl)
    then show ?thesis by (metis nth_mem)
  qed
  have up: "P (ls ! j)" if "i \<le> j" "j < length ls" "P (ls ! i)" for i j
    using that by (induction rule: dec_induct) (use assms(1) [OF at] in auto)
  have down: "P (ls ! i)" if "i \<le> j" "j < length ls" "P (ls ! j)" for i j
    using that by (induction rule: inc_induct) (use assms(2) [OF at] in auto)
  obtain i j where "i < length ls" "ls ! i = u" "j < length ls" "ls ! j = v" using assms(3,4) by (auto simp: in_set_conv_nth)
  then show ?thesis using up [of i j] down [of j i] assms(5) by (cases "i \<le> j") auto
qed

lemma line_point_off_holes:
  assumes "proper_holes pts hs" "e \<in> set (legs ls)" "shares_point pts e"
    and out: "\<And>h. h \<in> set hs \<Longrightarrow> \<exists>e \<in> set (legs ls). \<exists>q px py. 0 < q \<and> edge_on px py (scaled_edge q e) \<and> \<not> region h q px py"
  shows "\<exists>e \<in> set (legs ls). \<exists>q px py. 0 < q \<and> edge_on px py (scaled_edge q e) \<and> poly_region pts hs q px py"
proof (cases "\<exists>h \<in> set hs. \<exists>e \<in> set (legs ls). \<exists>f \<in> set (edges h). edges_meet e f")
  case True
  then obtain h e f where h: "h \<in> set hs" "e \<in> set (legs ls)" "f \<in> set (edges h)" "edges_meet e f" by blast
  obtain q px py where p: "0 < q" "edge_on px py (scaled_edge q e)" "edge_on px py (scaled_edge q f)"
    using meeting_point [OF h(4)] .
  have "poly_region pts hs q px py" by (rule hole_border [OF assms(1) h(1,3) p(1,3)])
  then show ?thesis using h(2) p(1,2) by blast
next
  case False
  obtain q px py where p: "0 < q" "edge_on px py (scaled_edge q e)" "region pts q px py" using assms(3) unfolding shares_point_def by blast
  show ?thesis
  proof (cases "poly_region pts hs q px py")
    case off: False
    then obtain h where h: "h \<in> set hs" "strictly_in h q px py" using p(3) unfolding poly_region_def by blast
    let ?in = "\<lambda>(x, y). even_odd h x y True"
    have apart: "\<forall>f \<in> set (edges h). \<not> edges_meet e' f" if "e' \<in> set (legs ls)" for e' using False h(1) that by blast
    have same: "?in u = ?in v" if "(u, v) \<in> set (legs ls)" for u v
      using no_meet_same_side [of h "fst u" "snd u" "fst v" "snd v" True] apart [OF that] by (cases u, cases v) simp
    have all: "region h q' x y \<longleftrightarrow> ?in u" if "(u, v) \<in> set (legs ls)" "0 < q'" "edge_on x y (scaled_edge q' (u, v))" for u v q' x y
      using region_along [of h "fst u" "snd u" "fst v" "snd v" q' x y] apart [OF that(1)] that(2,3)
      by (cases u, cases v) (simp add: edge_on_def scaled_edge_def)
    obtain u v where uv: "e = (u, v)" by (metis prod.exhaust)
    have e: "(u, v) \<in> set (legs ls)" using assms(2) uv by simp
    have start: "?in u" using all [OF e p(1)] p(2) strictly_in_region [OF h(2)] uv by simp
    obtain e' q' x y where o: "e' \<in> set (legs ls)" "0 < q'" "edge_on x y (scaled_edge q' e')" "\<not> region h q' x y"
      using out [OF h(1)] by blast
    obtain u' v' where uv': "e' = (u', v')" by (metis prod.exhaust)
    have e': "(u', v') \<in> set (legs ls)" using o(1) uv' by simp
    have "?in u'" by (rule along_line [of ls ?in u u']) (use same legs_ends [OF e] legs_ends [OF e'] start in simp_all)
    then show ?thesis using all [OF e' o(2)] o(3,4) start uv' by simp
  qed (use p assms(2) in blast)
qed

text \<open>The loops over the holes that hold the whole shape.\<close>

lemma holes_around_ring:
  assumes "list_all2 built rs hs" "list_all2 shaped rs hs" "built other qts" "length qts < 16" "apart_corners hs qts (edges qts)"
  shows "exM (\<lambda>hole. ringContainsRing hole other False) rs =
    Inr (\<exists>h \<in> set hs. \<forall>q px py. 0 < q \<longrightarrow> region qts q px py \<longrightarrow> region h q px py)"
proof (rule hole_loop)
  have "ringContainsRing r other False = Inr (\<forall>q px py. 0 < q \<longrightarrow> region qts q px py \<longrightarrow> region h q px py)"
    if "built r h" "shaped r h" "h \<in> set hs" for r h
    using ring_contains_ring [OF that(1,2) assms(3,4)] assms(5) that(3) by (simp add: apart_corners_def)
  then show "list_all2 (\<lambda>r h. ringContainsRing r other False =
      Inr (\<forall>q px py. 0 < q \<longrightarrow> region qts q px py \<longrightarrow> region h q px py)) rs hs"
    using assms(1,2) by (auto simp: list_all2_conv_all_nth)
qed

lemma holes_around_line:
  assumes "list_all2 built rs hs" "list_all2 shaped rs hs" "made_of (BaseSeries line) ls (legs ls)" "length ls < 16"
    and "apart_corners hs ls (legs ls)"
  shows "exM (\<lambda>hole. ringContainsLine hole line False) rs =
    Inr (\<exists>h \<in> set hs. \<forall>e \<in> set (legs ls). \<forall>q px py. 0 < q \<longrightarrow> edge_on px py (scaled_edge q e) \<longrightarrow> region h q px py)"
proof (rule hole_loop)
  have "ringContainsLine r line False =
      Inr (\<forall>e \<in> set (legs ls). \<forall>q px py. 0 < q \<longrightarrow> edge_on px py (scaled_edge q e) \<longrightarrow> region h q px py)"
    if "built r h" "shaped r h" "h \<in> set hs" for r h
    using ring_contains_line [OF that(1,2) assms(3,4)] assms(5) that(3) by (simp add: apart_corners_def)
  then show "list_all2 (\<lambda>r h. ringContainsLine r line False =
      Inr (\<forall>e \<in> set (legs ls). \<forall>q px py. 0 < q \<longrightarrow> edge_on px py (scaled_edge q e) \<longrightarrow> region h q px py)) rs hs"
    using assms(1,2) by (auto simp: list_all2_conv_all_nth)
qed

lemma shaped_holes: "list_all2 shaped rs hs \<Longrightarrow> h \<in> set hs \<Longrightarrow> convex_ring h \<or> simple_ring h"
proof -
  assume "list_all2 shaped rs hs" "h \<in> set hs"
  then obtain i where "h = hs ! i" "shaped (rs ! i) (hs ! i)" by (auto simp: list_all2_conv_all_nth in_set_conv_nth)
  then show ?thesis using shaped_ring [of "rs ! i" "hs ! i"] by simp
qed

text \<open>
  C7: a polygon whose holes lie in its exterior and apart from each other intersects another polygon, without holes, exactly if
  the two have a point in common, with any rational coordinates: a point in both exteriors that is strictly inside no hole. To look
  whether one hole holds all of the other polygon is enough. The holes are convex, or simple and flagged concave, the
  exterior has any shape, no corner of the other polygon is on an edge of a hole or the other way round, the corners are integers of
  at most 2 ^ 24, and the other polygon has fewer than 16 points.
\<close>

theorem poly_IntersectsPoly_holes:
  assumes "grid_ring pts" "\<forall>h \<in> set hs. grid_ring h" "grid_ring qts" "length qts < 16"
    and "NewPoly (map (\<lambda>(x, y). ipoint x y) pts) (map (map (\<lambda>(x, y). ipoint x y)) hs) opts = Inr poly"
    and "NewPoly (map (\<lambda>(x, y). ipoint x y) qts) [] opts' = Inr other"
    and "list_all2 shaped (Holes poly) hs" "proper_holes pts hs" "apart_corners hs qts (edges qts)"
  shows "poly_IntersectsPoly (Some poly) (Some other) =
    Inr (\<exists>q px py. 0 < q \<and> region qts q px py \<and> poly_region pts hs q px py)"
proof -
  obtain ring rs where p: "poly = \<lparr>Exterior = Some ring, Holes = rs\<rparr>" "built ring pts" "list_all2 built rs hs"
    using NewPoly_parts [OF assms(5,1,2)] by metis
  have shapes: "list_all2 shaped rs hs" using assms(7) p(1) by simp
  obtain inner where o: "other = \<lparr>Exterior = Some inner, Holes = []\<rparr>" "built inner qts"
    using NewPoly_parts [of qts "[]" opts' other] assms(3,6) by auto
  let ?in = "\<lambda>h. \<forall>q px py. 0 < q \<longrightarrow> region qts q px py \<longrightarrow> region h q px py"
  have "ringIntersectsRing inner ring True = Inr (regions_meet qts pts)"
    using boxed_rings_intersect [OF built_parts(1) [OF o(2)] built_parts(1) [OF p(2)]] by simp
  moreover have "exM (\<lambda>hole. ringContainsRing hole inner False) rs = Inr (\<exists>h \<in> set hs. ?in h)"
    by (rule holes_around_ring [OF p(3) shapes o(2) assms(4,9)])
  ultimately have "poly_IntersectsPoly (Some poly) (Some other) = Inr (regions_meet qts pts \<and> \<not> (\<exists>h \<in> set hs. ?in h))"
    by (simp add: poly_IntersectsPoly_def p(1) o(1))
  also have "(regions_meet qts pts \<and> \<not> (\<exists>h \<in> set hs. ?in h)) \<longleftrightarrow>
      (\<exists>q px py. 0 < q \<and> region qts q px py \<and> poly_region pts hs q px py)"
  proof
    assume "regions_meet qts pts \<and> \<not> (\<exists>h \<in> set hs. ?in h)"
    then show "\<exists>q px py. 0 < q \<and> region qts q px py \<and> poly_region pts hs q px py"
      using ring_point_off_holes [OF assms(8)] by blast
  next
    assume "\<exists>q px py. 0 < q \<and> region qts q px py \<and> poly_region pts hs q px py"
    then obtain q px py where w: "0 < q" "region qts q px py" "poly_region pts hs q px py" by blast
    have "\<not> ?in h" if h: "h \<in> set hs" for h
    proof
      have "no_corner_on h (edges qts)" "no_corner_on qts (edges h)" using assms(9) h by (simp_all add: apart_corners_def)
      moreover assume "?in h"
      ultimately have "strictly_in h q px py"
        using all_inside_strictly [OF shaped_holes [OF shapes h] o(2)] w(1,2) by blast
      then show False using w(3) h unfolding poly_region_def by blast
    qed
    then show "regions_meet qts pts \<and> \<not> (\<exists>h \<in> set hs. ?in h)"
      using w unfolding regions_meet_def poly_region_def by blast
  qed
  finally show ?thesis .
qed

text \<open>
  C13: such a polygon intersects a line exactly if some leg has a point of the polygon: integer coordinates of at most 2 ^ 24, a line of 2
  to 15 points, holes that are convex, or simple and flagged concave, that lie in the exterior and apart from each other, and no
  corner of a hole on a leg nor a point of the line on an edge of a hole.
\<close>

theorem poly_IntersectsLine_holes:
  assumes "grid_ring pts" "\<forall>h \<in> set hs. grid_ring h" "grid_line ls" "2 \<le> length ls" "length ls < 16"
    and "NewPoly (map (\<lambda>(x, y). ipoint x y) pts) (map (map (\<lambda>(x, y). ipoint x y)) hs) opts = Inr poly"
    and "NewLine (map (\<lambda>(x, y). ipoint x y) ls) opts' = Inr line"
    and "list_all2 shaped (Holes poly) hs" "proper_holes pts hs" "apart_corners hs ls (legs ls)"
  shows "poly_IntersectsLine (Some poly) (Some line) =
    Inr (\<exists>e \<in> set (legs ls). \<exists>q px py. 0 < q \<and> edge_on px py (scaled_edge q e) \<and> poly_region pts hs q px py)"
proof -
  obtain ring rs where p: "poly = \<lparr>Exterior = Some ring, Holes = rs\<rparr>" "built ring pts" "list_all2 built rs hs"
    using NewPoly_parts [OF assms(6,1,2)] by metis
  have shapes: "list_all2 shaped rs hs" using assms(8) p(1) by simp
  have l: "line_of line ls" using NewLine_line_of [OF assms(3), of opts'] assms(7) by auto
  let ?in = "\<lambda>h. \<forall>e \<in> set (legs ls). \<forall>q px py. 0 < q \<longrightarrow> edge_on px py (scaled_edge q e) \<longrightarrow> region h q px py"
  let ?meets = "\<exists>e \<in> set (legs ls). shares_point pts e"
  have "ringIntersectsLine ring line True = Inr ?meets"
    using grid_series_IntersectsLine [OF built_parts(2) [OF p(2)] l] by simp
  moreover have "exM (\<lambda>hole. ringContainsLine hole line False) rs = Inr (\<exists>h \<in> set hs. ?in h)"
    by (rule holes_around_line [OF p(3) shapes NewLine_made_of [OF assms(3,4,7)] assms(5,10)])
  ultimately have "poly_IntersectsLine (Some poly) (Some line) = Inr (?meets \<and> \<not> (\<exists>h \<in> set hs. ?in h))"
    by (simp add: poly_IntersectsLine_def p(1))
  also have "(?meets \<and> \<not> (\<exists>h \<in> set hs. ?in h)) \<longleftrightarrow>
      (\<exists>e \<in> set (legs ls). \<exists>q px py. 0 < q \<and> edge_on px py (scaled_edge q e) \<and> poly_region pts hs q px py)"
  proof
    assume code: "?meets \<and> \<not> (\<exists>h \<in> set hs. ?in h)"
    then obtain e where e: "e \<in> set (legs ls)" "shares_point pts e" by blast
    show "\<exists>e \<in> set (legs ls). \<exists>q px py. 0 < q \<and> edge_on px py (scaled_edge q e) \<and> poly_region pts hs q px py"
      by (rule line_point_off_holes [OF assms(9) e]) (use code in blast)
  next
    assume "\<exists>e \<in> set (legs ls). \<exists>q px py. 0 < q \<and> edge_on px py (scaled_edge q e) \<and> poly_region pts hs q px py"
    then obtain e q px py where w: "e \<in> set (legs ls)" "0 < q" "edge_on px py (scaled_edge q e)" "poly_region pts hs q px py" by blast
    have "\<not> ?in h" if h: "h \<in> set hs" for h
    proof
      have c: "no_corner_on h (legs ls)" "no_corner_on ls (edges h)" using assms(10) h by (simp_all add: apart_corners_def)
      assume "?in h"
      from legs_inside_strictly [OF shaped_holes [OF shapes h] c this w(1-3)] show False
        using w(4) h unfolding poly_region_def by blast
    qed
    then show "?meets \<and> \<not> (\<exists>h \<in> set hs. ?in h)"
      using w unfolding shares_point_def poly_region_def by blast
  qed
  finally show ?thesis .
qed

section \<open>Examples\<close>

lemma NewPoly_made:
  assumes "grid_ring pts" "\<forall>h \<in> set hs. grid_ring h"
  obtains poly ring rs where "NewPoly (ipoints pts) (map ipoints hs) opts = Inr poly" "poly = \<lparr>Exterior = Some ring, Holes = rs\<rparr>"
    "newRing (ipoints pts) opts = Inr ring" "newRings (map ipoints hs) opts = Inr rs"
proof -
  obtain poly where "NewPoly (ipoints pts) (map ipoints hs) opts = Inr poly" using NewPoly_poly_of [OF assms] by blast
  then show thesis using NewPoly_parts [OF _ assms] that by metis
qed

text \<open>Everything in a ring is at the heights that its corners have.\<close>

lemma region_height:
  assumes "0 < q" "region pts q px py"
  shows "\<exists>(x, y) \<in> set pts. q * y \<le> py" "\<exists>(x, y) \<in> set pts. py \<le> q * y"
  using surrounded(3,4) [OF assms(2) [unfolded region_def]] by (auto simp: scaled_def)

abbreviation eye :: "(int \<times> int) list" where
  "eye \<equiv> [(5, 8), (7, 8), (6, 10)]"

lemma above_eye: "0 < q \<Longrightarrow> py \<le> q * 6 \<Longrightarrow> \<not> region eye q px py"
  using region_height(1) [of q eye px py] by auto

lemma grid_examples:
  "grid_ring dart" "grid_ring eye" "grid_ring [(2, 2), (3, 3), (3, 4)]" "grid_line [(5, 6), (7, 6)]"
  by (simp_all add: grid_ring_def grid_line_def)

theorem poly_ContainsPoly_exact_witness:
  "\<exists>poly other. NewPoly (map (\<lambda>(x, y). ipoint x y) [(0, 0), (6, 12), (12, 0), (6, 4)])
      (map (map (\<lambda>(x, y). ipoint x y)) [[(5, 8), (7, 8), (6, 10)]]) None = Inr poly \<and>
    NewPoly (map (\<lambda>(x, y). ipoint x y) [(2, 2), (3, 3), (3, 4)]) [] None = Inr other \<and>
    poly_ContainsPoly (Some poly) (Some other) = Inr True"
proof -
  let ?q = "[(2, 2), (3, 3), (3, 4)] :: (int \<times> int) list"
  have holes: "\<forall>h \<in> set [eye]. grid_ring h" by (simp add: grid_ring_def)
  obtain poly ring rs where p: "NewPoly (ipoints dart) (map ipoints [eye]) None = Inr poly" "poly = \<lparr>Exterior = Some ring, Holes = rs\<rparr>"
    "newRing (ipoints dart) None = Inr ring" "newRings (map ipoints [eye]) None = Inr rs"
    by (rule NewPoly_made [OF grid_examples(1) holes])
  have ring: "Exterior poly = Some ring" using p(2) by simp
  obtain other where o: "NewPoly (ipoints ?q) [] None = Inr other" using NewPoly_area [OF grid_examples(3)] by blast
  have c: "apart_corners [dart, eye] ?q (edges ?q)"
    by (simp add: apart_corners_def no_corner_on_def edges_def edge_on_def on_seg_def)
  have "\<forall>e \<in> set (edges ?q). \<forall>f \<in> set (edges dart). \<not> edges_meet e f"
    by (simp add: edges_def edges_meet_def one_side side_def)
  moreover have "\<forall>(x, y) \<in> set ?q. even_odd dart x y True"
    by (simp add: even_odd_def edges_def edge_on_def edge_crosses_def on_seg_def crosses_def crosses_up_def)
  ultimately have "\<forall>q px py. 0 < q \<longrightarrow> region ?q q px py \<longrightarrow> region dart q px py" using enclosed by blast
  moreover have "\<forall>q px py. 0 < q \<longrightarrow> region ?q q px py \<longrightarrow> \<not> region eye q px py"
    using region_height(2) [of _ ?q] above_eye by fastforce
  moreover have "length ?q < 16" by simp
  note poly_ContainsPoly_exact [OF grid_examples(1) holes grid_examples(3) this p(1) o ring dart_shaped [OF p(3)] c]
  ultimately have "poly_ContainsPoly (Some poly) (Some other) = Inr True" by simp
  then show ?thesis using p(1) o by blast
qed

theorem poly_ContainsLine_exact_witness:
  "\<exists>poly line. NewPoly (map (\<lambda>(x, y). ipoint x y) [(0, 0), (6, 12), (12, 0), (6, 4)])
      (map (map (\<lambda>(x, y). ipoint x y)) [[(5, 8), (7, 8), (6, 10)]]) None = Inr poly \<and>
    NewLine (map (\<lambda>(x, y). ipoint x y) [(5, 6), (7, 6)]) None = Inr line \<and>
    poly_ContainsLine (Some poly) (Some line) = Inr True"
proof -
  let ?l = "[(5, 6), (7, 6)] :: (int \<times> int) list"
  have holes: "\<forall>h \<in> set [eye]. grid_ring h" by (simp add: grid_ring_def)
  obtain poly ring rs where p: "NewPoly (ipoints dart) (map ipoints [eye]) None = Inr poly" "poly = \<lparr>Exterior = Some ring, Holes = rs\<rparr>"
    "newRing (ipoints dart) None = Inr ring" "newRings (map ipoints [eye]) None = Inr rs"
    by (rule NewPoly_made [OF grid_examples(1) holes])
  have ring: "Exterior poly = Some ring" using p(2) by simp
  obtain line where l: "NewLine (ipoints ?l) None = Inr line" using NewLine_line_of [OF grid_examples(4)] by blast
  have c: "apart_corners [dart, eye] ?l (legs ?l)"
    by (simp add: apart_corners_def no_corner_on_def edges_def legs_def edge_on_def on_seg_def)
  have none: "\<forall>f \<in> set (edges dart). \<not> edges_meet ((5, 6), (7, 6)) f" by (simp add: edges_def edges_meet_def one_side side_def)
  have "even_odd dart 5 6 True"
    by (simp add: even_odd_def edges_def edge_on_def edge_crosses_def on_seg_def crosses_def crosses_up_def)
  then have "\<forall>e \<in> set (legs ?l). \<forall>q px py. 0 < q \<longrightarrow> edge_on px py (scaled_edge q e) \<longrightarrow> region dart q px py"
    using region_along [OF none] by (auto simp: legs_def edge_on_def scaled_edge_def)
  moreover have "\<forall>e \<in> set (legs ?l). \<forall>q px py. 0 < q \<longrightarrow> edge_on px py (scaled_edge q e) \<longrightarrow> \<not> region eye q px py"
    using above_eye by (auto simp: legs_def edge_on_def scaled_edge_def on_seg_def)
  moreover have "2 \<le> length ?l" "length ?l < 16" by simp_all
  note poly_ContainsLine_exact [OF grid_examples(1) holes grid_examples(4) this p(1) l ring dart_shaped [OF p(3)] c]
  ultimately have "poly_ContainsLine (Some poly) (Some line) = Inr True" by simp
  then show ?thesis using p(1) l by blast
qed

abbreviation pane :: "(int \<times> int) list" where
  "pane \<equiv> [(0, 0), (20, 0), (20, 20), (0, 20)]"

abbreviation gap :: "(int \<times> int) list" where
  "gap \<equiv> [(6, 6), (12, 6), (6, 12)]"

lemma pane_grid: "grid_ring pane" "\<forall>h \<in> set [gap]. grid_ring h" by (simp_all add: grid_ring_def)

lemma gap_shape: "convex_ring gap" "\<forall>h \<in> set [gap]. grid_ring h \<and> convex_ring h"
  by (simp_all add: convex_ring_def edges_def side_def grid_ring_def)

lemma pane_holes: "proper_holes pane [gap]"
proof -
  have "\<forall>e \<in> set (edges gap). \<forall>f \<in> set (edges pane). \<not> edges_meet e f" by (simp add: edges_def edges_meet_def one_side side_def)
  moreover have "\<forall>(x, y) \<in> set gap. even_odd pane x y True"
    by (simp add: even_odd_def edges_def edge_on_def edge_crosses_def on_seg_def crosses_def crosses_up_def)
  ultimately have "\<forall>q px py. 0 < q \<longrightarrow> region gap q px py \<longrightarrow> region pane q px py" using enclosed by blast
  then show ?thesis by (simp add: proper_holes_def)
qed

theorem poly_IntersectsPoly_holes_witness:
  "\<exists>poly other. NewPoly (map (\<lambda>(x, y). ipoint x y) [(0, 0), (20, 0), (20, 20), (0, 20)])
      (map (map (\<lambda>(x, y). ipoint x y)) [[(6, 6), (12, 6), (6, 12)]]) None = Inr poly \<and>
    NewPoly (map (\<lambda>(x, y). ipoint x y) [(7, 7), (8, 7), (7, 8)]) [] None = Inr other \<and>
    poly_IntersectsPoly (Some poly) (Some other) = Inr False"
proof -
  let ?q = "[(7, 7), (8, 7), (7, 8)] :: (int \<times> int) list"
  have g: "grid_ring ?q" "length ?q < 16" by (simp_all add: grid_ring_def)
  obtain poly ring rs where p: "NewPoly (ipoints pane) (map ipoints [gap]) None = Inr poly" "poly = \<lparr>Exterior = Some ring, Holes = rs\<rparr>"
    "newRing (ipoints pane) None = Inr ring" "newRings (map ipoints [gap]) None = Inr rs"
    by (rule NewPoly_made [OF pane_grid])
  have shapes: "list_all2 shaped (Holes poly) [gap]" using newRings_shaped [OF gap_shape(2) p(4)] p(2) by simp
  obtain inner where i: "newRing (ipoints ?q) None = Inr inner" using newRing_boxed [OF g(1)] by blast
  obtain other where o: "NewPoly (ipoints ?q) [] None = Inr other" using i by (simp add: NewPoly_def)
  have c: "apart_corners [gap] ?q (edges ?q)"
    by (simp add: apart_corners_def no_corner_on_def edges_def edge_on_def on_seg_def)
  then have c': "no_corner_on gap (edges ?q)" "no_corner_on ?q (edges gap)" by (simp_all add: apart_corners_def)
  have "\<forall>e \<in> set (edges ?q). \<forall>f \<in> set (edges gap). \<not> edges_meet e f" by (simp add: edges_def edges_meet_def one_side side_def)
  moreover have "\<forall>(x, y) \<in> set ?q. even_odd gap x y True"
    by (simp add: even_odd_def edges_def edge_on_def edge_crosses_def on_seg_def crosses_def crosses_up_def)
  ultimately have "\<forall>q px py. 0 < q \<longrightarrow> region ?q q px py \<longrightarrow> region gap q px py" using enclosed by blast
  then have "strictly_in gap q px py" if "0 < q" "region ?q q px py" for q px py
    using all_inside_strictly [OF disjI1 [OF gap_shape(1)] newRing_built [OF g(1) i] c' _ that] by blast
  then have "\<not> (\<exists>q px py. 0 < q \<and> region ?q q px py \<and> poly_region pane [gap] q px py)" by (auto simp: poly_region_def)
  then have "poly_IntersectsPoly (Some poly) (Some other) = Inr False"
    unfolding poly_IntersectsPoly_holes [OF pane_grid g p(1) o shapes pane_holes c] by simp
  then show ?thesis using p(1) o by blast
qed

theorem poly_IntersectsLine_holes_witness:
  "\<exists>poly line. NewPoly (map (\<lambda>(x, y). ipoint x y) [(0, 0), (20, 0), (20, 20), (0, 20)])
      (map (map (\<lambda>(x, y). ipoint x y)) [[(6, 6), (12, 6), (6, 12)]]) None = Inr poly \<and>
    NewLine (map (\<lambda>(x, y). ipoint x y) [(7, 7), (8, 7)]) None = Inr line \<and>
    poly_IntersectsLine (Some poly) (Some line) = Inr False"
proof -
  let ?l = "[(7, 7), (8, 7)] :: (int \<times> int) list"
  have g: "grid_line ?l" "2 \<le> length ?l" "length ?l < 16" by (simp_all add: grid_line_def)
  obtain poly ring rs where p: "NewPoly (ipoints pane) (map ipoints [gap]) None = Inr poly" "poly = \<lparr>Exterior = Some ring, Holes = rs\<rparr>"
    "newRing (ipoints pane) None = Inr ring" "newRings (map ipoints [gap]) None = Inr rs"
    by (rule NewPoly_made [OF pane_grid])
  have shapes: "list_all2 shaped (Holes poly) [gap]" using newRings_shaped [OF gap_shape(2) p(4)] p(2) by simp
  obtain line where l: "NewLine (ipoints ?l) None = Inr line" using NewLine_line_of [OF g(1)] by blast
  have c: "apart_corners [gap] ?l (legs ?l)"
    by (simp add: apart_corners_def no_corner_on_def edges_def legs_def edge_on_def on_seg_def)
  then have c': "no_corner_on gap (legs ?l)" "no_corner_on ?l (edges gap)" by (simp_all add: apart_corners_def)
  have none: "\<forall>f \<in> set (edges gap). \<not> edges_meet ((7, 7), (8, 7)) f" by (simp add: edges_def edges_meet_def one_side side_def)
  have "even_odd gap 7 7 True"
    by (simp add: even_odd_def edges_def edge_on_def edge_crosses_def on_seg_def crosses_def crosses_up_def)
  then have all: "\<forall>e \<in> set (legs ?l). \<forall>q px py. 0 < q \<longrightarrow> edge_on px py (scaled_edge q e) \<longrightarrow> region gap q px py"
    using region_along [OF none] by (auto simp: legs_def edge_on_def scaled_edge_def)
  have "strictly_in gap q px py" if "e \<in> set (legs ?l)" "0 < q" "edge_on px py (scaled_edge q e)" for e q px py
    by (rule legs_inside_strictly [OF disjI1 [OF gap_shape(1)] c' all that])
  then have "\<not> (\<exists>e \<in> set (legs ?l). \<exists>q px py. 0 < q \<and> edge_on px py (scaled_edge q e) \<and> poly_region pane [gap] q px py)"
    by (auto simp: poly_region_def)
  then have "poly_IntersectsLine (Some poly) (Some line) = Inr False"
    unfolding poly_IntersectsLine_holes [OF pane_grid g p(1) l shapes pane_holes c] by simp
  then show ?thesis using p(1) l by blast
qed

end
