(* ===== verification/Rect_Shortcut.thy ===== *)
theory Rect_Shortcut
  imports Holes
begin

text \<open>
  The shortcut of \<open>ringContainsRing\<close> for an inner ring of 16 points or more: it asks first whether the rectangle around the inner
  ring is contained. The sides of that rectangle may pass over a notch of the outer ring through its corners, where the inner
  ring touches none of them, and then the answer is wrong.
\<close>


section \<open>The rectangle of a ring with positive coordinates\<close>

lemma fint_pos_eq:
  assumes "fint x k" "grid k" "0 < k"
  shows "x = f_of_int k"
proof -
  have key: "fkey x = fkey (f_of_int k)" using assms(1) grid_fint [OF assms(2)] by (simp add: fint_def rval_eq_iff [symmetric])
  have "0 < fkey x" using fint_less [OF fint_0 assms(1)] assms(3) by (simp add: less_f64_def)
  then show ?thesis using key by (intro f64_eqI) (auto simp: fkey_def split: if_splits)
qed

lemma boxed_ring_rect:
  assumes "boxed_ring ring pts" "Min (xs_of pts) = x0" "Min (ys_of pts) = y0" "Max (xs_of pts) = x1" "Max (ys_of pts) = y1"
    and "0 < x0" "0 < y0" "0 < x1" "0 < y1" "grid x0" "grid y0" "grid x1" "grid y1"
  shows "sRect ring = irect x0 y0 x1 y1"
proof -
  have "X (RMin (sRect ring)) = f_of_int x0" "Y (RMin (sRect ring)) = f_of_int y0"
    "X (RMax (sRect ring)) = f_of_int x1" "Y (RMax (sRect ring)) = f_of_int y1"
    using assms by (auto simp: boxed_ring_def intro!: fint_pos_eq)
  then show ?thesis by (simp add: irect_def ipoint_def mk_rect_def mk_point_def)
qed

section \<open>The shortcut\<close>

lemma rect_shortcut:
  assumes "\<not> sEmpty ring" "\<not> sConvex ring" "\<not> sEmpty other" "16 \<le> sNumPoints other" "sRect other = irect x0 y0 x1 y1"
    and "rect_ContainsRect (sRect ring) (irect x0 y0 x1 y1)"
    and "ringContainsSegment ring (iseg x0 y0 x1 y0) True = Inr True" "ringContainsSegment ring (iseg x1 y0 x1 y1) True = Inr True"
      "ringContainsSegment ring (iseg x1 y1 x0 y1) True = Inr True" "ringContainsSegment ring (iseg x0 y1 x0 y0) True = Inr True"
  shows "ringContainsRing ring other True = Inr True"
proof -
  let ?r = "irect x0 y0 x1 y1"
  have segs: "rect_SegmentAt ?r 0 = Inr (iseg x0 y0 x1 y0)" "rect_SegmentAt ?r 1 = Inr (iseg x1 y0 x1 y1)"
    "rect_SegmentAt ?r 2 = Inr (iseg x1 y1 x0 y1)" "rect_SegmentAt ?r 3 = Inr (iseg x0 y1 x0 y0)"
    by (simp_all add: rect_SegmentAt_def rect_South_def rect_East_def rect_North_def rect_West_def rect_NW_def rect_SW_def rect_SE_def
        rect_NE_def irect_def iseg_def ipoint_def mk_rect_def mk_point_def mk_segment_def)
  have "ringContainsRing ring (RectSeries ?r) True = Inr True"
    using assms(1,2,6-10) segs
    by (subst ringContainsRing.simps)
      (simp add: complexRingMinPoints_def rect_NumPoints_def rect_NumSegments_def rect_Empty_def rect_Rect_def upto.simps)
  then show ?thesis using assms(1,3-5) by (subst ringContainsRing.simps) (simp add: complexRingMinPoints_def)
qed

abbreviation hollow :: "(int \<times> int) list" where
  "hollow \<equiv> [(0, 0), (30, 0), (30, 30), (20, 20), (15, 10), (10, 20), (0, 30)]"

abbreviation bridge :: "(int \<times> int) list" where
  "bridge \<equiv> [(5, 5), (6, 5), (7, 5), (8, 5), (9, 5), (10, 5), (11, 5), (12, 5), (13, 5), (14, 5), (15, 5), (16, 5), (17, 5),
     (25, 5), (24, 18), (7, 20)]"

lemma hollow_side:
  assumes "built ring hollow" "\<not> sConvex ring"
    and "((ax, ay), (bx, b)) \<in> {((5, 5), (25, 5)), ((25, 5), (25, 20)), ((25, 20), (5, 20)), ((5, 20), (5, 5))}"
  shows "ringContainsSegment ring (iseg ax ay bx b) True = Inr True"
proof -
  note ring = built_parts(2) [OF assms(1)]
  have g: "grid ax" "grid ay" "grid bx" "grid b" "(ax, ay) \<noteq> (bx, b)" using assms(3) by (auto simp: grid_def)
  have ends: "even_odd hollow ax ay False" "even_odd hollow bx b False"
    using assms(3) by (elim insertE; simp add: even_odd_def edges_def edge_on_def edge_crosses_def on_seg_def crosses_def crosses_up_def)+
  have "\<not> (\<exists>f \<in> set (sides hollow). blocks ((ax, ay), (bx, b)) f)"
    using assms(3)
    by (elim insertE; simp add: corners_def edges_def blocks_def edges_meet_def edge_on_def on_seg_def one_side side_def)
  then show ?thesis unfolding ContainsSegment_inside [OF ring assms(2) g ends] by (simp only: simp_thms)
qed

text \<open>
  C35: a polygon of 16 points or more may be contained, by \<open>ContainsPoly\<close>, though it leaves the polygon that contains it and touches no
  corner of it: the code asks about the rectangle around it first, of which the upper side, from (25, 20) to (5, 20), passes
  over a notch between the corners (20, 20) and (10, 20). The point (15, 15) is in the inner polygon and not in the outer one.
\<close>

theorem poly_ContainsPoly_shortcut:
  "\<exists>poly other.
    NewPoly (map (\<lambda>(x, y). ipoint x y) [(0, 0), (30, 0), (30, 30), (20, 20), (15, 10), (10, 20), (0, 30)]) [] None = Inr poly \<and>
    NewPoly (map (\<lambda>(x, y). ipoint x y) [(5, 5), (6, 5), (7, 5), (8, 5), (9, 5), (10, 5), (11, 5), (12, 5), (13, 5), (14, 5), (15, 5),
      (16, 5), (17, 5), (25, 5), (24, 18), (7, 20)]) [] None = Inr other \<and>
    apart_corners [hollow] bridge (edges bridge) \<and> poly_ContainsPoly (Some poly) (Some other) = Inr True \<and>
    poly_ContainsPoint (Some other) (ipoint 15 15) = Inr True \<and> poly_ContainsPoint (Some poly) (ipoint 15 15) = Inr False"
proof -
  have g: "grid_ring hollow" "grid_ring bridge" by (simp_all add: grid_ring_def)
  obtain ring where r: "newRing (ipoints hollow) None = Inr ring" "ring_of ring hollow" using newRing_ring_of [OF g(1)] by blast
  obtain inner where i: "newRing (ipoints bridge) None = Inr inner" "ring_of inner bridge" using newRing_ring_of [OF g(2)] by blast
  note b = newRing_built [OF g(1) r(1)] newRing_built [OF g(2) i(1)]
  have concave: "\<not> sConvex ring" by (rule concave_flag [OF g(1) r(1), of 3 0]) (simp_all add: turn_at_def icross_def)
  have box: "sRect inner = irect 5 5 25 20"
    by (rule boxed_ring_rect [OF built_parts(1) [OF b(2)]]) (simp_all add: xs_of_def ys_of_def grid_def)
  have "ringContainsRing ring inner True = Inr True"
  proof (rule rect_shortcut [OF _ concave _ _ box])
    show "\<not> sEmpty ring" "\<not> sEmpty inner" using built_parts(5) [OF b(1)] built_parts(5) [OF b(2)] by (simp_all add: snug_def)
    show "16 \<le> sNumPoints inner" using made_of_parts(3) [OF built_parts(4) [OF b(2)]] by simp
    have f: "fint (X (RMin (sRect ring))) 0" "fint (X (RMax (sRect ring))) 30" "fint (Y (RMin (sRect ring))) 0" "fint (Y (RMax (sRect ring))) 30"
      using built_parts(1) [OF b(1)] by (simp_all add: boxed_ring_def xs_of_def ys_of_def)
    show "rect_ContainsRect (sRect ring) (irect 5 5 25 20)"
      using f fint_less [OF _ fint_f_of_int] fint_less [OF fint_f_of_int]
      by (auto simp: rect_ContainsRect_def irect_def ipoint_def mk_rect_def mk_point_def)
  qed (rule hollow_side [OF b(1) concave], simp)+
  then have "poly_ContainsPoly (Some \<lparr>Exterior = Some ring, Holes = []\<rparr>) (Some \<lparr>Exterior = Some inner, Holes = []\<rparr>) = Inr True"
    by (simp add: poly_ContainsPoly_def)
  moreover have "poly_of \<lparr>Exterior = Some ring, Holes = []\<rparr> hollow []" "poly_of \<lparr>Exterior = Some inner, Holes = []\<rparr> bridge []"
    using r(2) i(2) by (simp_all add: poly_of_def)
  note poly_of_contains [OF this(1), of 15 15] poly_of_contains [OF this(2), of 15 15]
  moreover have "\<not> even_odd hollow 15 15 True" "even_odd bridge 15 15 True"
    by (simp_all add: even_odd_def edges_def edge_on_def edge_crosses_def on_seg_def crosses_def crosses_up_def)
  moreover have "apart_corners [hollow] bridge (edges bridge)"
    by (simp add: apart_corners_def no_corner_on_def edges_def edge_on_def on_seg_def)
  moreover have "NewPoly (ipoints hollow) [] None = Inr \<lparr>Exterior = Some ring, Holes = []\<rparr>"
    "NewPoly (ipoints bridge) [] None = Inr \<lparr>Exterior = Some inner, Holes = []\<rparr>" using r(1) i(1) by (simp_all add: NewPoly_def)
  ultimately show ?thesis by (intro exI conjI) (assumption | simp)+
qed

end
