(* ===== verification/Orientation.thy ===== *)
theory Orientation
  imports Ring_Segments
begin

text \<open>
  The orientation flag that \<open>processPoints\<close> computes: the sign of the signed area of the path.
\<close>


section \<open>The orientation of a path\<close>

text \<open>Twice the signed area: positive for a ring that runs counter-clockwise.\<close>

definition cross2 :: "(int \<times> int) \<times> (int \<times> int) \<Rightarrow> int" where
  "cross2 = (\<lambda>((ax, ay), (bx, b)). ax * b - bx * ay)"

definition area2 :: "(int \<times> int) list \<Rightarrow> int" where
  "area2 pts = (\<Sum>e \<leftarrow> edges pts. cross2 e)"

definition trapezoid :: "(int \<times> int) \<times> (int \<times> int) \<Rightarrow> int" where
  "trapezoid = (\<lambda>((ax, ay), (bx, b)). (bx - ax) * (b + ay))"

lemma sum_rotate:
  fixes f :: "int \<times> int \<Rightarrow> int"
  shows "(\<Sum>(u, v) \<leftarrow> edges pts. f v - f u) = 0"
proof -
  have "(\<Sum>(u, v) \<leftarrow> zip us vs. f v - f u) = (\<Sum>v \<leftarrow> vs. f v) - (\<Sum>u \<leftarrow> us. f u)" if "length us = length vs" for us vs
    using that by (induction us vs rule: list_induct2) auto
  moreover have "(\<Sum>v \<leftarrow> rotate1 pts. f v) = (\<Sum>u \<leftarrow> pts. f u)" by (cases pts) simp_all
  ultimately show ?thesis by (simp add: edges_def)
qed

lemma trapezoid_area: "(\<Sum>e \<leftarrow> edges pts. trapezoid e) = - area2 pts"
proof -
  have "trapezoid e = (case e of (u, v) \<Rightarrow> fst v * snd v - fst u * snd u) - cross2 e" for e
    by (auto simp: trapezoid_def cross2_def algebra_simps split: prod.split)
  then have "(\<Sum>e \<leftarrow> edges pts. trapezoid e) = (\<Sum>(u, v) \<leftarrow> edges pts. fst v * snd v - fst u * snd u) - area2 pts"
    by (simp add: area2_def sum_list_subtractf)
  then show ?thesis using sum_rotate [of "\<lambda>v. fst v * snd v"] by simp
qed

text \<open>A path walked backwards has the opposite area.\<close>

definition legs_area :: "(int \<times> int) list \<Rightarrow> int" where
  "legs_area pts = (\<Sum>e \<leftarrow> legs pts. cross2 e)"

lemma cross2_flip: "cross2 (u, v) = - cross2 (v, u)"
  by (auto simp: cross2_def split: prod.split)

lemma legs_area_simps:
  "legs_area (p # q # ps) = cross2 (p, q) + legs_area (q # ps)"
  by (simp add: legs_area_def legs_def)

lemma legs_area_snoc: "ps \<noteq> [] \<Longrightarrow> legs_area (ps @ [p]) = legs_area ps + cross2 (last ps, p)"
proof (induction ps)
  case (Cons q ps)
  then show ?case by (cases ps) (simp_all add: legs_area_simps, simp_all add: legs_area_def legs_def)
qed simp

lemma legs_area_rev: "legs_area (rev ps) = - legs_area ps"
proof (induction ps)
  case (Cons p ps)
  show ?case
  proof (cases ps)
    case (Cons q qs)
    have "legs_area (rev ps @ [p]) = legs_area (rev ps) + cross2 (last (rev ps), p)" using Cons by (intro legs_area_snoc) simp
    then show ?thesis using Cons Cons.IH cross2_flip [of q p] by (simp add: legs_area_simps)
  qed (simp add: legs_area_def legs_def)
qed (simp add: legs_area_def legs_def)

lemma area2_legs: "pts \<noteq> [] \<Longrightarrow> area2 pts = legs_area pts + cross2 (last pts, hd pts)"
proof -
  assume ne: "pts \<noteq> []"
  then obtain p ps where p: "pts = p # ps" by (cases pts) auto
  have "zip (q # ps) (ps @ [r]) = zip (q # ps) ps @ [(last (q # ps), r)]" for q r and ps :: "(int \<times> int) list"
    by (induction ps arbitrary: q) auto
  then show ?thesis by (simp add: area2_def legs_area_def legs_def edges_def p)
qed

lemma area2_rev: "area2 (rev pts) = - area2 pts"
proof (cases "pts = []")
  case False
  then show ?thesis
    using area2_legs [of pts] area2_legs [of "rev pts"] legs_area_rev [of pts] cross2_flip [of "hd pts" "last pts"]
    by (simp add: last_rev hd_rev)
qed (simp add: area2_def edges_def)

lemma process_cwc:
  "fst (snd (fold (process_step points) is st)) =
    fold (\<lambda>i cwc. case corner points i of (a, b, c) \<Rightarrow> cwc + (X b - X a) * (Y b + Y a)) is (fst (snd st))"
  by (induction "is" arbitrary: st) (auto simp: process_step_def Let_def split: prod.split)

lemma trapezoid_grid:
  assumes "\<bar>ax\<bar> \<le> 2 ^ 15" "\<bar>ay\<bar> \<le> 2 ^ 15" "\<bar>bx\<bar> \<le> 2 ^ 15" "\<bar>b\<bar> \<le> 2 ^ 15"
  shows "fint ((f_of_int bx - f_of_int ax) * (f_of_int b + f_of_int ay)) (trapezoid ((ax, ay), (bx, b)))"
    "\<bar>trapezoid ((ax, ay), (bx, b))\<bar> \<le> 2 ^ 32"
proof -
  have f: "fint (f_of_int k) k" if "\<bar>k\<bar> \<le> 2 ^ 15" for k using that by (intro fint_f_of_int) simp
  have "\<bar>bx - ax\<bar> \<le> 2 ^ 16" "\<bar>b + ay\<bar> \<le> 2 ^ 16" using assms by auto
  then have m: "\<bar>(bx - ax) * (b + ay)\<bar> \<le> 2 ^ 32" unfolding abs_mult using mult_mono [of "\<bar>bx - ax\<bar>" "2 ^ 16" "\<bar>b + ay\<bar>" "2 ^ 16"] by simp
  then show "\<bar>trapezoid ((ax, ay), (bx, b))\<bar> \<le> 2 ^ 32" by (simp add: trapezoid_def)
  have "fint (f_of_int bx - f_of_int ax) (bx - ax)" "fint (f_of_int b + f_of_int ay) (b + ay)"
    using assms f by (auto intro!: fint_sub fint_add)
  then show "fint ((f_of_int bx - f_of_int ax) * (f_of_int b + f_of_int ay)) (trapezoid ((ax, ay), (bx, b)))"
    unfolding trapezoid_def prod.case using m by (intro fint_mul) auto
qed

lemma process_orientation:
  assumes "\<forall>(x, y) \<in> set pts. \<bar>x\<bar> \<le> 2 ^ 15 \<and> \<bar>y\<bar> \<le> 2 ^ 15" "length pts \<le> 2 ^ 20" "2 \<le> length pts"
  shows "fint (fst (snd (process_loop (ipoints pts)))) (- area2 pts)"
proof -
  let ?s = "\<lambda>i cwc. case corner (ipoints pts) i of (a, b, c) \<Rightarrow> cwc + (X b - X a) * (Y b + Y a)"
  have step: "fint (?s i s) (k + trapezoid (edges pts ! i))"
    if i: "i < length pts" and s: "fint s k" "\<bar>k\<bar> \<le> int i * 2 ^ 32" for i s k
  proof -
    let ?j = "if i = length pts - 1 then 0 else Suc i"
    obtain ax ay where a: "pts ! i = (ax, ay)" by fastforce
    obtain bx b where b: "pts ! ?j = (bx, b)" by fastforce
    have j: "?j < length pts" using i assms(3) by auto
    have "(ax, ay) \<in> set pts" "(bx, b) \<in> set pts" using a b i j nth_mem by metis+
    then have r: "\<bar>ax\<bar> \<le> 2 ^ 15" "\<bar>ay\<bar> \<le> 2 ^ 15" "\<bar>bx\<bar> \<le> 2 ^ 15" "\<bar>b\<bar> \<le> 2 ^ 15" using assms(1) by auto
    have e: "edges pts ! i = ((ax, ay), (bx, b))" using edges_nth [OF i] a b by simp
    have c: "\<exists>c. corner (ipoints pts) i = (ipoint ax ay, ipoint bx b, c)"
      using i j a b assms(3) by (auto simp: corner_def split: if_splits)
    have "\<bar>k + trapezoid (edges pts ! i)\<bar> < 2 ^ 53"
    proof -
      have "\<bar>k + trapezoid (edges pts ! i)\<bar> \<le> int i * 2 ^ 32 + 2 ^ 32" using s(2) trapezoid_grid(2) [OF r] e by simp
      also have "\<dots> \<le> 2 ^ 20 * 2 ^ 32" using i assms(2) by simp
      finally show ?thesis by simp
    qed
    then show ?thesis
      using c fint_add [OF s(1) trapezoid_grid(1) [OF r]] unfolding e by (auto simp: ipoint_def mk_point_def)
  qed
  have "fint (fold ?s [0..<n] 0) (\<Sum>e \<leftarrow> take n (edges pts). trapezoid e) \<and> \<bar>\<Sum>e \<leftarrow> take n (edges pts). trapezoid e\<bar> \<le> int n * 2 ^ 32"
    if "n \<le> length pts" for n
    using that
  proof (induction n)
    case 0
    then show ?case by (simp add: fint_0)
  next
    case (Suc n)
    let ?k = "\<Sum>e \<leftarrow> take n (edges pts). trapezoid e"
    have t: "take (Suc n) (edges pts) = take n (edges pts) @ [edges pts ! n]" using Suc.prems by (simp add: take_Suc_conv_app_nth)
    have ih: "fint (fold ?s [0..<n] 0) ?k" "\<bar>?k\<bar> \<le> int n * 2 ^ 32" using Suc by simp_all
    obtain ax ay bx b where e: "edges pts ! n = ((ax, ay), (bx, b))" by (metis prod.exhaust)
    have "((ax, ay), (bx, b)) \<in> set (edges pts)" using e Suc.prems nth_mem [of n "edges pts"] by simp
    then have "(ax, ay) \<in> set pts" "(bx, b) \<in> set pts" using edges_in by blast+
    then have r: "\<bar>ax\<bar> \<le> 2 ^ 15" "\<bar>ay\<bar> \<le> 2 ^ 15" "\<bar>bx\<bar> \<le> 2 ^ 15" "\<bar>b\<bar> \<le> 2 ^ 15" using assms(1) by auto
    show ?case using step [OF _ ih] trapezoid_grid(2) [OF r] ih(2) Suc.prems unfolding t e [symmetric] by simp
  qed
  from this [of "length pts"] show ?thesis
    unfolding process_loop_def process_cwc trapezoid_area [symmetric] by simp
qed

text \<open>
  C24: the orientation flag of a series with integer points of at most 2 ^ 15: it is set exactly if twice the signed
  area that the path encloses, closed by the edge from its end to its start, is negative; so the path
  walked backwards has the opposite flag unless it encloses no area. The sum that the loop forms in floating point is exact.
\<close>

theorem processPoints_clockwise:
  assumes "\<forall>(x, y) \<in> set pts. \<bar>x\<bar> \<le> 2 ^ 15 \<and> \<bar>y\<bar> \<le> 2 ^ 15" "length pts \<le> 2 ^ 20"
    and "2 \<le> length pts" "is_closed \<Longrightarrow> 3 \<le> length pts"
  shows "(snd (snd (processPoints (map (\<lambda>(x, y). ipoint x y) pts) is_closed)) \<longleftrightarrow> area2 pts < 0) \<and>
    (snd (snd (processPoints (map (\<lambda>(x, y). ipoint x y) (rev pts)) is_closed)) \<longleftrightarrow> 0 < area2 pts)"
proof -
  have *: "snd (snd (processPoints (ipoints ps) is_closed)) \<longleftrightarrow> area2 ps < 0"
    if "\<forall>(x, y) \<in> set ps. \<bar>x\<bar> \<le> 2 ^ 15 \<and> \<bar>y\<bar> \<le> 2 ^ 15" "length ps = length pts" for ps
  proof -
    have "fint (fst (snd (process_loop (ipoints ps)))) (- area2 ps)" using that assms(2,3) by (intro process_orientation) auto
    then have "fst (snd (process_loop (ipoints ps))) > 0 \<longleftrightarrow> area2 ps < 0" using fint_less [OF fint_0] by auto
    then show ?thesis using that(2) assms(3,4) by (auto simp: processPoints_def split: prod.split)
  qed
  show ?thesis using * [of pts] * [of "rev pts"] assms(1) by (simp add: area2_rev)
qed

theorem processPoints_clockwise_witness:
  "\<not> snd (snd (processPoints (map (\<lambda>(x, y). ipoint x y) [(0, 0), (4, 0), (0, 4)]) True)) \<and>
    snd (snd (processPoints (map (\<lambda>(x, y). ipoint x y) [(0, 4), (4, 0), (0, 0)]) True))"
  using processPoints_clockwise [of "[(0, 0), (4, 0), (0, 4)]" True]
  by (simp add: area2_def edges_def cross2_def)

end
