(* ===== verification/Spec2Isabelle.thy ===== *)
theory Spec2Isabelle
  imports Rect_Contents Rect_Shortcut Orientation
begin

text \<open>
  A verification of the Go package \<open>geometry\<close> (\<open>src/*.go\<close>): points, rectangles, segments, lines and
  polygons over 64-bit floats, with the predicates contains and intersects between all of them, and a
  compressed quadtree over the segments of a series that speeds the predicates up.

  \<^bold>\<open>How the program is put together.\<close> A series (\<open>series.go\<close>) is a list of points, open for a line and
  closed for a ring, with a bounding rectangle, a convexity and an orientation flag that
  \<open>processPoints\<close> computes, and with an optional index. The index is a quadtree (\<open>qtree.go\<close>) whose
  leaves hold segment numbers; it is built as a pointer tree and then flattened to bytes, with base-128
  numbers for the items and offsets for the quads. \<open>Search\<close> hands every segment whose rectangle meets
  a target to a callback that may stop it. Rings (\<open>ring.go\<close>), lines (\<open>line.go\<close>) and polygons
  (\<open>poly.go\<close>) are built from series, and their predicates are searches with callbacks that call the
  segment predicates (\<open>segment.go\<close>) and the ray cast (\<open>raycast.go\<close>). A rectangle (\<open>rect.go\<close>) is
  also a series, of four segments. \<open>DistanceToSeries\<close> walks the bytes of the index best-first with
  a priority queue (\<open>queue.go\<close>). \<open>geometry.go\<close> is the interface that dispatches over the shapes.

  \<^bold>\<open>The model, file by file.\<close> Each definition has the name of the function, a method with the name of
  its receiver in front (\<open>rect_ContainsPoint\<close> is \<open>Rect.ContainsPoint\<close>).

  \<^item> \<open>Prelude\<close>: outcomes (\<open>res\<close>: an \<open>error\<close>, which is \<open>IndexOutOfRange\<close>, \<open>SliceBounds\<close>, \<open>NilDereference\<close> or
    \<open>Diverges\<close>, or a value), loops with an early return, slice access, Go's \<open>int\<close>, and the collection \<open>returns_intro\<close>
    of rules for computations that return.
  \<^item> \<open>Float64\<close>: Go's \<open>float64\<close> as the 64 bits of IEEE 754 with comparison, rounding to nearest even,
    the arithmetic, and \<open>math.Nextafter\<close>; all of it computes. NaN, infinities, signed
    zeros and subnormal numbers are there. \<open>Float_Quotients\<close>: when two rounded quotients compare as
    the rationals do.
  \<^item> \<open>Shapes\<close> (\<open>point.go\<close>, \<open>rect.go\<close>, data of \<open>segment.go\<close>), \<open>Raycasting\<close> (\<open>raycast.go\<close>, the rest of
    \<open>segment.go\<close>), \<open>Pqueue\<close> (\<open>queue.go\<close>), \<open>Varint\<close> (the byte encoding of \<open>qtree.go\<close> and the length
    field of \<open>series.go\<close>), \<open>Series_Base\<close> (\<open>baseSeries\<close> and \<open>processPoints\<close>), \<open>Quadtree\<close> (\<open>qtree.go\<close>),
    \<open>Indexed_Series\<close> (index, \<open>Search\<close>, \<open>makeSeries\<close>, the \<open>Series\<close> interface and \<open>DistanceToSeries\<close>),
    \<open>Ring\<close> (\<open>ring.go\<close>), \<open>Polygon\<close> (\<open>line.go\<close>, \<open>poly.go\<close>, \<open>geometry.go\<close> and the methods of points and
    rectangles that take lines and polygons). These hold the definitions.
  \<^item> The remaining theories hold the specifications and the proofs that span several definitions.

  \<^bold>\<open>State and effects.\<close> A struct is a record, a pointer that may be nil an option, a slice a list. A Go
  closure that assigns captured variables is a function from an accumulator to a flag \<open>go on\<close> and the
  new accumulator, and \<open>Search\<close> threads the accumulator. The pointer tree of the quadtree has no
  sharing, so it is a datatype and an update returns the new tree. A panic and a loop that never ends
  are values of \<open>res\<close>, so that to return is a claim and not an assumption.

  \<^bold>\<open>What is proved.\<close>

  \<^item> Index (\<open>Quadtree_Build\<close>, \<open>Quadtree_Search\<close>, \<open>Series_Search\<close>): insertion keeps a well-formed tree and
    adds exactly one item; the bytes that \<open>compress\<close> writes are the tree, the search on the bytes
    visits the items of the tree search; so \<open>makeSeries\<close> establishes the invariant of a series, and
    \<open>Search\<close> visits the same segments with the index as without, each once.
  \<^item> Bytes (\<open>Varint\<close>): round trip and unique decodability of the numbers and the length field; the
    index of a series of at most 2 to the 20 points takes at most 56 + 3274 bytes per segment, so its
    length fits the 32-bit field.
  \<^item> Queue (\<open>Pqueue\<close>, \<open>Nearest\<close>): push and pop keep the heap; the heap sorts; \<open>DistanceToSeries\<close>
    ends and returns a nearest segment, with and without an index, for all distance functions
    that put a rectangle no farther than a segment in it.
  \<^item> Segments (\<open>Raycast_Grid\<close>, \<open>Segment_Grid\<close>): the ray cast returns for finite ordinates; on integer
    coordinates of at most 2 to the 24 it is exact, and so is the intersection of two segments but for
    one collinear case.
  \<^item> Points (\<open>Ring_Points\<close>, \<open>Poly_Points\<close>, \<open>Moving\<close>): the point test counts crossings or finds
    an edge, whatever the index; on the grid it is the even-odd rule; moving moves the points.
  \<^item> Lines (\<open>Lines\<close>): the points on a line and the intersection of two lines are those of the legs.
  \<^item> Crossings (\<open>Crossing_Parity\<close>): a closed path crosses a segment an even number of times exactly if the even-odd
    rule says the same of both ends; \<open>region\<close> extends the rule to all points with rational coordinates. This
    is pure geometry on integers, and what the exactness of the polygon predicates rests on.
  \<^item> Intersections (\<open>Ring_Segments\<close>, \<open>Ring_Contact\<close>, \<open>Rectangles\<close>): stopping at the second edge that meets a
    segment, and looking at the edges of the ring with the smaller rectangle only, lose nothing. So the methods that ask
    whether rectangles, polygons without holes, lines and points intersect are exact on the grid: yes exactly if
    the closed regions have a common point.
  \<^item> Containment (\<open>Segment_Inside\<close>, \<open>Enclosure\<close>, \<open>Convex_Rings\<close>, \<open>Containment\<close>, \<open>Rect_Contents\<close>): a rectangle contains
    exactly the shapes that lie in it, and seen as a polygon it contains the same (\<open>Rectangles\<close>); a ring that is convex, or simple
    and flagged concave, contains a ring or a line exactly if it has every point of it, where no
    corner of one border is on the other. That condition is needed: see the notch below.
  \<^item> Holes (\<open>Holes\<close>): in the same position a polygon with holes contains a polygon without holes or a line exactly if every point of
    that is in the exterior and in no hole, and intersects it, where its holes lie in the exterior and apart from each
    other, exactly if some point of it is in the exterior and strictly inside no hole.
  \<^item> Flags (\<open>Convexity\<close>, \<open>Orientation\<close>): what the convexity flag says; the orientation flag is the sign of the
    area on integer coordinates of at most 2 to the 15.
  \<^item> \<open>Safety\<close>: every predicate between any two shapes with finite ordinates returns, but for
    \<open>Line.ContainsLine\<close>.

  \<^bold>\<open>Interfaces.\<close> \<open>codec\<close> (a reader that reads back what a writer wrote; interpreted by the base-128
  numbers as \<open>uv\<close>), \<open>min_queue\<close> (push and pop over a heap order; interpreted by \<open>queue.go\<close> as \<open>pq\<close>, and
  what \<open>Nearest\<close> and the sorting theorem use), and \<open>segment_search\<close> (a search visits, in some order and each
  once, the segments whose rectangle meets the target, until the callback stops it; interpreted by the
  rectangle as \<open>rect_search\<close>, by \<open>baseSeries\<close> as \<open>base_search\<close> and by the \<open>Series\<close> interface as
  \<open>s_search\<close>). Everything about rings, lines and polygons rests on the last one.

  \<^bold>\<open>Loops, fuel and bounds.\<close> The loop that moves the ray, the loop of \<open>Line.ContainsLine\<close> and the loop of
  the nearest search are partial functions; where they end is proved, and where they do not is proved
  on concrete inputs. The search of the bytes takes as fuel the number of bytes: a quad is read at a
  larger address than its parent's, so the fuel is never used up for bytes that \<open>compress\<close> wrote,
  which the search theorems include as they state the result. The grid bound of 2 to the 24 keeps
  differences within 25 bits and products within 53, so that subtraction and multiplication are exact
  and quotients are compared exactly; for the orientation the bound is 2 to the 15, since the sum runs over up to
  2 to the 20 points. The containment of rings is stated for fewer than 16 points of the inner shape, as from there on the
  code tries the rectangle around it first, which may be wrong (\<open>Rect_Shortcut\<close>).

  \<^bold>\<open>What modelling showed.\<close> Departures of the code from its comments or its evident meaning, as theorems:
  \<open>IntersectsSegment\<close> misses a segment inside a collinear one; a ring that repeats its
  first point and is concave only there is taken for convex; \<open>ringContainsSegment\<close> skips the edges with an end on
  the segment, so a polygon contains a line that leaves it through two corners of a notch, and a polygon of 16 points or more of which
  only the rectangle around it touches the notch; \<open>Line.ContainsLine\<close> may run
  for ever and may accept a line that leaves the first one; the ray cast never ends at positive infinity; and the
  position that \<open>DistanceToSeries\<close> returns without an index is always 0. The comment on the first loop of
  \<open>Line.ContainsLine\<close> names the two lines the wrong way round.

  \<^bold>\<open>Not modelled.\<close> \<open>states.go\<close>, which is coordinate data for the tests. The pool of queues in \<open>qtree.go\<close>
  and the capacity of slices only save memory. Aliasing of the caller's point slice: \<open>makeSeries\<close> copies
  it where it is asked to, and no operation writes to points, so a list is faithful. Holes that are nil
  interfaces, which \<open>NewPoly\<close> never makes. Fused multiply-add, which a Go compiler may use on some
  processors: every operation rounds on its own, as on amd64. Concurrency: the package starts none.

  \<^bold>\<open>Not proved.\<close> Exactness where the second polygon has holes as well, and where a corner of one border lies on the
  other, but for rectangles and the point tests; there the predicates are shown to return. Where a ring is flagged
  convex the code looks at points only, which is right for rings that are convex but not for every ring that turns one
  way, such as a star.
\<close>

end
